(* ===== verification/Prelude.thy ===== *)
theory Prelude
  imports Main "HOL-Library.Word" "HOL-Library.AList" "HOL-Library.Multiset"
begin

text \<open>
  Shared vocabulary of the development: the machine integers of the Go program, Go run-time
  panics as values, byte slices with a length and a capacity, buffer writes, Go maps as
  association lists with an explicit iteration order, and decimal printing. The theorem
  collections \<open>outcome_simps\<close>, \<open>gomap_simps\<close> and \<open>buffer_simps\<close> gather the
  rewrite rules that the component theories hand to the simplifier.
\<close>

unbundle bit_operations_syntax

named_theorems outcome_simps "propagation of panics"
named_theorems gomap_simps "lookups, updates and key sets of Go maps"
named_theorems buffer_simps "writes into a byte buffer"

section \<open>Machine types\<close>

type_synonym byte = "8 word"
type_synonym uint16 = "16 word"
type_synonym uint32 = "32 word"
type_synonym uint64 = "64 word"
type_synonym int8 = "8 word" \<comment> \<open>read with \<open>sint\<close>\<close>

section \<open>Panics\<close>

text \<open>
  A Go panic ends the whole process. A function that can panic returns a sum, \<open>Inl\<close>
  being the panic; an \<open>error\<close> result of the source is an ordinary component of the value.
\<close>

datatype panic =
    IndexOutOfRange
  | SliceOutOfRange
  | NilDereference
  | MakeLenOutOfRange
  | PanicCall string

type_synonym 'a outcome = "panic + 'a"

definition bindR :: "'a outcome \<Rightarrow> ('a \<Rightarrow> 'b outcome) \<Rightarrow> 'b outcome" where
  "bindR r f = (case r of Inl e \<Rightarrow> Inl e | Inr x \<Rightarrow> f x)"

text \<open>A loop over the elements of a slice whose body may panic.\<close>

fun foldR :: "('a \<Rightarrow> 's \<Rightarrow> 's outcome) \<Rightarrow> 'a list \<Rightarrow> 's \<Rightarrow> 's outcome" where
  "foldR f [] s = Inr s"
| "foldR f (x # xs) s = bindR (f x s) (foldR f xs)"

section \<open>Slices and buffers\<close>

text \<open>
  A Go byte slice sees \<open>live\<close> (its length) of a longer array; \<open>spare\<close> is the part of
  the array between its length and its capacity. Indexing is checked against the length, but
  the slice expression \<open>b[lo:hi]\<close> is checked against the capacity.
\<close>

record gslice =
  live :: "byte list"
  spare :: "byte list"

definition full_slice :: "byte list \<Rightarrow> gslice" where
  "full_slice bs = \<lparr>live = bs, spare = []\<rparr>"

definition sindex :: "gslice \<Rightarrow> nat \<Rightarrow> byte outcome" where
  "sindex b i = (if i < length (live b) then Inr (live b ! i) else Inl IndexOutOfRange)"

definition sslice :: "gslice \<Rightarrow> nat \<Rightarrow> nat \<Rightarrow> gslice outcome" where
  "sslice b lo hi =
     (let a = live b @ spare b in
      if lo \<le> hi \<and> hi \<le> length a
      then Inr \<lparr>live = take (hi - lo) (drop lo a), spare = drop hi a\<rparr>
      else Inl SliceOutOfRange)"

text \<open>Reading and writing one element of a slice whose length is its capacity.\<close>

definition getIdx :: "'a list \<Rightarrow> nat \<Rightarrow> 'a outcome" where
  "getIdx xs i = (if i < length xs then Inr (xs ! i) else Inl IndexOutOfRange)"

definition setIdx :: "'a list \<Rightarrow> nat \<Rightarrow> 'a \<Rightarrow> 'a list outcome" where
  "setIdx xs i v = (if i < length xs then Inr (xs[i := v]) else Inl IndexOutOfRange)"

text \<open>What a run of element writes at \<open>p, p + 1, \<dots>\<close> amounts to.\<close>

definition overwrite :: "'a list \<Rightarrow> nat \<Rightarrow> 'a list \<Rightarrow> 'a list" where
  "overwrite xs p vs = take p xs @ vs @ drop (p + length vs) xs"

section \<open>Go maps\<close>

text \<open>
  A Go map is an association list with distinct keys. The order in which \<open>range\<close> visits
  a Go map is unspecified, so every function that depends on it takes a list of keys that
  fixes the order: the entries named there come first, in that order, then the rest.
\<close>

type_synonym 'v gomap = "(string \<times> 'v) list"

definition wf_map :: "'v gomap \<Rightarrow> bool" where
  "wf_map m \<longleftrightarrow> distinct (map fst m)"

definition has_key :: "'v gomap \<Rightarrow> string \<Rightarrow> bool" where
  "has_key m k \<longleftrightarrow> k \<in> set (map fst m)"

definition range_entries :: "string list \<Rightarrow> 'v gomap \<Rightarrow> (string \<times> 'v) list" where
  "range_entries ord m =
     List.map_filter (\<lambda>k. map_option (Pair k) (map_of m k)) (remdups ord) @
     filter (\<lambda>e. fst e \<notin> set ord) m"

section \<open>Decimal printing\<close>

definition digit_char :: "nat \<Rightarrow> char" where
  "digit_char d = char_of (48 + d)"

fun decimal :: "nat \<Rightarrow> string" where
  "decimal n = (if n < 10 then [digit_char n] else decimal (n div 10) @ [digit_char (n mod 10)])"

declare decimal.simps [simp del]

section \<open>Lemmas: panics and loops\<close>

lemma bindR_simps [simp, outcome_simps]:
  "bindR (Inl e) f = Inl e"
  "bindR (Inr x) f = f x"
  by (simp_all add: bindR_def)

lemma bindR_eq_Inr [outcome_simps]: "bindR r f = Inr y \<longleftrightarrow> (\<exists>x. r = Inr x \<and> f x = Inr y)"
  by (cases r) auto

lemma bindR_eq_Inl: "bindR r f = Inl e \<longleftrightarrow> r = Inl e \<or> (\<exists>x. r = Inr x \<and> f x = Inl e)"
  by (cases r) auto

lemma bindR_assoc: "bindR (bindR r f) g = bindR r (\<lambda>x. bindR (f x) g)"
  by (cases r) auto

lemma bindR_InrE [elim?]:
  assumes "bindR r f = Inr y" obtains x where "r = Inr x" and "f x = Inr y"
  using assms by (auto simp: bindR_eq_Inr)

text \<open>
  Partial correctness of an outcome: whatever value it has satisfies \<open>P\<close>. The rules
  below let a goal about a chain of \<open>bindR\<close> be split along the chain.
\<close>

definition ensures :: "'a outcome \<Rightarrow> ('a \<Rightarrow> bool) \<Rightarrow> bool" where
  "ensures r P \<longleftrightarrow> (\<forall>x. r = Inr x \<longrightarrow> P x)"

lemma ensures_simps [simp]: "ensures (Inl e) P" "ensures (Inr x) P \<longleftrightarrow> P x"
  by (simp_all add: ensures_def)

lemma ensures_bind: "(\<And>x. r = Inr x \<Longrightarrow> ensures (f x) P) \<Longrightarrow> ensures (bindR r f) P"
  by (auto simp: ensures_def bindR_eq_Inr)

lemma ensuresD: "ensures r P \<Longrightarrow> r = Inr x \<Longrightarrow> P x"
  by (simp add: ensures_def)

lemma ensures_weaken: "ensures r Q \<Longrightarrow> (\<And>x. r = Inr x \<Longrightarrow> Q x \<Longrightarrow> P x) \<Longrightarrow> ensures r P"
  by (simp add: ensures_def)

text \<open>Total correctness: there is a value, and it satisfies \<open>P\<close>.\<close>

definition yields :: "'a outcome \<Rightarrow> ('a \<Rightarrow> bool) \<Rightarrow> bool" where
  "yields r P \<longleftrightarrow> (\<exists>x. r = Inr x \<and> P x)"

lemma yields_simps [simp]: "\<not> yields (Inl e) P" "yields (Inr x) P \<longleftrightarrow> P x"
  by (simp_all add: yields_def)

lemma yields_bind: "yields r Q \<Longrightarrow> (\<And>x. r = Inr x \<Longrightarrow> Q x \<Longrightarrow> yields (f x) P) \<Longrightarrow> yields (bindR r f) P"
  by (auto simp: yields_def)

lemma yields_weaken: "yields r Q \<Longrightarrow> (\<And>x. r = Inr x \<Longrightarrow> Q x \<Longrightarrow> P x) \<Longrightarrow> yields r P"
  by (auto simp: yields_def)

lemma yieldsE: assumes "yields r P" obtains x where "r = Inr x" and "P x"
  using assms by (auto simp: yields_def)

lemma yields_ensures: "yields r P \<Longrightarrow> ensures r P"
  by (auto simp: yields_def ensures_def)

lemma foldR_append: "foldR f (xs @ ys) s = bindR (foldR f xs s) (foldR f ys)"
proof (induction xs arbitrary: s)
  case (Cons x xs)
  then show ?case by (cases "f x s") simp_all
qed simp

text \<open>The loop rule: a property kept by the body is kept by the loop.\<close>

lemma foldR_invariant:
  assumes "foldR f xs s = Inr t" and "P s"
    and "\<And>x s t. x \<in> set xs \<Longrightarrow> P s \<Longrightarrow> f x s = Inr t \<Longrightarrow> P t"
  shows "P t"
  using assms
proof (induction xs arbitrary: s)
  case Nil
  then show ?case by simp
next
  case (Cons x xs)
  from Cons.prems(1) obtain u where u: "f x s = Inr u" "foldR f xs u = Inr t"
    by (auto simp: outcome_simps)
  have "P u" using Cons.prems(2,3) u(1) by auto
  with u(2) show ?case using Cons.IH Cons.prems(3) by auto
qed

text \<open>The loop rule for total correctness: the body never panics under the invariant.\<close>

lemma foldR_total:
  assumes "P s" and "\<And>x s. x \<in> set xs \<Longrightarrow> P s \<Longrightarrow> \<exists>t. f x s = Inr t \<and> P t"
  shows "\<exists>t. foldR f xs s = Inr t \<and> P t"
  using assms
proof (induction xs arbitrary: s)
  case Nil
  then show ?case by simp
next
  case (Cons x xs)
  from Cons.prems(2) [OF _ Cons.prems(1), of x] obtain u where "f x s = Inr u" "P u" by auto
  moreover have "\<exists>t. foldR f xs u = Inr t \<and> P t" using \<open>P u\<close> Cons by auto
  ultimately show ?case by auto
qed

lemma yields_foldR:
  assumes "P s" and "\<And>x s. x \<in> set xs \<Longrightarrow> P s \<Longrightarrow> yields (f x s) P"
  shows "yields (foldR f xs s) P"
  using foldR_total [of P s xs f] assms by (auto simp: yields_def)

lemma ensures_foldR:
  assumes "P s" and "\<And>x s. x \<in> set xs \<Longrightarrow> P s \<Longrightarrow> ensures (f x s) P"
  shows "ensures (foldR f xs s) P"
  unfolding ensures_def
  using foldR_invariant [of f xs s _ P] assms by (auto simp: ensures_def)

section \<open>Lemmas: buffers\<close>

lemma sindex_full [simp]: "sindex (full_slice bs) i = getIdx bs i"
  by (simp add: sindex_def full_slice_def getIdx_def)

lemma live_full [simp]: "live (full_slice bs) = bs" "spare (full_slice bs) = []"
  by (simp_all add: full_slice_def)

lemma sslice_within:
  assumes "lo \<le> hi" and "hi \<le> length (live b)"
  shows "sslice b lo hi =
    Inr \<lparr>live = take (hi - lo) (drop lo (live b)), spare = drop hi (live b) @ spare b\<rparr>"
  using assms by (simp add: sslice_def)

lemma length_overwrite [simp]:
  "p + length vs \<le> length xs \<Longrightarrow> length (overwrite xs p vs) = length xs"
  by (simp add: overwrite_def)

lemma overwrite_Nil [simp]: "overwrite xs p [] = xs"
  by (simp add: overwrite_def)

lemma overwrite_single:
  "p < length xs \<Longrightarrow> overwrite xs p [v] = xs[p := v]"
  by (simp add: overwrite_def upd_conv_take_nth_drop)

lemma overwrite_overwrite [buffer_simps]:
  assumes "q = p + length vs" and "p \<le> length xs"
  shows "overwrite (overwrite xs p vs) q ws = overwrite xs p (vs @ ws)"
  using assms by (simp add: overwrite_def ac_simps)

lemma overwrite_append [buffer_simps]:
  assumes "length xs = p"
  shows "overwrite (xs @ ys) p vs = xs @ vs @ drop (length vs) ys"
  using assms by (simp add: overwrite_def)

lemma overwrite_nth_other:
  assumes "p + length vs \<le> length xs" and "i < p \<or> p + length vs \<le> i"
  shows "overwrite xs p vs ! i = xs ! i"
proof -
  consider "i < p" | "p + length vs \<le> i" using assms(2) by blast
  then show ?thesis
  proof cases
    case 1
    then show ?thesis using assms(1) by (simp add: overwrite_def nth_append)
  next
    case 2
    then show ?thesis using assms(1) by (auto simp: overwrite_def nth_append)
  qed
qed

lemma overwrite_nth_in:
  assumes "p + length vs \<le> length xs" and "j < length vs"
  shows "overwrite xs p vs ! (p + j) = vs ! j"
  using assms by (simp add: overwrite_def nth_append)

section \<open>Lemmas: Go maps\<close>

lemma has_key_iff [gomap_simps]: "has_key m k \<longleftrightarrow> map_of m k \<noteq> None"
  by (simp add: has_key_def map_of_eq_None_iff)

lemma wf_map_Nil [simp]: "wf_map []"
  by (simp add: wf_map_def)

lemma wf_map_update [simp, intro]: "wf_map m \<Longrightarrow> wf_map (AList.update k v m)"
  by (simp add: wf_map_def distinct_update)

lemma wf_map_delete [simp, intro]: "wf_map m \<Longrightarrow> wf_map (AList.delete k m)"
  by (simp add: wf_map_def distinct_delete)

lemma map_of_update [gomap_simps]:
  "map_of (AList.update k v m) k' = (if k' = k then Some v else map_of m k')"
  by (simp add: update_conv')

lemma map_of_delete [gomap_simps]:
  "map_of (AList.delete k m) k' = (if k' = k then None else map_of m k')"
  by (simp add: delete_conv')

lemma has_key_update [gomap_simps]:
  "has_key (AList.update k v m) k' \<longleftrightarrow> k' = k \<or> has_key m k'"
  by (simp add: has_key_iff map_of_update)

lemma has_key_delete [gomap_simps]:
  "has_key (AList.delete k m) k' \<longleftrightarrow> k' \<noteq> k \<and> has_key m k'"
  by (simp add: has_key_iff map_of_delete)

lemma wf_map_of_iff:
  assumes "wf_map m" shows "map_of m k = Some v \<longleftrightarrow> (k, v) \<in> set m"
  using assms by (simp add: wf_map_def)

lemma set_update_wf:
  assumes "wf_map m"
  shows "(k', v') \<in> set (AList.update k v m) \<longleftrightarrow>
    (if k' = k then v' = v else (k', v') \<in> set m)"
  using assms by (auto simp flip: wf_map_of_iff simp: map_of_update)

lemma set_delete_iff: "(k', v') \<in> set (AList.delete k m) \<longleftrightarrow> k' \<noteq> k \<and> (k', v') \<in> set m"
  by (induction m) (auto split: prod.splits)

lemma map_filter_pair_fst:
  "map fst (List.map_filter (\<lambda>k. map_option (Pair k) (map_of m k)) ks) =
   filter (\<lambda>k. map_of m k \<noteq> None) ks"
  by (induction ks) (auto split: option.splits)

lemma set_map_filter_pair:
  "(k, v) \<in> set (List.map_filter (\<lambda>k. map_option (Pair k) (map_of m k)) ks) \<longleftrightarrow>
   k \<in> set ks \<and> map_of m k = Some v"
  by (induction ks) (auto split: option.splits)

text \<open>Whatever the order list, \<open>range\<close> visits each entry exactly once.\<close>

lemma set_range_entries:
  assumes "wf_map m" shows "set (range_entries ord m) = set m"
proof -
  have "(k, v) \<in> set (range_entries ord m) \<longleftrightarrow> (k, v) \<in> set m" for k v
    unfolding range_entries_def set_append Un_iff set_map_filter_pair
    using assms by (auto simp: wf_map_of_iff)
  then show ?thesis by auto
qed

lemma wf_range_entries: "wf_map m \<Longrightarrow> wf_map (range_entries ord m)"
  unfolding wf_map_def range_entries_def map_append map_filter_pair_fst distinct_append
  by (auto simp: distinct_map intro: inj_on_subset)

lemma mset_range_entries:
  assumes "wf_map m" shows "mset (range_entries ord m) = mset m"
proof -
  have "distinct (range_entries ord m)" "distinct m"
    using wf_range_entries [OF assms] assms by (auto simp: wf_map_def distinct_map)
  then show ?thesis
    using set_eq_iff_mset_eq_distinct set_range_entries [OF assms] by blast
qed

lemma length_range_entries [simp]:
  "wf_map m \<Longrightarrow> length (range_entries ord m) = length m"
  using mset_range_entries mset_eq_length by blast

text \<open>Every order in which \<open>range\<close> may visit the map is the value of some order list.\<close>

lemma range_entries_any_order:
  assumes wf: "wf_map m" and perm: "mset p = mset m"
  shows "range_entries (map fst p) m = p"
proof -
  have set_eq: "set p = set m" using perm by (rule mset_eq_setD)
  have "mset (map fst p) = mset (map fst m)" using perm by simp
  then have dist: "distinct (map fst p)"
    using wf mset_eq_imp_distinct_iff unfolding wf_map_def by blast
  have look: "\<And>e. e \<in> set p \<Longrightarrow> map_of m (fst e) = Some (snd e)"
    using set_eq wf by (auto simp: wf_map_of_iff)
  have "List.map_filter (\<lambda>k. map_option (Pair k) (map_of m k)) (map fst p) = p"
    using look by (induction p) auto
  moreover have "filter (\<lambda>e. fst e \<notin> set (map fst p)) m = []"
    using set_eq by (auto simp: filter_empty_conv)
  ultimately show ?thesis using dist by (simp add: range_entries_def distinct_remdups_id)
qed

section \<open>Lemmas: decimal printing\<close>

lemma digit_char_inj: "a < 10 \<Longrightarrow> b < 10 \<Longrightarrow> digit_char a = digit_char b \<longleftrightarrow> a = b"
proof
  assume "a < 10" "b < 10" "digit_char a = digit_char b"
  then have "(of_char (char_of (48 + a)) :: nat) = of_char (char_of (48 + b))"
    by (simp add: digit_char_def)
  then show "a = b" using \<open>a < 10\<close> \<open>b < 10\<close> by simp
qed simp

lemma decimal_chars: "c \<in> set (decimal n) \<Longrightarrow> \<exists>d<10. c = digit_char d"
proof (induction n rule: decimal.induct)
  case (1 n)
  show ?case
  proof (cases "n < 10")
    case True
    with 1 show ?thesis by (auto simp: decimal.simps [of n])
  next
    case False
    then consider "c \<in> set (decimal (n div 10))" | "c = digit_char (n mod 10)"
      using "1.prems" by (auto simp: decimal.simps [of n])
    then show ?thesis using "1.IH" [OF False] by cases (auto intro: exI [of _ "n mod 10"])
  qed
qed

lemma decimal_not_Nil [simp]: "decimal n \<noteq> []"
  by (subst decimal.simps) simp

fun decimal_value :: "string \<Rightarrow> nat" where
  "decimal_value s = foldl (\<lambda>acc c. 10 * acc + (of_char c - 48)) 0 s"

lemma decimal_value_decimal [simp]: "decimal_value (decimal n) = n"
proof (induction n rule: decimal.induct)
  case (1 n)
  then show ?case
    by (cases "n < 10") (simp_all add: decimal.simps [of n] digit_char_def)
qed

lemma decimal_inj [simp]: "decimal m = decimal n \<longleftrightarrow> m = n"
  by (metis decimal_value_decimal)

text \<open>Splitting at a separator that neither left part contains.\<close>

lemma split_at_separator:
  assumes "xs @ c # ys = xs' @ c # ys'" and "c \<notin> set xs" and "c \<notin> set xs'"
  shows "xs = xs' \<and> ys = ys'"
  using assms
proof (induction xs arbitrary: xs')
  case Nil
  then show ?case by (cases xs') auto
next
  case (Cons x xs)
  then show ?case by (cases xs') auto
qed

lemma split_at_last_separator:
  assumes "xs @ c # ys = xs' @ c # ys'" and "c \<notin> set ys" and "c \<notin> set ys'"
  shows "xs = xs' \<and> ys = ys'"
proof -
  have "rev ys @ c # rev xs = rev ys' @ c # rev xs'"
    using arg_cong [OF assms(1), of rev] by simp
  then show ?thesis using split_at_separator [of "rev ys" c "rev xs" "rev ys'" "rev xs'"] assms(2,3) by simp
qed

end
