(* ===== verification/NetIP.thy ===== *)
theory NetIP
  imports Prelude
begin

text \<open>
  What the program uses of Go's \<open>net.IP\<close>, \<open>fmt\<close> and \<open>hash/adler32\<close>: addresses are
  byte slices (\<open>nil\<close> is the empty list), \<open>To4\<close>, \<open>To16\<close> and \<open>IPv4\<close> convert
  between the 4- and the 16-byte form, \<open>String\<close> prints dotted decimal or compressed
  hexadecimal. \<open>nodeAddressString\<close> of \<open>src/node.go\<close> builds on them; the theory
  shows that printed addresses identify an address and a port, the fact all the program's
  maps rest on.
\<close>

type_synonym IP = "byte list"

definition IPv4len :: nat where "IPv4len = 4"
definition IPv6len :: nat where "IPv6len = 16"

definition v4InV6Prefix :: IP where
  "v4InV6Prefix = [0, 0, 0, 0, 0, 0, 0, 0, 0, 0, 0xff, 0xff]"

definition IPv4 :: "byte \<Rightarrow> byte \<Rightarrow> byte \<Rightarrow> byte \<Rightarrow> IP" where
  "IPv4 a b c d = v4InV6Prefix @ [a, b, c, d]"

definition To4 :: "IP \<Rightarrow> IP" where
  "To4 ip =
     (if length ip = IPv4len then ip
      else if length ip = IPv6len \<and> take 12 ip = v4InV6Prefix then drop 12 ip
      else [])"

definition To16 :: "IP \<Rightarrow> IP" where
  "To16 ip =
     (if length ip = IPv4len then v4InV6Prefix @ ip
      else if length ip = IPv6len then ip
      else [])"

definition valid_ip :: "IP \<Rightarrow> bool" where
  "valid_ip ip \<longleftrightarrow> length ip = IPv4len \<or> length ip = IPv6len"

subsection \<open>Printing\<close>

fun join_with :: "char \<Rightarrow> string list \<Rightarrow> string" where
  "join_with c [] = []"
| "join_with c [x] = x"
| "join_with c (x # y # zs) = x @ c # join_with c (y # zs)"

definition hex_char :: "nat \<Rightarrow> char" where
  "hex_char d = (if d < 10 then char_of (48 + d) else char_of (87 + d))"

fun hexadecimal :: "nat \<Rightarrow> string" where
  "hexadecimal n =
     (if n < 16 then [hex_char n] else hexadecimal (n div 16) @ [hex_char (n mod 16)])"

declare hexadecimal.simps [simp del]

text \<open>The eight 16-bit groups of a 16-byte address.\<close>

fun groups :: "IP \<Rightarrow> nat list" where
  "groups (a # b # bs) = (256 * unat a + unat b) # groups bs"
| "groups _ = []"

text \<open>The first of the longest runs of zero groups, as a start and a length.\<close>

definition zero_run :: "nat list \<Rightarrow> nat \<Rightarrow> nat" where
  "zero_run gs i = length (takeWhile (\<lambda>g. g = 0) (drop i gs))"

function find_run :: "nat list \<Rightarrow> nat \<Rightarrow> nat \<times> nat \<Rightarrow> nat \<times> nat" where
  "find_run gs i (e, l) =
     (if length gs \<le> i then (e, l)
      else if zero_run gs i > l then find_run gs (i + zero_run gs i + 1) (i, zero_run gs i)
      else find_run gs (i + 1) (e, l))"
  by pat_completeness auto
termination
  by (relation "measure (\<lambda>(gs, i, _). length gs - i)") auto

declare find_run.simps [simp del]

definition ipv6_string :: "IP \<Rightarrow> string" where
  "ipv6_string ip =
     (let gs = groups ip; (e, l) = find_run gs 0 (0, 0) in
      if l \<le> 1 then join_with CHR '':'' (map hexadecimal gs)
      else join_with CHR '':'' (map hexadecimal (take e gs)) @ ''::'' @
           join_with CHR '':'' (map hexadecimal (drop (e + l) gs)))"

definition hex2 :: "byte \<Rightarrow> string" where
  "hex2 b = [hex_char (unat b div 16), hex_char (unat b mod 16)]"

definition IP_String :: "IP \<Rightarrow> string" where
  "IP_String ip =
     (if ip = [] then ''<nil>''
      else if To4 ip \<noteq> [] then join_with CHR ''.'' (map (\<lambda>b. decimal (unat b)) (To4 ip))
      else if length ip \<noteq> IPv6len then ''?'' @ concat (map hex2 ip)
      else ipv6_string ip)"

definition nodeAddressString :: "IP \<Rightarrow> uint16 \<Rightarrow> string" where
  "nodeAddressString ip port =
     (if To4 ip \<noteq> [] then IP_String ip @ '':'' @ decimal (unat port)
      else ''['' @ IP_String ip @ '']:'' @ decimal (unat port))"

subsection \<open>Checksums\<close>

text \<open>\<open>adler32.Checksum\<close>: two sums modulo 65521, the second in the upper half.\<close>

definition adler_step :: "byte \<Rightarrow> nat \<times> nat \<Rightarrow> nat \<times> nat" where
  "adler_step x ab = (let a = (fst ab + unat x) mod 65521 in (a, (snd ab + a) mod 65521))"

definition adler32 :: "byte list \<Rightarrow> uint32" where
  "adler32 bs = (let (a, b) = fold adler_step bs (1, 0) in word_of_nat (65536 * b + a))"

section \<open>Conversions\<close>

lemmas ip_len_defs = IPv4len_def IPv6len_def

lemma valid_ip_To16 [simp]: "valid_ip ip \<Longrightarrow> length (To16 ip) = 16"
  by (auto simp: valid_ip_def To16_def ip_len_defs v4InV6Prefix_def)

lemma To4_IPv4 [simp]: "To4 (IPv4 a b c d) = [a, b, c, d]"
  by (simp add: To4_def IPv4_def v4InV6Prefix_def ip_len_defs)

lemma valid_ip_IPv4 [simp]: "valid_ip (IPv4 a b c d)"
  by (simp add: valid_ip_def IPv4_def v4InV6Prefix_def ip_len_defs)

lemma length_To4: "To4 ip \<noteq> [] \<Longrightarrow> length (To4 ip) = 4"
  by (auto simp: To4_def ip_len_defs split: if_splits)

lemma To4_nonempty_valid: "To4 ip \<noteq> [] \<Longrightarrow> valid_ip ip"
  by (auto simp: To4_def valid_ip_def split: if_splits)

lemma To16_of_To4: "To4 ip \<noteq> [] \<Longrightarrow> To16 ip = v4InV6Prefix @ To4 ip"
  by (auto simp: To4_def To16_def ip_len_defs split: if_splits) (metis append_take_drop_id)

lemma To4_eq_To16:
  assumes "To4 ip \<noteq> []" and "To4 ip' \<noteq> []"
  shows "To4 ip = To4 ip' \<longleftrightarrow> To16 ip = To16 ip'"
  using assms by (simp add: To16_of_To4)

lemma To4_To16: "valid_ip ip \<Longrightarrow> To4 (To16 ip) = To4 ip"
  by (auto simp: To4_def To16_def valid_ip_def ip_len_defs v4InV6Prefix_def)

lemma not_v4_length: "valid_ip ip \<Longrightarrow> To4 ip = [] \<Longrightarrow> length ip = 16 \<and> To16 ip = ip"
  by (auto simp: To4_def To16_def valid_ip_def ip_len_defs split: if_splits)

section \<open>Characters of printed numbers\<close>

lemma hex_char_inj: "a < 16 \<Longrightarrow> b < 16 \<Longrightarrow> hex_char a = hex_char b \<longleftrightarrow> a = b"
proof
  assume "a < 16" "b < 16" "hex_char a = hex_char b"
  then have "(of_char (hex_char a) :: nat) = of_char (hex_char b)" by simp
  then show "a = b" using \<open>a < 16\<close> \<open>b < 16\<close> by (auto simp: hex_char_def split: if_splits)
qed simp

lemma hex_char_not_colon: "d < 16 \<Longrightarrow> hex_char d \<noteq> CHR '':''"
proof
  assume "d < 16" "hex_char d = CHR '':''"
  then have "(of_char (hex_char d) :: nat) = of_char CHR '':''" by simp
  then show False using \<open>d < 16\<close> by (auto simp: hex_char_def split: if_splits)
qed

lemma hexadecimal_not_Nil [simp]: "hexadecimal n \<noteq> []" "[] \<noteq> hexadecimal n"
  by (subst hexadecimal.simps, simp)+

lemma hexadecimal_no_colon: "CHR '':'' \<notin> set (hexadecimal n)"
proof (induction n rule: hexadecimal.induct)
  case (1 n)
  then show ?case
    using hex_char_not_colon [of n] hex_char_not_colon [of "n mod 16"]
    by (cases "n < 16") (auto simp: hexadecimal.simps [of n])
qed

lemma hexadecimal_inj [simp]: "hexadecimal m = hexadecimal n \<longleftrightarrow> m = n"
proof (induction m arbitrary: n rule: hexadecimal.induct)
  case (1 m)
  show ?case
  proof (cases "m < 16")
    case True
    then show ?thesis
      by (auto simp: hexadecimal.simps [of m] hexadecimal.simps [of n] hex_char_inj)
  next
    case False
    have "m = n \<longleftrightarrow> m div 16 = n div 16 \<and> m mod 16 = n mod 16"
      by (metis div_mult_mod_eq)
    then show ?thesis using False "1.IH" [OF False, of "n div 16"]
      by (cases "n < 16")
        (auto simp: hexadecimal.simps [of m] hexadecimal.simps [of n] hex_char_inj)
  qed
qed

lemma decimal_char_code: "c \<in> set (decimal n) \<Longrightarrow> 48 \<le> (of_char c :: nat) \<and> (of_char c :: nat) \<le> 57"
  by (auto dest!: decimal_chars simp: digit_char_def)

lemma decimal_no_sep [simp]:
  "CHR '':'' \<notin> set (decimal n)" "CHR ''.'' \<notin> set (decimal n)" "CHR ''['' \<notin> set (decimal n)"
  "CHR '']'' \<notin> set (decimal n)"
  using decimal_char_code [of "CHR '':''" n] decimal_char_code [of "CHR ''.''" n]
    decimal_char_code [of "CHR ''[''" n] decimal_char_code [of "CHR '']''" n]
  by auto

section \<open>Fields between separators\<close>

fun fields :: "char \<Rightarrow> string \<Rightarrow> string list" where
  "fields c [] = [[]]"
| "fields c (x # xs) =
     (if x = c then [] # fields c xs
      else case fields c xs of [] \<Rightarrow> [[x]] | f # fs \<Rightarrow> (x # f) # fs)"

lemma fields_not_Nil [simp]: "fields c s \<noteq> []"
  by (cases s) (auto split: list.splits)

lemma fields_plain: "c \<notin> set s \<Longrightarrow> fields c s = [s]"
  by (induction s) auto

lemma fields_append: "fields c (s @ c # t) = fields c s @ fields c t"
  by (induction s) (auto split: list.splits)

lemma fields_join:
  assumes "xs \<noteq> []" and "\<forall>x \<in> set xs. c \<notin> set x"
  shows "fields c (join_with c xs) = xs"
  using assms
  by (induction c xs rule: join_with.induct) (auto simp: fields_plain fields_append)

lemma join_with_inj:
  assumes "join_with c xs = join_with c ys" and "xs \<noteq> []" and "ys \<noteq> []"
    and "\<forall>x \<in> set xs. c \<notin> set x" and "\<forall>y \<in> set ys. c \<notin> set y"
  shows "xs = ys"
  using assms fields_join by metis

subsection \<open>Compressed addresses\<close>

text \<open>The run that is left out consists of zero groups, inside the address.\<close>

lemma zero_run_zeros:
  assumes "k = zero_run gs i" and "i \<le> length gs"
  shows "i + k \<le> length gs" and "take k (drop i gs) = replicate k 0"
proof -
  have "k \<le> length (drop i gs)"
    using assms(1) length_takeWhile_le [of _ "drop i gs"] unfolding zero_run_def by blast
  then show "i + k \<le> length gs" using assms(2) by simp
  have "take k (drop i gs) = takeWhile (\<lambda>g. g = 0) (drop i gs)"
    using assms(1) by (simp add: zero_run_def takeWhile_eq_take [symmetric])
  moreover have "\<forall>g \<in> set (takeWhile (\<lambda>g. g = 0) (drop i gs)). g = 0"
    by (auto dest: set_takeWhileD)
  ultimately show "take k (drop i gs) = replicate k 0"
    using assms(1) by (simp add: zero_run_def replicate_length_same [symmetric])
qed

definition zero_span :: "nat list \<Rightarrow> nat \<times> nat \<Rightarrow> bool" where
  "zero_span gs r \<longleftrightarrow> fst r + snd r \<le> length gs \<and>
     take (snd r) (drop (fst r) gs) = replicate (snd r) 0"

lemma find_run_zero_span: "zero_span gs r \<Longrightarrow> zero_span gs (find_run gs i r)"
proof (induction gs i r rule: find_run.induct)
  case (1 gs i e l)
  show ?case
  proof (cases "length gs \<le> i")
    case True
    with "1.prems" show ?thesis by (simp add: find_run.simps [of gs i e l])
  next
    case False
    have "zero_span gs (i, zero_run gs i)"
      using zero_run_zeros [OF refl, of i gs] False by (simp add: zero_span_def)
    with False 1 show ?thesis by (auto simp: find_run.simps [of gs i e l])
  qed
qed

lemma expand_zero_span:
  assumes "zero_span gs (e, l)"
  shows "gs = take e gs @ replicate l 0 @ drop (e + l) gs"
  using assms by (metis append_take_drop_id zero_span_def fst_conv snd_conv drop_drop add.commute)

text \<open>Reading the fields of a printed address back into its groups.\<close>

definition left_part :: "string list \<Rightarrow> string list" where
  "left_part fs = takeWhile (\<lambda>f. f \<noteq> []) fs"

definition right_part :: "string list \<Rightarrow> string list" where
  "right_part fs = filter (\<lambda>f. f \<noteq> []) (dropWhile (\<lambda>f. f \<noteq> []) fs)"

definition or_empty :: "string list \<Rightarrow> string list" where
  "or_empty xs = (if xs = [] then [[]] else xs)"

lemma fields_compressed:
  assumes "\<forall>x \<in> set xs. c \<notin> set x" and "\<forall>y \<in> set ys. c \<notin> set y"
  shows "fields c (join_with c xs @ c # c # join_with c ys) = or_empty xs @ [] # or_empty ys"
proof -
  have "fields c (join_with c zs) = or_empty zs" if "\<forall>x \<in> set zs. c \<notin> set x" for zs
    using that by (cases "zs = []") (simp_all add: or_empty_def fields_join)
  then show ?thesis using assms by (simp add: fields_append)
qed

lemma parts_compressed:
  assumes "[] \<notin> set xs" and "[] \<notin> set ys"
  shows "left_part (or_empty xs @ [] # or_empty ys) = xs"
    and "right_part (or_empty xs @ [] # or_empty ys) = ys"
proof -
  have ne: "\<forall>x \<in> set xs. x \<noteq> []" "\<forall>y \<in> set ys. y \<noteq> []" using assms by auto
  show "left_part (or_empty xs @ [] # or_empty ys) = xs"
    using ne by (simp add: left_part_def or_empty_def takeWhile_append2)
  show "right_part (or_empty xs @ [] # or_empty ys) = ys"
    using ne by (auto simp: right_part_def or_empty_def dropWhile_append2 filter_id_conv)
qed

definition regroup :: "string list \<Rightarrow> string list" where
  "regroup fs =
     (if [] \<in> set fs
      then left_part fs @
        replicate (8 - length (left_part fs) - length (right_part fs)) (hexadecimal 0) @
        right_part fs
      else fs)"

lemma length_groups: "length (groups bs) = length bs div 2"
  by (induction bs rule: groups.induct) auto

lemma regroup_ipv6_string:
  assumes "length ip = 16"
  shows "regroup (fields CHR '':'' (ipv6_string ip)) = map hexadecimal (groups ip)"
proof -
  let ?gs = "groups ip"
  obtain e l where r: "find_run ?gs 0 (0, 0) = (e, l)" by fastforce
  have span: "zero_span ?gs (e, l)"
    using find_run_zero_span [of ?gs "(0, 0)" 0] r by (simp add: zero_span_def)
  have len: "length ?gs = 8" using assms by (simp add: length_groups)
  have ne: "?gs \<noteq> []" using len by auto
  show ?thesis
  proof (cases "l \<le> 1")
    case True
    then have "fields CHR '':'' (ipv6_string ip) = map hexadecimal ?gs"
      using ne by (simp add: ipv6_string_def r fields_join hexadecimal_no_colon)
    then show ?thesis by (auto simp: regroup_def)
  next
    case False
    let ?l = "map hexadecimal (take e ?gs)" and ?r = "map hexadecimal (drop (e + l) ?gs)"
    have fs: "fields CHR '':'' (ipv6_string ip) = or_empty ?l @ [] # or_empty ?r"
      using False fields_compressed [of ?l "CHR '':''" ?r]
      by (simp add: ipv6_string_def Let_def r hexadecimal_no_colon)
    have parts: "left_part (or_empty ?l @ [] # or_empty ?r) = ?l"
      "right_part (or_empty ?l @ [] # or_empty ?r) = ?r"
      by (rule parts_compressed; auto)+
    have "length (take e ?gs) + l + length (drop (e + l) ?gs) = 8"
      using span len by (simp add: zero_span_def)
    then have "regroup (or_empty ?l @ [] # or_empty ?r) =
        map hexadecimal (take e ?gs @ replicate l 0 @ drop (e + l) ?gs)"
      by (simp add: regroup_def parts)
    then show ?thesis using fs expand_zero_span [OF span] by simp
  qed
qed

lemma base256_unique:
  assumes "y < 256" and "y' < 256" and eq: "256 * x + y = 256 * x' + (y' :: nat)"
  shows "x = x' \<and> y = y'"
proof -
  have "(256 * x + y) div 256 = x" "(256 * x' + y') div 256 = x'" using assms(1,2) by simp_all
  then have "x = x'" using eq by simp
  with eq show ?thesis by simp
qed

lemma groups_inj:
  "groups xs = groups ys \<Longrightarrow> length xs = length ys \<Longrightarrow> even (length xs) \<Longrightarrow> xs = ys"
proof (induction xs arbitrary: ys rule: groups.induct)
  case (1 a b bs)
  then have "length ys = Suc (Suc (length bs))" by simp
  then obtain a' b' bs' where ys: "ys = a' # b' # bs'" by (auto simp: length_Suc_conv)
  have "unat b < 256" "unat b' < 256" using unsigned_less [of b] unsigned_less [of b'] by auto
  moreover have "256 * unat a + unat b = 256 * unat a' + unat b'" using "1.prems"(1) ys by simp
  ultimately have "unat a = unat a' \<and> unat b = unat b'" by (rule base256_unique)
  then have "a = a' \<and> b = b'" unfolding word_unat_eq_iff .
  moreover have "bs = bs'" using "1.IH" [of bs'] "1.prems" ys by simp
  ultimately show ?case using ys by simp
qed auto

lemma ipv6_string_inj:
  assumes "length ip = 16" and "length ip' = 16" and "ipv6_string ip = ipv6_string ip'"
  shows "ip = ip'"
proof -
  have "map hexadecimal (groups ip) = map hexadecimal (groups ip')"
    using assms regroup_ipv6_string by metis
  then have "groups ip = groups ip'" by (rule map_injective) (simp add: inj_def)
  then show ?thesis using assms(1,2) by (intro groups_inj) simp_all
qed

section \<open>Printed addresses identify nodes\<close>

lemma ipv4_string_inj:
  assumes "To4 ip \<noteq> []" and "To4 ip' \<noteq> []" and "IP_String ip = IP_String ip'"
  shows "To4 ip = To4 ip'"
proof -
  let ?f = "\<lambda>b. decimal (unat (b :: byte))"
  have ne: "ip \<noteq> []" "ip' \<noteq> []" using assms(1,2) by (auto simp: To4_def ip_len_defs)
  have "join_with CHR ''.'' (map ?f (To4 ip)) = join_with CHR ''.'' (map ?f (To4 ip'))"
    using assms ne by (simp add: IP_String_def)
  then have "map ?f (To4 ip) = map ?f (To4 ip')"
    using assms(1,2) by (intro join_with_inj) auto
  then show ?thesis by (rule map_injective) (simp add: inj_def word_unat_eq_iff)
qed

lemma set_join_with: "set (join_with c xs) \<subseteq> insert c (\<Union> (set ` set xs))"
  by (induction c xs rule: join_with.induct) auto

lemma IP_String_v4_no_colon: "To4 ip \<noteq> [] \<Longrightarrow> CHR '':'' \<notin> set (IP_String ip)"
  using set_join_with [of "CHR ''.''" "map (\<lambda>b. decimal (unat b)) (To4 ip)"]
  by (auto simp: IP_String_def)

lemma IP_String_v4_head: "To4 ip \<noteq> [] \<Longrightarrow> \<exists>d<10. hd (IP_String ip @ rest) = digit_char d"
proof -
  assume v4: "To4 ip \<noteq> []"
  then obtain a as where a: "To4 ip = a # as" by (cases "To4 ip") auto
  have "IP_String ip = join_with CHR ''.'' (map (\<lambda>b. decimal (unat b)) (a # as))"
    using v4 a by (auto simp: IP_String_def To4_def ip_len_defs split: if_splits)
  then have "hd (IP_String ip @ rest) = hd (decimal (unat a))"
    by (cases as) (simp_all add: hd_append)
  then show ?thesis using decimal_chars [of "hd (decimal (unat a))" "unat a"] by simp
qed

lemma digit_char_not_bracket: "d < 10 \<Longrightarrow> digit_char d \<noteq> CHR ''[''"
proof
  assume "d < 10" "digit_char d = CHR ''[''"
  then have "(of_char (digit_char d) :: nat) = of_char CHR ''[''" by simp
  then show False using \<open>d < 10\<close> by (simp add: digit_char_def)
qed

lemma IP_String_v6: "valid_ip ip \<Longrightarrow> To4 ip = [] \<Longrightarrow> IP_String ip = ipv6_string ip"
  by (auto simp: IP_String_def valid_ip_def To4_def ip_len_defs split: if_splits)

lemma nodeAddressString_inj:
  assumes "valid_ip ip" and "valid_ip ip'"
    and eq: "nodeAddressString ip p = nodeAddressString ip' p'"
  shows "To16 ip = To16 ip' \<and> p = p'"
proof -
  have same: "To4 ip \<noteq> [] \<longleftrightarrow> To4 ip' \<noteq> []"
  proof (rule ccontr)
    assume "(To4 ip \<noteq> []) \<noteq> (To4 ip' \<noteq> [])"
    then have "\<exists>d<10. CHR ''['' = digit_char d"
      using arg_cong [OF eq, of hd] IP_String_v4_head [of ip "'':'' @ decimal (unat p)"]
        IP_String_v4_head [of ip' "'':'' @ decimal (unat p')"]
      by (cases "To4 ip = []") (auto simp: nodeAddressString_def)
    then show False using digit_char_not_bracket by metis
  qed
  show ?thesis
  proof (cases "To4 ip \<noteq> []")
    case True
    then have "IP_String ip @ CHR '':'' # decimal (unat p) = IP_String ip' @ CHR '':'' # decimal (unat p')"
      using eq same by (simp add: nodeAddressString_def)
    then have "IP_String ip = IP_String ip' \<and> decimal (unat p) = decimal (unat p')"
      using True same IP_String_v4_no_colon by (intro split_at_separator) blast+
    moreover have "To4 ip = To4 ip'"
      using True same calculation by (intro ipv4_string_inj) simp_all
    ultimately show ?thesis using True same To4_eq_To16 [of ip ip'] by (simp add: word_unat_eq_iff)
  next
    case False
    then have "rev (IP_String ip @ '']:'' @ decimal (unat p)) =
        rev (IP_String ip' @ '']:'' @ decimal (unat p'))"
      using eq same by (simp add: nodeAddressString_def)
    then have "rev (decimal (unat p)) @ CHR '':'' # CHR '']'' # rev (IP_String ip) =
        rev (decimal (unat p')) @ CHR '':'' # CHR '']'' # rev (IP_String ip')"
      by simp
    then have "rev (decimal (unat p)) = rev (decimal (unat p')) \<and>
        CHR '']'' # rev (IP_String ip) = CHR '']'' # rev (IP_String ip')"
      by (rule split_at_separator) auto
    then have "IP_String ip = IP_String ip'" "p = p'" by (auto simp: word_unat_eq_iff)
    then show ?thesis
      using False same assms(1,2) not_v4_length ipv6_string_inj by (simp add: IP_String_v6)
  qed
qed

lemma IP_String_v4_not_Nil: "To4 a \<noteq> [] \<Longrightarrow> IP_String a \<noteq> []"
  by (cases "map (\<lambda>b. decimal (unat b)) (To4 a)" rule: remdups_adj.cases) (auto simp: IP_String_def)

lemma IP_String_inj:
  assumes "valid_ip a" and "valid_ip b" and "IP_String a = IP_String b"
  shows "To16 a = To16 b"
proof -
  have mixed: False if "To4 x \<noteq> []" "To4 y = []" "valid_ip y" "IP_String x = IP_String y" for x y
  proof -
    let ?f = "fields CHR '':'' (IP_String x)"
    have "IP_String x \<noteq> []" using that(1) by (rule IP_String_v4_not_Nil)
    moreover have "?f = [IP_String x]" using that(1) by (simp add: fields_plain IP_String_v4_no_colon)
    ultimately have "length (regroup ?f) \<noteq> 8" by (simp add: regroup_def)
    moreover have "regroup ?f = map hexadecimal (groups y)"
      using that(2-4) not_v4_length [OF that(3,2)] by (simp add: IP_String_v6 regroup_ipv6_string)
    ultimately show False using not_v4_length [OF that(3,2)] by (simp add: length_groups)
  qed
  show ?thesis
  proof (cases "To4 a = []"; cases "To4 b = []")
    assume "To4 a = []" "To4 b = []"
    then show ?thesis using assms not_v4_length ipv6_string_inj by (simp add: IP_String_v6)
  next
    assume "To4 a \<noteq> []" "To4 b \<noteq> []"
    then show ?thesis using assms(3) ipv4_string_inj To4_eq_To16 by blast
  qed (use mixed assms in \<open>metis+\<close>)
qed

lemma IP_String_To16:
  assumes "valid_ip a" shows "IP_String (To16 a) = IP_String a"
proof (cases "To4 a = []")
  case True
  then show ?thesis using not_v4_length [OF assms] by simp
next
  case False
  have "length (To16 a) = 16" "a \<noteq> []"
    using assms by (auto simp: valid_ip_def ip_len_defs)
  then have "To16 a \<noteq> []" by auto
  then show ?thesis using False \<open>a \<noteq> []\<close> To4_To16 [OF assms] by (simp add: IP_String_def)
qed

lemma nodeAddressString_To16:
  "valid_ip a \<Longrightarrow> nodeAddressString (To16 a) p = nodeAddressString a p"
  by (simp add: nodeAddressString_def To4_To16 IP_String_To16)

text \<open>
  Printed addresses identify a node: two valid IP addresses with ports print to the same
  string exactly when they are the same address (in 16-byte form) and the same port. This is
  what lets the program use the string as the key of all its maps.
\<close>

theorem nodeAddressString_identifies:
  assumes "valid_ip a" and "valid_ip b"
  shows "nodeAddressString a p = nodeAddressString b q \<longleftrightarrow> To16 a = To16 b \<and> p = q"
proof
  assume "nodeAddressString a p = nodeAddressString b q"
  with assms show "To16 a = To16 b \<and> p = q" by (rule nodeAddressString_inj)
next
  assume "To16 a = To16 b \<and> p = q"
  then show "nodeAddressString a p = nodeAddressString b q"
    using nodeAddressString_To16 [OF assms(1), of p] nodeAddressString_To16 [OF assms(2), of q] by simp
qed

theorem nodeAddressString_identifies_witness:
  "valid_ip [10, 0, 0, 1] \<and> valid_ip (IPv4 10 0 0 2) \<and>
   (nodeAddressString [10, 0, 0, 1] 80 = nodeAddressString (IPv4 10 0 0 2) 80 \<longleftrightarrow>
     To16 [10, 0, 0, 1] = To16 (IPv4 10 0 0 2) \<and> (80 :: uint16) = 80)"
proof -
  have "valid_ip [10, 0, 0, 1]" by (simp add: valid_ip_def ip_len_defs)
  then show ?thesis using nodeAddressString_identifies [OF _ valid_ip_IPv4] by simp
qed

end
