(* ===== verification/Node.thy ===== *)
theory Node
  imports NetIP
begin

text \<open>
  \<open>src/node.go\<close>, \<open>src/nodeStatus.go\<close> and \<open>src/messageVerb.go\<close>. A \<open>*Node\<close>
  is an index into the heap, a list of \<open>Node\<close> records that only grows, because the maps,
  the messages and the pending acknowledgements of the program share nodes by pointer; \<open>nil\<close>
  is \<open>None\<close>. A \<open>NodeStatus\<close> or \<open>messageVerb\<close> is a byte: decoding a message
  yields values outside the named constants.

  \<open>Address\<close> stores the printed address on first use. No function of the program changes
  \<open>ip\<close> or \<open>port\<close> of an existing node, so callers read the address through \<open>addressOf\<close>
  and the stored copy is written by \<open>Address\<close> only; \<open>Address_memo\<close> shows that the
  write changes no later result.
\<close>

section \<open>Status and verb bytes\<close>

type_synonym NodeStatus = byte

definition StatusUnknown :: NodeStatus where "StatusUnknown = 0"
definition StatusAlive :: NodeStatus where "StatusAlive = 1"
definition StatusSuspected :: NodeStatus where "StatusSuspected = 2"
definition StatusDead :: NodeStatus where "StatusDead = 3"
definition StatusForwardTo :: NodeStatus where "StatusForwardTo = 4"

lemmas status_defs [simp] =
  StatusUnknown_def StatusAlive_def StatusSuspected_def StatusDead_def StatusForwardTo_def

definition NodeStatus_String :: "NodeStatus \<Rightarrow> string" where
  "NodeStatus_String s =
     (if s = StatusUnknown then ''UNKNOWN''
      else if s = StatusAlive then ''ALIVE''
      else if s = StatusDead then ''DEAD''
      else if s = StatusSuspected then ''SUSPECTED''
      else if s = StatusForwardTo then ''FORWARD_TO''
      else ''UNDEFINED'')"

type_synonym messageVerb = byte

definition verbPing :: messageVerb where "verbPing = 0"
definition verbAck :: messageVerb where "verbAck = 1"
definition verbPingRequest :: messageVerb where "verbPingRequest = 2"
definition verbNonForwardingPing :: messageVerb where "verbNonForwardingPing = 3"

lemmas verb_defs [simp] =
  verbPing_def verbAck_def verbPingRequest_def verbNonForwardingPing_def

definition messageVerb_String :: "messageVerb \<Rightarrow> string" where
  "messageVerb_String v =
     (if v = verbPing then ''PING''
      else if v = verbAck then ''ACK''
      else if v = verbPingRequest then ''PINGREQ''
      else if v = verbNonForwardingPing then ''NFPING''
      else ''UNDEFINED'')"

section \<open>Nodes\<close>

definition PingNoData :: int where "PingNoData = -1"
definition PingTimedOut :: int where "PingTimedOut = -2"

type_synonym node_ref = nat

record Node =
  ip :: IP
  port :: uint16
  timestamp :: uint32
  address :: string
  pingMillis :: int
  status :: NodeStatus
  emitCounter :: int8
  heartbeat :: uint32
  statusSource :: "node_ref option"

type_synonym heap = "Node list"

text \<open>The value of \<open>Address()\<close> and the node with the address it has stored.\<close>

definition Address :: "Node \<Rightarrow> string \<times> Node" where
  "Address n =
     (let n' = (if address n = [] then n\<lparr>address := nodeAddressString (ip n) (port n)\<rparr> else n)
      in (address n', n'))"

definition addressOf :: "heap \<Rightarrow> node_ref \<Rightarrow> string" where
  "addressOf h r = fst (Address (h ! r))"

text \<open>
  \<open>time.Now().UnixNano()\<close> is the parameter \<open>nano\<close>; Go's integer division truncates
  towards zero and the conversion to \<open>uint32\<close> keeps the low 32 bits.
\<close>

definition go_div :: "int \<Rightarrow> int \<Rightarrow> int" where
  "go_div a b = sgn a * sgn b * (\<bar>a\<bar> div \<bar>b\<bar>)"

definition GetNowInMillis :: "int \<Rightarrow> uint32" where
  "GetNowInMillis nano = word_of_int (go_div nano 1000000)"

definition Age :: "uint32 \<Rightarrow> Node \<Rightarrow> uint32" where
  "Age now n = now - timestamp n"

definition Touch :: "uint32 \<Rightarrow> Node \<Rightarrow> Node" where
  "Touch now n = n\<lparr>timestamp := now\<rparr>"

definition EmitCounter :: "Node \<Rightarrow> int8" where "EmitCounter n = emitCounter n"
definition Node_IP :: "Node \<Rightarrow> IP" where "Node_IP n = ip n"
definition PingMillis :: "Node \<Rightarrow> int" where "PingMillis n = pingMillis n"
definition Port :: "Node \<Rightarrow> uint16" where "Port n = port n"
definition Status :: "Node \<Rightarrow> NodeStatus" where "Status n = status n"
definition StatusSource :: "Node \<Rightarrow> node_ref option" where "StatusSource n = statusSource n"
definition Timestamp :: "Node \<Rightarrow> uint32" where "Timestamp n = timestamp n"

lemmas accessor_defs [simp] =
  EmitCounter_def Node_IP_def PingMillis_def Port_def Status_def StatusSource_def Timestamp_def

text \<open>Applying a change to the node behind a pointer.\<close>

definition modify :: "node_ref \<Rightarrow> (Node \<Rightarrow> Node) \<Rightarrow> heap \<Rightarrow> heap" where
  "modify r f h = h[r := f (h ! r)]"

text \<open>
  A well-formed node has a 4- or 16-byte address, its stored address is empty or the
  printed one, and its status is not the pseudo status of forwarding requests.
\<close>

definition wf_node :: "Node \<Rightarrow> bool" where
  "wf_node n \<longleftrightarrow> valid_ip (ip n) \<and>
     (address n = [] \<or> address n = nodeAddressString (ip n) (port n)) \<and>
     status n \<noteq> StatusForwardTo"

section \<open>Lemmas\<close>

lemma nodeAddressString_not_Nil [simp]: "nodeAddressString a p \<noteq> []"
  by (simp add: nodeAddressString_def)

lemma fst_Address: "wf_node n \<Longrightarrow> fst (Address n) = nodeAddressString (ip n) (port n)"
  by (auto simp: Address_def wf_node_def Let_def)

text \<open>Storing the address leaves every field but the stored copy, and every later address.\<close>

lemma Address_memo:
  assumes "wf_node n"
  shows "Address (snd (Address n)) = Address n"
    and "snd (Address n) = n\<lparr>address := nodeAddressString (ip n) (port n)\<rparr>"
    and "wf_node (snd (Address n))"
  using assms by (auto simp: Address_def wf_node_def Let_def)

lemma addressOf_wf:
  "wf_node (h ! r) \<Longrightarrow> addressOf h r = nodeAddressString (ip (h ! r)) (port (h ! r))"
  by (simp add: addressOf_def fst_Address)

text \<open>Well-formed nodes have equal addresses only for equal IPs and ports.\<close>

lemma addressOf_eqD:
  assumes "wf_node (h ! r)" and "wf_node (h' ! r')" and "addressOf h r = addressOf h' r'"
  shows "To16 (ip (h ! r)) = To16 (ip (h' ! r')) \<and> port (h ! r) = port (h' ! r')"
  using assms nodeAddressString_inj by (auto simp: addressOf_wf wf_node_def)

lemma length_modify [simp]: "length (modify r f h) = length h"
  by (simp add: modify_def)

lemma modify_nth: "r < length h \<Longrightarrow> modify r f h ! q = (if q = r then f (h ! r) else h ! q)"
  by (auto simp: modify_def)

lemma modify_nth_other: "q \<noteq> r \<Longrightarrow> modify r f h ! q = h ! q"
  by (simp add: modify_def)

text \<open>A change that keeps a node's identity keeps its printed address.\<close>

definition same_id :: "Node \<Rightarrow> Node \<Rightarrow> bool" where
  "same_id n n' \<longleftrightarrow> ip n' = ip n \<and> port n' = port n \<and> address n' = address n"

lemma addressOf_modify:
  assumes "\<And>n. same_id n (f n)"
  shows "addressOf (modify r f h) q = addressOf h q"
proof (cases "q = r \<and> r < length h")
  case True
  then have "modify r f h ! q = f (h ! q)" by (simp add: modify_def)
  then show ?thesis using assms [of "h ! q"]
    by (simp add: addressOf_def Address_def same_id_def Let_def)
next
  case False
  then have "modify r f h ! q = h ! q" by (cases "r < length h") (auto simp: modify_def list_update_beyond)
  then show ?thesis by (simp add: addressOf_def)
qed

lemma go_div_nonneg: "0 \<le> a \<Longrightarrow> 0 < b \<Longrightarrow> go_div a b = a div b"
  by (cases "a = 0") (simp_all add: go_div_def)

text \<open>
  The age of a node is the elapsed time modulo $2^{32}$ milliseconds, even when the
  millisecond clock has wrapped around in between.
\<close>

lemma Age_elapsed:
  assumes "0 \<le> t0" and "t0 \<le> t1" and "timestamp n = GetNowInMillis t0"
    and "t1 div 1000000 - t0 div 1000000 < 2 ^ 32"
  shows "uint (Age (GetNowInMillis t1) n) = t1 div 1000000 - t0 div 1000000"
proof -
  have le: "t0 div 1000000 \<le> t1 div 1000000" using assms(2) by (simp add: zdiv_mono1)
  have "Age (GetNowInMillis t1) n = word_of_int (t1 div 1000000 - t0 div 1000000)"
    using assms by (simp add: Age_def GetNowInMillis_def go_div_nonneg)
  then have "uint (Age (GetNowInMillis t1) n) = (t1 div 1000000 - t0 div 1000000) mod 2 ^ 32"
    by (simp only: uint_word_of_int) simp
  then show ?thesis using le assms(4) by simp
qed

end
