(* ===== verification/NodeMap.thy ===== *)
theory NodeMap
  imports Node
begin

text \<open>
  \<open>src/nodeMap.go\<close>: the map from printed addresses to nodes behind \<open>knownNodes\<close> and
  \<open>updatedNodes\<close>. The read-write lock is left out (a call is one atomic step). The
  unspecified order of \<open>range\<close> is the argument \<open>ord\<close> and the results of
  \<open>rand.Intn\<close> are the argument \<open>js\<close>; \<open>values_any_order\<close> shows that the order
  lists give every possible outcome. The locale \<open>node_registry\<close> is the contract the
  registry and the message decoder rely on.
\<close>

section \<open>The operations\<close>

record nodeMap =
  nodes :: "node_ref gomap"

definition nodeMap_init :: nodeMap where
  "nodeMap_init = \<lparr>nodes = []\<rparr>"

definition nodeMap_add :: "heap \<Rightarrow> nodeMap \<Rightarrow> node_ref \<Rightarrow> string \<times> node_ref \<times> nodeMap" where
  "nodeMap_add h m node =
     (let key = addressOf h node in
      (key, node, m\<lparr>nodes := AList.update (addressOf h node) node (nodes m)\<rparr>))"

definition nodeMap_delete :: "heap \<Rightarrow> nodeMap \<Rightarrow> node_ref \<Rightarrow> string \<times> node_ref \<times> nodeMap" where
  "nodeMap_delete h m node =
     (let m' = m\<lparr>nodes := AList.delete (addressOf h node) (nodes m)\<rparr> in
      (addressOf h node, node, m'))"

definition containsByAddress :: "nodeMap \<Rightarrow> string \<Rightarrow> bool" where
  "containsByAddress m a = has_key (nodes m) a"

definition nodeMap_contains :: "heap \<Rightarrow> nodeMap \<Rightarrow> node_ref \<Rightarrow> bool" where
  "nodeMap_contains h m node = containsByAddress m (addressOf h node)"

definition getByAddress :: "nodeMap \<Rightarrow> string \<Rightarrow> node_ref option" where
  "getByAddress m a = map_of (nodes m) a"

definition getByIP :: "int \<Rightarrow> nodeMap \<Rightarrow> IP \<Rightarrow> uint16 \<Rightarrow> node_ref option" where
  "getByIP listenPort m a p =
     (let p = (if p = 0 then word_of_int listenPort else p) in
      getByAddress m (nodeAddressString a p))"

definition nodeMap_length :: "nodeMap \<Rightarrow> nat" where
  "nodeMap_length m = length (nodes m)"

definition lengthWithStatus :: "heap \<Rightarrow> nodeMap \<Rightarrow> NodeStatus \<Rightarrow> nat" where
  "lengthWithStatus h m st =
     fold (\<lambda>(k, v) i. if status (h ! v) = st then i + 1 else i) (nodes m) 0"

definition nodeMap_keys :: "string list \<Rightarrow> nodeMap \<Rightarrow> string list" where
  "nodeMap_keys ord m = map fst (range_entries ord (nodes m))"

definition nodeMap_values :: "string list \<Rightarrow> nodeMap \<Rightarrow> node_ref list" where
  "nodeMap_values ord m = map snd (range_entries ord (nodes m))"

text \<open>The \<open>i\<close>-th result of \<open>rand.Intn(i + 1)\<close>, in \<open>0..i\<close> whatever \<open>js\<close> says.\<close>

definition intn :: "nat list \<Rightarrow> nat \<Rightarrow> nat" where
  "intn js i = (if i < length js then js ! i mod (i + 1) else i)"

definition swap :: "nat \<Rightarrow> nat \<Rightarrow> 'a list \<Rightarrow> 'a list" where
  "swap i j xs = xs[i := xs ! j, j := xs ! i]"

definition shuffle :: "nat list \<Rightarrow> 'a list \<Rightarrow> 'a list" where
  "shuffle js xs = fold (\<lambda>i xs. swap i (intn js i) xs) [0..<length xs] xs"

definition excluded :: "heap \<Rightarrow> node_ref list \<Rightarrow> node_ref \<Rightarrow> bool" where
  "excluded h exclude n \<longleftrightarrow> list_ex (\<lambda>e. addressOf h n = addressOf h e) exclude"

fun select_nodes ::
  "heap \<Rightarrow> int \<Rightarrow> node_ref list \<Rightarrow> node_ref list \<Rightarrow> node_ref list \<Rightarrow> int \<Rightarrow> node_ref list" where
  "select_nodes h sz exclude [] filtered c = filtered"
| "select_nodes h sz exclude (n # ns) filtered c =
     (if excluded h exclude n then select_nodes h sz exclude ns filtered c
      else let filtered = filtered @ [n]; c = c + 1 in
        if c \<ge> sz then filtered else select_nodes h sz exclude ns filtered c)"

definition getRandomNodes ::
  "string list \<Rightarrow> nat list \<Rightarrow> heap \<Rightarrow> nodeMap \<Rightarrow> int \<Rightarrow> node_ref list \<Rightarrow> node_ref list" where
  "getRandomNodes ord js h m sz exclude =
     (let allNodes = nodeMap_values ord m;
          sz = (if sz = 0 then int (length allNodes) else sz);
          allNodes = shuffle js allNodes
      in select_nodes h sz exclude allNodes [] 0)"

section \<open>The contract of a node registry\<close>

locale node_registry =
  fixes addr :: "'h \<Rightarrow> 'r \<Rightarrow> 'k"
    and invar :: "'h \<Rightarrow> 'm \<Rightarrow> bool"
    and empty :: "'m"
    and ins :: "'h \<Rightarrow> 'm \<Rightarrow> 'r \<Rightarrow> 'm"
    and del :: "'h \<Rightarrow> 'm \<Rightarrow> 'r \<Rightarrow> 'm"
    and look :: "'m \<Rightarrow> 'k \<Rightarrow> 'r option"
    and elems :: "'m \<Rightarrow> 'r list"
  assumes invar_empty: "invar h empty"
    and invar_ins: "invar h m \<Longrightarrow> invar h (ins h m r)"
    and invar_del: "invar h m \<Longrightarrow> invar h (del h m r)"
    and look_empty: "look empty k = None"
    and look_ins: "look (ins h m r) k = (if k = addr h r then Some r else look m k)"
    and look_del: "look (del h m r) k = (if k = addr h r then None else look m k)"
    and look_addr: "invar h m \<Longrightarrow> look m k = Some r \<Longrightarrow> addr h r = k"
    and elems_iff: "invar h m \<Longrightarrow> r \<in> set (elems m) \<longleftrightarrow> look m (addr h r) = Some r"
    and elems_distinct: "invar h m \<Longrightarrow> distinct (elems m)"
begin

lemma elems_ins_new:
  assumes "invar h m" and "look m (addr h r) = None"
  shows "set (elems (ins h m r)) = insert r (set (elems m))"
proof -
  have "x \<in> set (elems (ins h m r)) \<longleftrightarrow> x = r \<or> x \<in> set (elems m)" for x
    unfolding elems_iff [OF assms(1)] elems_iff [OF invar_ins [OF assms(1)]] look_ins
    using assms(2) by (cases "addr h x = addr h r") auto
  then show ?thesis by blast
qed

lemma elems_del:
  assumes "invar h m" and "look m (addr h r) = Some r"
  shows "set (elems (del h m r)) = set (elems m) - {r}"
proof -
  have "x \<in> set (elems (del h m r)) \<longleftrightarrow> x \<noteq> r \<and> x \<in> set (elems m)" for x
    unfolding elems_iff [OF assms(1)] elems_iff [OF invar_del [OF assms(1)]] look_del
    using assms(2) by (cases "addr h x = addr h r") auto
  then show ?thesis by blast
qed

lemma length_ins_new:
  assumes "invar h m" and "look m (addr h r) = None"
  shows "length (elems (ins h m r)) = Suc (length (elems m))"
proof -
  have "r \<notin> set (elems m)" using assms by (simp add: elems_iff [OF assms(1)])
  then have "card (set (elems (ins h m r))) = Suc (card (set (elems m)))"
    using assms by (simp add: elems_ins_new)
  then show ?thesis
    using elems_distinct [OF assms(1)] elems_distinct [OF invar_ins [OF assms(1), of r]]
    by (simp add: distinct_card)
qed

lemma length_del:
  assumes "invar h m" and "look m (addr h r) = Some r"
  shows "Suc (length (elems (del h m r))) = length (elems m)"
proof -
  have "r \<in> set (elems m)" using assms by (simp add: elems_iff [OF assms(1)])
  then have "Suc (card (set (elems (del h m r)))) = card (set (elems m))"
    unfolding elems_del [OF assms] by (intro card_Suc_Diff1) simp_all
  then show ?thesis
    using elems_distinct [OF assms(1)] elems_distinct [OF invar_del [OF assms(1), of r]]
    by (simp add: distinct_card)
qed

lemma same_address_same_node:
  assumes "invar h m" and "r \<in> set (elems m)" and "q \<in> set (elems m)" and "addr h r = addr h q"
  shows "r = q"
  using assms by (simp add: elems_iff [OF assms(1)])

lemma del_ins:
  assumes "look m (addr h r) = None"
  shows "look (del h (ins h m r) r) k = look m k"
  using assms by (simp add: look_del look_ins)

end

section \<open>The node map meets the contract\<close>

definition keys_ok :: "heap \<Rightarrow> nodeMap \<Rightarrow> bool" where
  "keys_ok h m \<longleftrightarrow> wf_map (nodes m) \<and> (\<forall>(k, r) \<in> set (nodes m). addressOf h r = k)"

definition ins_node :: "heap \<Rightarrow> nodeMap \<Rightarrow> node_ref \<Rightarrow> nodeMap" where
  "ins_node h m r = snd (snd (nodeMap_add h m r))"

definition del_node :: "heap \<Rightarrow> nodeMap \<Rightarrow> node_ref \<Rightarrow> nodeMap" where
  "del_node h m r = snd (snd (nodeMap_delete h m r))"

lemma nodes_ins [simp]: "nodes (ins_node h m r) = AList.update (addressOf h r) r (nodes m)"
  by (simp add: ins_node_def nodeMap_add_def Let_def)

lemma nodes_del [simp]: "nodes (del_node h m r) = AList.delete (addressOf h r) (nodes m)"
  by (simp add: del_node_def nodeMap_delete_def Let_def)

lemma keys_okD: "keys_ok h m \<Longrightarrow> map_of (nodes m) k = Some r \<Longrightarrow> addressOf h r = k"
  by (auto simp: keys_ok_def dest!: map_of_SomeD)

lemma keys_ok_wf: "keys_ok h m \<Longrightarrow> wf_map (nodes m)"
  by (simp add: keys_ok_def)

lemma keys_ok_snd_inj:
  assumes "keys_ok h m" shows "inj_on snd (set (nodes m))"
proof (rule inj_onI)
  fix x y assume xy: "x \<in> set (nodes m)" "y \<in> set (nodes m)" "snd x = snd y"
  then have "fst x = addressOf h (snd x)" "fst y = addressOf h (snd y)"
    using assms by (auto simp: keys_ok_def)
  then show "x = y" using xy(3) by (simp add: prod_eq_iff)
qed

lemma set_values: "keys_ok h m \<Longrightarrow> set (nodeMap_values ord m) = snd ` set (nodes m)"
  by (simp add: nodeMap_values_def set_range_entries keys_ok_wf)

lemma values_iff:
  assumes "keys_ok h m"
  shows "r \<in> set (nodeMap_values ord m) \<longleftrightarrow> getByAddress m (addressOf h r) = Some r"
  using assms unfolding set_values [OF assms] getByAddress_def wf_map_of_iff [OF keys_ok_wf [OF assms]]
  by (force simp: keys_ok_def)

lemma distinct_values:
  assumes "keys_ok h m" shows "distinct (nodeMap_values ord m)"
proof -
  have "distinct (range_entries ord (nodes m))"
    using wf_range_entries [OF keys_ok_wf [OF assms], of ord] by (simp add: wf_map_def distinct_map)
  then show ?thesis
    using keys_ok_snd_inj [OF assms] keys_ok_wf [OF assms]
    by (simp add: nodeMap_values_def distinct_map set_range_entries)
qed

interpretation reg: node_registry addressOf keys_ok nodeMap_init ins_node del_node getByAddress
  "nodeMap_values ord" for ord
proof unfold_locales
  fix h m r k
  show "keys_ok h nodeMap_init" by (simp add: keys_ok_def nodeMap_init_def)
  show "keys_ok h m \<Longrightarrow> keys_ok h (ins_node h m r)"
    by (auto simp: keys_ok_def set_update_wf split: if_splits)
  show "keys_ok h m \<Longrightarrow> keys_ok h (del_node h m r)"
    by (auto simp: keys_ok_def set_delete_iff)
  show "getByAddress nodeMap_init k = None" by (simp add: getByAddress_def nodeMap_init_def)
  show "getByAddress (ins_node h m r) k = (if k = addressOf h r then Some r else getByAddress m k)"
    by (simp add: getByAddress_def map_of_update)
  show "getByAddress (del_node h m r) k = (if k = addressOf h r then None else getByAddress m k)"
    by (simp add: getByAddress_def map_of_delete)
  show "keys_ok h m \<Longrightarrow> getByAddress m k = Some r \<Longrightarrow> addressOf h r = k"
    by (simp add: getByAddress_def keys_okD)
  show "keys_ok h m \<Longrightarrow>
      r \<in> set (nodeMap_values ord m) \<longleftrightarrow> getByAddress m (addressOf h r) = Some r"
    by (rule values_iff)
  show "keys_ok h m \<Longrightarrow> distinct (nodeMap_values ord m)" by (rule distinct_values)
qed

section \<open>Selection\<close>

lemma mset_swap_list: "i < length xs \<Longrightarrow> j < length xs \<Longrightarrow> mset (swap i j xs) = mset xs"
  unfolding swap_def by (rule mset_swap)

lemma intn_le: "intn js i \<le> i"
  by (simp add: intn_def mod_Suc_le_divisor)

lemma shuffle_loop:
  assumes "\<forall>i \<in> set is. i < length xs"
  shows "mset (fold (\<lambda>i xs. swap i (intn js i) xs) is xs) = mset xs"
  using assms
proof (induction "is" arbitrary: xs)
  case (Cons i "is")
  have "mset (swap i (intn js i) xs) = mset xs"
    using Cons.prems intn_le [of js i] by (intro mset_swap_list) auto
  moreover have "length (swap i (intn js i) xs) = length xs" by (simp add: swap_def)
  ultimately show ?case using Cons.IH [of "swap i (intn js i) xs"] Cons.prems by simp
qed simp

lemma mset_shuffle [simp]: "mset (shuffle js xs) = mset xs"
  unfolding shuffle_def by (rule shuffle_loop) simp

lemma set_shuffle [simp]: "set (shuffle js xs) = set xs"
  by (rule mset_eq_setD) simp

lemma length_shuffle [simp]: "length (shuffle js xs) = length xs"
  by (rule mset_eq_length) simp

lemma distinct_shuffle [simp]: "distinct (shuffle js xs) = distinct xs"
  by (rule mset_eq_imp_distinct_iff) simp

lemma swap_same [simp]: "swap i i xs = xs"
  by (simp add: swap_def)

lemma shuffle_none [simp]: "shuffle [] xs = xs"
proof -
  have "fold (\<lambda>i xs. swap i (intn [] i) xs) is xs = xs" for "is" and xs :: "'a list"
    by (induction "is") (simp_all add: intn_def)
  then show ?thesis by (simp add: shuffle_def)
qed

text \<open>The selection loop keeps the first eligible nodes, at least one whatever the size.\<close>

lemma select_nodes_eq:
  "select_nodes h sz ex ns filtered c =
     filtered @ take (if sz \<le> c then 1 else nat (sz - c)) (filter (\<lambda>n. \<not> excluded h ex n) ns)"
proof (induction ns arbitrary: filtered c)
  case Nil
  then show ?case by simp
next
  case (Cons n ns)
  show ?case
  proof (cases "excluded h ex n")
    case True
    then show ?thesis by (simp add: Cons.IH)
  next
    case False
    show ?thesis
    proof (cases "sz \<le> c + 1")
      case True
      then have "(if sz \<le> c then 1 else nat (sz - c)) = Suc 0" by auto
      with True False show ?thesis by simp
    next
      case far: False
      then have "nat (sz - c) = Suc (nat (sz - (c + 1)))" by arith
      with far False show ?thesis by (simp add: Cons.IH Let_def)
    qed
  qed
qed

definition eligible :: "heap \<Rightarrow> nodeMap \<Rightarrow> node_ref list \<Rightarrow> node_ref set" where
  "eligible h m ex = {r \<in> snd ` set (nodes m). \<not> excluded h ex r}"

definition wanted :: "nodeMap \<Rightarrow> int \<Rightarrow> nat" where
  "wanted m sz = (if sz = 0 then nodeMap_length m else if sz < 0 then 1 else nat sz)"

lemma length_values [simp]: "keys_ok h m \<Longrightarrow> length (nodeMap_values ord m) = nodeMap_length m"
  by (simp add: nodeMap_values_def nodeMap_length_def keys_ok_wf)

lemma getRandomNodes_eq:
  assumes "keys_ok h m"
  shows "getRandomNodes ord js h m sz ex =
    take (wanted m sz) (filter (\<lambda>n. \<not> excluded h ex n) (shuffle js (nodeMap_values ord m)))"
proof (cases "nodeMap_length m = 0")
  case True
  then have "nodeMap_values ord m = []" using length_values [OF assms, of ord] by simp
  then show ?thesis by (simp add: getRandomNodes_def shuffle_def)
next
  case False
  then show ?thesis using assms
    by (auto simp: getRandomNodes_def select_nodes_eq wanted_def Let_def)
qed

lemma eligible_filter:
  assumes "keys_ok h m"
  shows "set (filter (\<lambda>n. \<not> excluded h ex n) (shuffle js (nodeMap_values ord m))) = eligible h m ex"
    and "distinct (filter (\<lambda>n. \<not> excluded h ex n) (shuffle js (nodeMap_values ord m)))"
  using assms by (auto simp: eligible_def set_values distinct_values)

lemma lengthWithStatus_eq:
  "lengthWithStatus h m st = length (filter (\<lambda>(k, v). status (h ! v) = st) (nodes m))"
proof -
  have "fold (\<lambda>(k, v) i. if status (h ! v) = st then i + 1 else i) xs i =
      i + length (filter (\<lambda>(k, v). status (h ! v) = st) xs)" for xs :: "node_ref gomap" and i :: nat
    by (induction xs arbitrary: i) auto
  then show ?thesis by (simp add: lengthWithStatus_def)
qed

lemma values_any_order:
  assumes "keys_ok h m" and "mset p = mset (map snd (nodes m))"
  shows "\<exists>ord. nodeMap_values ord m = p"
proof -
  let ?f = "\<lambda>r. (addressOf h r, r)" and ?q = "map (\<lambda>r. (addressOf h r, r)) p"
  have "map ?f (map snd (nodes m)) = nodes m"
    using assms(1) by (auto simp: keys_ok_def intro!: map_idI)
  moreover have "mset ?q = mset (map ?f (map snd (nodes m)))" by (simp only: mset_map assms(2))
  ultimately have q: "mset ?q = mset (nodes m)" "map snd ?q = p" by (simp_all add: comp_def)
  then have "range_entries (map fst ?q) (nodes m) = ?q"
    using assms(1) by (intro range_entries_any_order) (simp_all add: keys_ok_wf)
  then have "nodeMap_values (map fst ?q) m = p" using q(2) by (simp only: nodeMap_values_def)
  then show ?thesis ..
qed

section \<open>A finite map\<close>

lemma dom_lookup: "keys_ok h m \<Longrightarrow> dom (getByAddress m) = fst ` set (nodes m)"
  by (simp add: getByAddress_def [abs_def] dom_map_of_conv_image_fst)

lemma values_ran: "keys_ok h m \<Longrightarrow> set (nodeMap_values ord m) = ran (getByAddress m)"
  using values_iff [of h m _ ord] reg.look_addr [of h m] by (fastforce simp: ran_def)

lemma length_dom:
  assumes "keys_ok h m" shows "nodeMap_length m = card (dom (getByAddress m))"
proof -
  have "distinct (map fst (nodes m))" using keys_ok_wf [OF assms] by (simp add: wf_map_def)
  then have "card (fst ` set (nodes m)) = length (map fst (nodes m))" by (metis distinct_card set_map)
  then show ?thesis by (simp add: nodeMap_length_def dom_lookup [OF assms])
qed

lemma count_status:
  assumes "keys_ok h m" shows "lengthWithStatus h m st = card {r \<in> ran (getByAddress m). status (h ! r) = st}"
proof -
  have "distinct (nodes m)" using keys_ok_wf [OF assms] by (simp add: wf_map_def distinct_map)
  then have d: "distinct (map snd (nodes m))" using keys_ok_snd_inj [OF assms] by (simp add: distinct_map)
  have "lengthWithStatus h m st = length (filter (\<lambda>r. status (h ! r) = st) (map snd (nodes m)))"
    by (simp add: lengthWithStatus_eq filter_map comp_def case_prod_beta')
  also have "\<dots> = card (set (filter (\<lambda>r. status (h ! r) = st) (map snd (nodes m))))"
    using d by (metis distinct_card distinct_filter)
  also have "set (filter (\<lambda>r. status (h ! r) = st) (map snd (nodes m))) = {r \<in> ran (getByAddress m). status (h ! r) = st}"
    using values_ran [OF assms, of "[]"] set_values [OF assms, of "[]"] by auto
  finally show ?thesis .
qed

text \<open>
  C25. The node map refines a finite map from addresses to nodes. With \<open>getByAddress\<close> as
  the abstraction, adding a node is a map update at its address, deleting one is a removal, membership
  is membership in the domain, the length is the size of the domain, the keys are the domain and the values, in whatever order,
  are the range without repetition; both updates keep every node filed under its own address.
\<close>

theorem nodeMap_refines_map:
  assumes "keys_ok h m"
  shows "(\<exists>m'. nodeMap_add h m r = (addressOf h r, r, m') \<and> keys_ok h m' \<and>
        getByAddress m' = (getByAddress m)(addressOf h r \<mapsto> r)) \<and>
    (\<exists>m'. nodeMap_delete h m r = (addressOf h r, r, m') \<and> keys_ok h m' \<and>
        getByAddress m' = (getByAddress m)(addressOf h r := None)) \<and>
    (nodeMap_contains h m r \<longleftrightarrow> addressOf h r \<in> dom (getByAddress m)) \<and>
    nodeMap_length m = card (dom (getByAddress m)) \<and> set (nodeMap_keys ord m) = dom (getByAddress m) \<and>
    set (nodeMap_values ord m) = ran (getByAddress m) \<and> distinct (nodeMap_values ord m) \<and>
    lengthWithStatus h m st = card {r \<in> ran (getByAddress m). status (h ! r) = st}"
proof (intro conjI)
  have add: "nodeMap_add h m r = (addressOf h r, r, ins_node h m r)" and del: "nodeMap_delete h m r = (addressOf h r, r, del_node h m r)"
    by (simp_all add: ins_node_def del_node_def nodeMap_add_def nodeMap_delete_def Let_def)
  show "\<exists>m'. nodeMap_add h m r = (addressOf h r, r, m') \<and> keys_ok h m' \<and> getByAddress m' = (getByAddress m)(addressOf h r \<mapsto> r)"
    using add reg.invar_ins [OF assms, of r] reg.look_ins [of h m r] by auto
  show "\<exists>m'. nodeMap_delete h m r = (addressOf h r, r, m') \<and> keys_ok h m' \<and> getByAddress m' = (getByAddress m)(addressOf h r := None)"
    using del reg.invar_del [OF assms, of r] reg.look_del [of h m r] by auto
  show "nodeMap_contains h m r \<longleftrightarrow> addressOf h r \<in> dom (getByAddress m)"
    by (auto simp: nodeMap_contains_def containsByAddress_def getByAddress_def has_key_iff)
  show "set (nodeMap_keys ord m) = dom (getByAddress m)"
    using keys_ok_wf [OF assms] by (simp add: nodeMap_keys_def set_range_entries dom_lookup [OF assms])
qed (simp_all add: length_dom [OF assms] values_ran [OF assms] distinct_values [OF assms] count_status [OF assms])

definition named :: "string \<Rightarrow> Node" where
  "named a = \<lparr>ip = [], port = 0, timestamp = 0, address = a, pingMillis = PingNoData, status = StatusAlive, emitCounter = 0,
     heartbeat = 0, statusSource = None\<rparr>"

theorem nodeMap_refines_map_witness:
  "\<exists>m'. nodeMap_add [named ''a:1'', named ''b:1''] \<lparr>nodes = [(''a:1'', 0)]\<rparr> 1 = (''b:1'', 1, m') \<and>
    getByAddress m' ''a:1'' = Some 0 \<and> getByAddress m' ''b:1'' = Some 1 \<and>
    lengthWithStatus [named ''a:1'', named ''b:1''] \<lparr>nodes = [(''a:1'', 0)]\<rparr> StatusAlive = 1"
proof -
  let ?h = "[named ''a:1'', named ''b:1'']" and ?m = "\<lparr>nodes = [(''a:1'', 0)]\<rparr>"
  have a: "addressOf ?h 0 = ''a:1''" "addressOf ?h 1 = ''b:1''" by (simp_all add: addressOf_def Address_def named_def)
  then have "keys_ok ?h ?m" by (simp add: keys_ok_def wf_map_def)
  note r = nodeMap_refines_map [OF this, of 1 "[]" StatusAlive]
  have look: "getByAddress ?m = [''a:1'' \<mapsto> 0]" by (auto simp: getByAddress_def)
  then have one: "{r \<in> ran (getByAddress ?m). status (?h ! r) = StatusAlive} = {0}" by (auto simp: named_def)
  have len: "lengthWithStatus ?h ?m StatusAlive = card {0 :: node_ref}" using r unfolding one by (elim conjE)
  obtain m' where m': "nodeMap_add ?h ?m 1 = (''b:1'', 1, m')" "getByAddress m' = [''a:1'' \<mapsto> 0, ''b:1'' \<mapsto> 1]"
    using r unfolding look a(2) by blast
  have "getByAddress m' ''a:1'' = Some 0" "getByAddress m' ''b:1'' = Some 1" unfolding m'(2) by simp_all
  then show ?thesis using m'(1) len by simp
qed

end
