(* ===== verification/PingData.thy ===== *)
theory PingData
  imports Complex_Main Prelude
begin

text \<open>
  \<open>src/pingData.go\<close>: a ring buffer of ping times with a cached mean and standard
  deviation. Float arithmetic is exact real arithmetic here; the rounding of \<open>float64\<close> is
  not modelled. The abstraction \<open>history\<close> (oldest datapoint first) turns the ring buffer
  into a sliding window, and the invariant \<open>pd_ok\<close> says that the cache is never stale.
\<close>

section \<open>The operations\<close>

record pingData =
  pings :: "uint32 list"
  pointer :: nat
  lastMean :: real
  lastStddev :: real
  updated :: bool

definition newPingData :: "int \<Rightarrow> nat \<Rightarrow> pingData" where
  "newPingData initialAverage historyCount =
     \<lparr>pings = map (\<lambda>i. word_of_int initialAverage) [0..<historyCount],
      pointer = 0, lastMean = 0, lastStddev = 0, updated = True\<rparr>"

definition pingData_add :: "pingData \<Rightarrow> uint32 \<Rightarrow> pingData outcome" where
  "pingData_add pd datapoint =
     bindR (setIdx (pings pd) (pointer pd) datapoint) (\<lambda>ps.
       Inr (pd\<lparr>pings := ps, pointer := (pointer pd + 1) mod length ps, updated := True\<rparr>))"

definition pingData_data :: "pingData \<Rightarrow> real \<times> real \<times> pingData" where
  "pingData_data pd =
     (let pd' =
       (if updated pd then
          let accumulator = foldl (\<lambda>acc d. acc + real (unat d)) 0 (pings pd);
              mean = accumulator / real (length (pings pd));
              accumulator = foldl (\<lambda>acc d. acc + (mean - real (unat d)) ^ 2) 0 (pings pd);
              squareDiffMean = accumulator / real (length (pings pd))
          in pd\<lparr>lastMean := mean, lastStddev := sqrt squareDiffMean, updated := False\<rparr>
        else pd)
      in (lastMean pd', lastStddev pd', pd'))"

definition pingData_mean :: "pingData \<Rightarrow> real \<times> pingData" where
  "pingData_mean pd = (let (_, _, pd') = pingData_data pd in (lastMean pd', pd'))"

definition pingData_stddev :: "pingData \<Rightarrow> real \<times> pingData" where
  "pingData_stddev pd = (let (_, _, pd') = pingData_data pd in (lastStddev pd', pd'))"

definition nSigma :: "real \<Rightarrow> pingData \<Rightarrow> real \<times> pingData" where
  "nSigma sigmas pd = (let (mean, stddev, pd') = pingData_data pd in (mean + sigmas * stddev, pd'))"

section \<open>Reference statistics\<close>

definition mean_of :: "uint32 list \<Rightarrow> real" where
  "mean_of ps = (\<Sum>d\<leftarrow>ps. real (unat d)) / real (length ps)"

definition stddev_of :: "uint32 list \<Rightarrow> real" where
  "stddev_of ps = sqrt ((\<Sum>d\<leftarrow>ps. (mean_of ps - real (unat d)) ^ 2) / real (length ps))"

definition pd_ok :: "pingData \<Rightarrow> bool" where
  "pd_ok pd \<longleftrightarrow> pings pd \<noteq> [] \<and> pointer pd < length (pings pd) \<and>
     (\<not> updated pd \<longrightarrow> lastMean pd = mean_of (pings pd) \<and> lastStddev pd = stddev_of (pings pd))"

definition history :: "pingData \<Rightarrow> uint32 list" where
  "history pd = drop (pointer pd) (pings pd) @ take (pointer pd) (pings pd)"

fun add_all :: "uint32 list \<Rightarrow> pingData \<Rightarrow> pingData outcome" where
  "add_all [] pd = Inr pd"
| "add_all (d # ds) pd = bindR (pingData_add pd d) (add_all ds)"

section \<open>Lemmas\<close>

lemma foldl_plus: "foldl (\<lambda>acc d. acc + f d) a ds = a + (\<Sum>d\<leftarrow>ds. (f d :: real))"
  by (induction ds arbitrary: a) simp_all

lemma pingData_data_eq:
  assumes "pd_ok pd"
  shows "pingData_data pd = (mean_of (pings pd), stddev_of (pings pd),
    pd\<lparr>lastMean := mean_of (pings pd), lastStddev := stddev_of (pings pd), updated := False\<rparr>)"
  using assms
  by (auto simp: pingData_data_def pd_ok_def Let_def foldl_plus mean_of_def stddev_of_def)

lemma pd_ok_data: "pd_ok pd \<Longrightarrow> pd_ok (snd (snd (pingData_data pd)))"
  by (simp add: pingData_data_eq pd_ok_def)

lemma pingData_add_total:
  assumes "pd_ok pd"
  shows "\<exists>pd'. pingData_add pd d = Inr pd' \<and> pd_ok pd' \<and> length (pings pd') = length (pings pd)"
  using assms by (simp add: pingData_add_def setIdx_def pd_ok_def)

lemma pd_ok_add: "pd_ok pd \<Longrightarrow> pingData_add pd d = Inr pd' \<Longrightarrow> pd_ok pd'"
  using pingData_add_total [of pd d] by auto

lemma pd_ok_new: "0 < n \<Longrightarrow> pd_ok (newPingData a n)"
  by (simp add: newPingData_def pd_ok_def)

text \<open>Adding a datapoint drops the oldest one and appends the new one.\<close>

lemma history_add:
  assumes "pd_ok pd" and "pingData_add pd d = Inr pd'"
  shows "history pd' = tl (history pd) @ [d]"
proof -
  let ?i = "pointer pd" and ?ps = "pings pd"
  have i: "?i < length ?ps" using assms(1) by (simp add: pd_ok_def)
  have pd': "pings pd' = ?ps[?i := d]" "pointer pd' = (?i + 1) mod length ?ps"
    using assms(2) i by (auto simp: pingData_add_def setIdx_def)
  have tl: "tl (history pd) = drop (Suc ?i) ?ps @ take ?i ?ps"
    using i by (simp add: history_def Cons_nth_drop_Suc [symmetric])
  show ?thesis
  proof (cases "Suc ?i = length ?ps")
    case True
    then have "pointer pd' = 0" using pd'(2) by simp
    then show ?thesis using True tl pd'(1) i
      by (simp add: history_def upd_conv_take_nth_drop)
  next
    case False
    then have "pointer pd' = Suc ?i" using pd'(2) i by simp
    then show ?thesis using tl pd'(1) i
      by (simp add: history_def take_Suc_conv_app_nth)
  qed
qed

lemma length_history [simp]: "pd_ok pd \<Longrightarrow> length (history pd) = length (pings pd)"
  by (simp add: history_def pd_ok_def)

lemma mset_history: "mset (history pd) = mset (pings pd)"
  by (metis history_def append_take_drop_id mset_append union_commute)

text \<open>After any run of additions the buffer holds the most recent datapoints.\<close>

lemma add_all_window:
  assumes "pd_ok pd"
  shows "\<exists>pd'. add_all ds pd = Inr pd' \<and> pd_ok pd' \<and> length (pings pd') = length (pings pd) \<and>
    history pd' = drop (length ds) (history pd @ ds)"
  using assms
proof (induction ds arbitrary: pd)
  case (Cons d ds)
  obtain q where q: "pingData_add pd d = Inr q" "pd_ok q" "length (pings q) = length (pings pd)"
    using pingData_add_total [OF Cons.prems] by blast
  obtain pd' where pd': "add_all ds q = Inr pd'" "pd_ok pd'" "length (pings pd') = length (pings q)"
      "history pd' = drop (length ds) (history q @ ds)"
    using Cons.IH [OF q(2)] by blast
  have "history pd \<noteq> []" using Cons.prems by (auto simp: pd_ok_def history_def)
  then have "history q @ ds = tl (history pd @ d # ds)"
    using history_add [OF Cons.prems q(1)] by simp
  then have "history pd' = drop (length (d # ds)) (history pd @ d # ds)"
    using pd'(4) by (simp only: list.size drop_Suc add_Suc_right add_0_right)
  then show ?case using q pd'(1-3) by simp
qed simp

subsection \<open>Bounds\<close>

lemma stddev_nonneg: "0 \<le> stddev_of ps"
  unfolding stddev_of_def
  by (intro real_sqrt_ge_zero divide_nonneg_nonneg sum_list_nonneg) auto

lemma mean_ge:
  assumes "ps \<noteq> []" and "\<forall>d \<in> set ps. lo \<le> real (unat d)"
  shows "lo \<le> mean_of ps"
proof -
  have "(\<Sum>d\<leftarrow>ps. lo) \<le> (\<Sum>d\<leftarrow>ps. real (unat d))"
    using assms(2) by (intro sum_list_mono) auto
  then have "real (length ps) * lo \<le> (\<Sum>d\<leftarrow>ps. real (unat d))" by (simp add: sum_list_triv)
  then show ?thesis using assms(1) by (simp add: mean_of_def field_simps)
qed

lemma mean_le:
  assumes "ps \<noteq> []" and "\<forall>d \<in> set ps. real (unat d) \<le> hi"
  shows "mean_of ps \<le> hi"
proof -
  have "(\<Sum>d\<leftarrow>ps. real (unat d)) \<le> (\<Sum>d\<leftarrow>ps. hi)"
    using assms(2) by (intro sum_list_mono) auto
  then have "(\<Sum>d\<leftarrow>ps. real (unat d)) \<le> real (length ps) * hi" by (simp add: sum_list_triv)
  then show ?thesis using assms(1) by (simp add: mean_of_def field_simps)
qed

lemma stddev_le:
  assumes "ps \<noteq> []" and "\<forall>d \<in> set ps. lo \<le> real (unat d) \<and> real (unat d) \<le> hi"
  shows "stddev_of ps \<le> hi - lo"
proof -
  have m: "lo \<le> mean_of ps" "mean_of ps \<le> hi" using assms by (auto intro: mean_ge mean_le)
  have "(mean_of ps - real (unat d)) ^ 2 \<le> (hi - lo) ^ 2" if "d \<in> set ps" for d
    using assms(2) m that by (intro abs_le_square_iff [THEN iffD1]) fastforce
  then have "(\<Sum>d\<leftarrow>ps. (mean_of ps - real (unat d)) ^ 2) \<le> (\<Sum>d\<leftarrow>ps. (hi - lo) ^ 2)"
    by (intro sum_list_mono) auto
  then have "(\<Sum>d\<leftarrow>ps. (mean_of ps - real (unat d)) ^ 2) / real (length ps) \<le> (hi - lo) ^ 2"
    using assms(1) by (simp add: sum_list_triv field_simps)
  then have "stddev_of ps \<le> sqrt ((hi - lo) ^ 2)" unfolding stddev_of_def by (rule real_sqrt_le_mono)
  moreover have "lo \<le> hi" using m by simp
  ultimately show ?thesis by simp
qed

lemma nSigma_eq:
  "pd_ok pd \<Longrightarrow> fst (nSigma k pd) = mean_of (pings pd) + k * stddev_of (pings pd)"
  by (simp add: nSigma_def pingData_data_eq)

section \<open>A sliding window\<close>

lemma history_stats: "mean_of (history pd) = mean_of (pings pd)" "stddev_of (history pd) = stddev_of (pings pd)"
proof -
  have sums: "(\<Sum>d\<leftarrow>history pd. (f d :: real)) = (\<Sum>d\<leftarrow>pings pd. f d)" for f
    by (simp only: sum_mset_sum_list [symmetric] mset_map mset_history)
  have len: "length (history pd) = length (pings pd)" using mset_history by (rule mset_eq_length)
  show m: "mean_of (history pd) = mean_of (pings pd)" by (simp add: mean_of_def sums len)
  show "stddev_of (history pd) = stddev_of (pings pd)" by (simp add: stddev_of_def m sums len)
qed

text \<open>
  C26. The ring buffer refines a sliding window. After any run of datapoints a history of $n$
  entries that started with the initial average holds the last $n$ of the initial ones followed by the datapoints, in order;
  no addition panics; the mean, the standard deviation and their combination read from it are those of that window, cached or not.
\<close>

theorem ping_window:
  assumes "0 < n"
  shows "\<exists>pd. add_all ds (newPingData a n) = Inr pd \<and> pd_ok pd \<and>
    history pd = drop (length ds) (replicate n (word_of_int a) @ ds) \<and>
    fst (pingData_mean pd) = mean_of (history pd) \<and> fst (pingData_stddev pd) = stddev_of (history pd) \<and>
    fst (nSigma k pd) = mean_of (history pd) + k * stddev_of (history pd) \<and>
    pingData_data (snd (snd (pingData_data pd))) = pingData_data pd"
proof -
  have "history (newPingData a n) = replicate n (word_of_int a)"
    by (simp add: history_def newPingData_def map_replicate_const)
  then obtain pd where pd: "add_all ds (newPingData a n) = Inr pd" "pd_ok pd"
      "history pd = drop (length ds) (replicate n (word_of_int a) @ ds)"
    using add_all_window [OF pd_ok_new [OF assms], of ds a] by auto
  have "pingData_data (snd (snd (pingData_data pd))) = pingData_data pd"
    using pingData_data_eq [OF pd_ok_data [OF pd(2)]] by (simp add: pingData_data_eq [OF pd(2)])
  then show ?thesis using pd
    by (auto simp: pingData_mean_def pingData_stddev_def nSigma_eq pingData_data_eq [OF pd(2)] history_stats)
qed

theorem ping_window_witness:
  "\<exists>pd. add_all [1, 2, 3] (newPingData 200 2) = Inr pd \<and> history pd = [2, 3]"
  using ping_window [of 2 "[1, 2, 3]" 200] by (auto simp: numeral_2_eq_2)

end
