(* ===== verification/NetParse.thy ===== *)
theory NetParse
  imports NetIP
begin

text \<open>
  What the program uses of Go's text parsers: \<open>strconv.Atoi\<close>, \<open>strconv.ParseUint\<close>,
  \<open>net.ParseIP\<close> and \<open>net.SplitHostPort\<close>, as in the Go 1.13 library the module asks
  for (a decimal octet may have leading zeros). Strings are byte strings.
\<close>

section \<open>Numbers\<close>

definition is_digit :: "char \<Rightarrow> bool" where
  "is_digit c \<longleftrightarrow> 48 \<le> (of_char c :: nat) \<and> (of_char c :: nat) \<le> 57"

definition digits_value :: "string \<Rightarrow> nat" where
  "digits_value s = foldl (\<lambda>n c. 10 * n + (of_char c - 48)) 0 s"

text \<open>\<open>Atoi\<close>: an optional sign, then decimal digits, within 64 bits.\<close>

definition Atoi :: "string \<Rightarrow> int option" where
  "Atoi s =
     (let neg = (s \<noteq> [] \<and> hd s = CHR ''-'');
          ds = (if s \<noteq> [] \<and> (hd s = CHR ''-'' \<or> hd s = CHR ''+'') then tl s else s);
          v = (if neg then - int (digits_value ds) else int (digits_value ds))
      in if ds \<noteq> [] \<and> list_all is_digit ds \<and> - (2 ^ 63) \<le> v \<and> v < 2 ^ 63 then Some v else None)"

text \<open>
  \<open>ParseUint(s, 10, 16)\<close>: the value and whether it is an error; out of range, the value is
  the largest one.
\<close>

definition ParseUint16 :: "string \<Rightarrow> uint16 \<times> bool" where
  "ParseUint16 s =
     (if s = [] \<or> \<not> list_all is_digit s then (0, True)
      else if digits_value s \<ge> 2 ^ 16 then (word_of_nat (2 ^ 16 - 1), True)
      else (word_of_nat (digits_value s), False))"

section \<open>IP addresses\<close>

text \<open>\<open>dtoi\<close> and \<open>xtoi\<close>: the number in front of a string and the rest of the string.\<close>

definition dtoi :: "string \<Rightarrow> (nat \<times> string) option" where
  "dtoi s =
     (let ds = takeWhile is_digit s in
      if ds = [] \<or> digits_value ds \<ge> 0xFFFFFF then None
      else Some (digits_value ds, dropWhile is_digit s))"

definition hex_value :: "char \<Rightarrow> nat option" where
  "hex_value c =
     (let n = (of_char c :: nat) in
      if 48 \<le> n \<and> n \<le> 57 then Some (n - 48)
      else if 97 \<le> n \<and> n \<le> 102 then Some (n - 87)
      else if 65 \<le> n \<and> n \<le> 70 then Some (n - 55)
      else None)"

definition is_hex :: "char \<Rightarrow> bool" where
  "is_hex c \<longleftrightarrow> hex_value c \<noteq> None"

definition hexes_value :: "string \<Rightarrow> nat" where
  "hexes_value s = foldl (\<lambda>n c. 16 * n + the (hex_value c)) 0 s"

definition xtoi :: "string \<Rightarrow> (nat \<times> string) option" where
  "xtoi s =
     (let ds = takeWhile is_hex s in
      if ds = [] \<or> hexes_value ds \<ge> 0xFFFFFF then None
      else Some (hexes_value ds, dropWhile is_hex s))"

fun parse_octets :: "nat \<Rightarrow> bool \<Rightarrow> string \<Rightarrow> (byte list \<times> string) option" where
  "parse_octets 0 first s = Some ([], s)"
| "parse_octets (Suc k) first s =
     (if s = [] \<or> (\<not> first \<and> hd s \<noteq> CHR ''.'') then None
      else case dtoi (if first then s else tl s) of
        None \<Rightarrow> None
      | Some (n, rest) \<Rightarrow>
          if n > 0xFF then None
          else map_option (\<lambda>(bs, t). (word_of_nat n # bs, t)) (parse_octets k False rest))"

definition parseIPv4 :: "string \<Rightarrow> IP" where
  "parseIPv4 s =
     (case parse_octets 4 True s of
        Some ([a, b, c, d], []) \<Rightarrow> IPv4 a b c d
      | _ \<Rightarrow> [])"

text \<open>
  The loop of \<open>parseIPv6\<close>: the bytes read so far, the position of the ellipsis and the
  rest of the string; every round reads two or four bytes, so eight rounds are enough.
\<close>

fun parse_groups ::
  "nat \<Rightarrow> byte list \<Rightarrow> nat option \<Rightarrow> string \<Rightarrow> (byte list \<times> nat option \<times> string) option" where
  "parse_groups 0 acc ell s = Some (acc, ell, s)"
| "parse_groups (Suc fuel) acc ell s =
     (if length acc \<ge> IPv6len then Some (acc, ell, s)
      else case xtoi s of
        None \<Rightarrow> None
      | Some (n, t) \<Rightarrow>
          if n > 0xFFFF then None
          else if t \<noteq> [] \<and> hd t = CHR ''.'' then
            (if ell = None \<and> length acc \<noteq> IPv6len - IPv4len then None
             else if length acc + IPv4len > IPv6len then None
             else case parseIPv4 s of
                 [] \<Rightarrow> None
               | ip4 \<Rightarrow> Some (acc @ drop 12 ip4, ell, []))
          else
            let acc = acc @ [word_of_nat (n div 256), word_of_nat n] in
            if t = [] then Some (acc, ell, [])
            else if hd t \<noteq> CHR '':'' \<or> tl t = [] then None
            else let t = tl t in
              if hd t = CHR '':'' then
                (if ell \<noteq> None then None
                 else if tl t = [] then Some (acc, Some (length acc), [])
                 else parse_groups fuel acc (Some (length acc)) (tl t))
              else parse_groups fuel acc ell t)"

definition expand_ellipsis :: "byte list \<Rightarrow> nat option \<Rightarrow> IP" where
  "expand_ellipsis acc ell =
     (if length acc < IPv6len then
        (case ell of None \<Rightarrow> []
         | Some e \<Rightarrow> take e acc @ replicate (IPv6len - length acc) 0 @ drop e acc)
      else if ell \<noteq> None then [] else acc)"

definition parseIPv6 :: "string \<Rightarrow> IP" where
  "parseIPv6 s =
     (let lead = (take 2 s = ''::'');
          t = (if lead then drop 2 s else s)
      in if lead \<and> t = [] then replicate IPv6len 0
         else case parse_groups 8 [] (if lead then Some 0 else None) t of
             None \<Rightarrow> []
           | Some (acc, ell, rest) \<Rightarrow> if rest \<noteq> [] then [] else expand_ellipsis acc ell)"

fun ParseIP_scan :: "string \<Rightarrow> string \<Rightarrow> IP" where
  "ParseIP_scan s [] = []"
| "ParseIP_scan s (c # cs) =
     (if c = CHR ''.'' then parseIPv4 s
      else if c = CHR '':'' then parseIPv6 s
      else ParseIP_scan s cs)"

definition ParseIP :: "string \<Rightarrow> IP" where
  "ParseIP s = ParseIP_scan s s"

section \<open>Host and port\<close>

text \<open>
  \<open>SplitHostPort\<close> splits at the last colon; a host in square brackets may contain
  colons. \<open>None\<close> is an error.
\<close>

definition last_colon :: "string \<Rightarrow> (string \<times> string) option" where
  "last_colon s =
     (if CHR '':'' \<in> set s
      then let r = rev s in
        Some (rev (tl (dropWhile (\<lambda>c. c \<noteq> CHR '':'') r)), rev (takeWhile (\<lambda>c. c \<noteq> CHR '':'') r))
      else None)"

definition has_bracket :: "string \<Rightarrow> bool" where
  "has_bracket s \<longleftrightarrow> CHR ''['' \<in> set s \<or> CHR '']'' \<in> set s"

definition SplitHostPort :: "string \<Rightarrow> (string \<times> string) option" where
  "SplitHostPort s =
     (case last_colon s of
        None \<Rightarrow> None
      | Some (hst, sport) \<Rightarrow>
          if s \<noteq> [] \<and> hd s = CHR ''['' then
            (let inner = takeWhile (\<lambda>c. c \<noteq> CHR '']'') (tl s);
                 rest = dropWhile (\<lambda>c. c \<noteq> CHR '']'') (tl s)
             in if rest = CHR '']'' # CHR '':'' # sport \<and> CHR ''['' \<notin> set inner \<and> \<not> has_bracket sport
                then Some (inner, sport) else None)
          else if CHR '':'' \<in> set hst \<or> has_bracket hst \<or> has_bracket sport then None
          else Some (hst, sport))"

lemma parse_octets_4:
  "parse_octets 4 first s = parse_octets (Suc (Suc (Suc (Suc 0)))) first s"
  by (simp add: numeral_eq_Suc)

lemma ParseIP_loopback: "ParseIP ''127.0.0.1'' = IPv4 127 0 0 1"
  by (simp add: ParseIP_def parseIPv4_def parse_octets_4 dtoi_def is_digit_def digits_value_def)

end
