(* ===== verification/Properties.thy ===== *)
theory Properties
  imports NetParse
begin

text \<open>
  \<open>src/properties.go\<close>: configuration values, each kept in a package variable that is
  filled from the environment (or a default) when it is first read. \<open>os.Getenv\<close> is the
  parameter \<open>env\<close> (the empty string for an unset variable). A getter returns the value
  and the updated variables. The locale \<open>lazy_property\<close> is the contract of such a variable,
  interpreted on every property that follows the pattern.
\<close>

section \<open>Names and defaults\<close>

type_synonym environ = "string \<Rightarrow> string"

definition EnvVarClusterName :: string where "EnvVarClusterName = ''SMUDGE_CLUSTER_NAME''"
definition DefaultClusterName :: string where "DefaultClusterName = ''smudge''"
definition EnvVarHeartbeatMillis :: string where "EnvVarHeartbeatMillis = ''SMUDGE_HEARTBEAT_MILLIS''"
definition DefaultHeartbeatMillis :: int where "DefaultHeartbeatMillis = 500"
definition EnvVarInitialHosts :: string where "EnvVarInitialHosts = ''SMUDGE_INITIAL_HOSTS''"
definition DefaultInitialHosts :: string where "DefaultInitialHosts = []"
definition EnvVarListenPort :: string where "EnvVarListenPort = ''SMUDGE_LISTEN_PORT''"
definition DefaultListenPort :: int where "DefaultListenPort = 9999"
definition EnvVarListenIP :: string where "EnvVarListenIP = ''SMUDGE_LISTEN_IP''"
definition DefaultListenIP :: string where "DefaultListenIP = ''127.0.0.1''"
definition EnvVarMaxBroadcastBytes :: string where "EnvVarMaxBroadcastBytes = ''SMUDGE_MAX_BROADCAST_BYTES''"
definition DefaultMaxBroadcastBytes :: int where "DefaultMaxBroadcastBytes = 256"
definition EnvVarMulticastAddress :: string where "EnvVarMulticastAddress = ''SMUDGE_MULTICAST_ADDRESS''"
definition DefaultMulticastAddress :: string where "DefaultMulticastAddress = []"
definition EnvVarMulticastEnabled :: string where "EnvVarMulticastEnabled = ''SMUDGE_MULTICAST_ENABLED''"
definition DefaultMulticastEnabled :: string where "DefaultMulticastEnabled = ''true''"
definition EnvVarMulticastAnnounceIntervalSeconds :: string where
  "EnvVarMulticastAnnounceIntervalSeconds = ''SMUDGE_MULTICAST_ANNOUNCE_INTERVAL''"
definition DefaultMulticastAnnounceIntervalSeconds :: int where
  "DefaultMulticastAnnounceIntervalSeconds = 0"
definition EnvVarMulticastPort :: string where "EnvVarMulticastPort = ''SMUDGE_MULTICAST_PORT''"
definition DefaultMulticastPort :: int where "DefaultMulticastPort = 9998"
definition EnvVarPingHistoryFrontload :: string where
  "EnvVarPingHistoryFrontload = ''SMUDGE_PING_HISTORY_FRONTLOAD''"
definition DefaultPingHistoryFrontload :: int where "DefaultPingHistoryFrontload = 200"
definition EnvVarMinPingTime :: string where "EnvVarMinPingTime = ''SMUDGE_MIN_PING_TIME''"
definition DefaultMinPingTime :: int where "DefaultMinPingTime = 150"

record props =
  clusterName :: string
  heartbeatMillis :: int
  listenPort :: int
  listenIP :: IP
  initialHosts :: "string list option"
  maxBroadcastBytes :: int
  minPingTime :: int
  multicastEnabledString :: string
  multicastEnabled :: bool
  multicastAnnounceIntervalSeconds :: int
  multicastPort :: int
  multicastAddress :: string
  pingHistoryFrontload :: int

text \<open>The package variables before any call.\<close>

definition initial_props :: props where
  "initial_props =
     \<lparr>clusterName = [], heartbeatMillis = 0, listenPort = 0, listenIP = [], initialHosts = None,
      maxBroadcastBytes = 0, minPingTime = 0, multicastEnabledString = [], multicastEnabled = True,
      multicastAnnounceIntervalSeconds = 10, multicastPort = 0, multicastAddress = [],
      pingHistoryFrontload = 0\<rparr>"

section \<open>Reading the environment\<close>

definition getIntVar :: "environ \<Rightarrow> string \<Rightarrow> int \<Rightarrow> int" where
  "getIntVar env key defaultVal =
     (if env key \<noteq> [] then (case Atoi (env key) of None \<Rightarrow> defaultVal | Some i \<Rightarrow> i)
      else defaultVal)"

definition getStringVar :: "environ \<Rightarrow> string \<Rightarrow> string \<Rightarrow> string" where
  "getStringVar env key defaultVal = (if env key = [] then defaultVal else env key)"

text \<open>
  \<open>strings.TrimSpace\<close> and the delimiter expression, on ASCII text: a delimiter is a comma
  with the white space around it, or a run of white space with no comma after it. The
  function returns the field before the first delimiter and the text after it.
\<close>

definition is_trim_space :: "char \<Rightarrow> bool" where
  "is_trim_space c \<longleftrightarrow> c \<in> {CHR '' '', CHR 0x09, CHR 0x0A, CHR 0x0B, CHR 0x0C, CHR 0x0D}"

definition is_re_space :: "char \<Rightarrow> bool" where
  "is_re_space c \<longleftrightarrow> c \<in> {CHR '' '', CHR 0x09, CHR 0x0A, CHR 0x0C, CHR 0x0D}"

definition TrimSpace :: "string \<Rightarrow> string" where
  "TrimSpace s = rev (dropWhile is_trim_space (rev (dropWhile is_trim_space s)))"

definition match_delimiter :: "string \<Rightarrow> string option" where
  "match_delimiter s =
     (let r = dropWhile is_re_space s in
      if r \<noteq> [] \<and> hd r = CHR '','' then Some (dropWhile is_re_space (tl r))
      else if r \<noteq> s then Some r else None)"

lemma match_delimiter_shorter:
  assumes "match_delimiter s = Some t" shows "length t < length s"
proof -
  let ?r = "dropWhile is_re_space s"
  have len: "length (takeWhile is_re_space s) + length ?r = length s"
    by (metis takeWhile_dropWhile_id length_append)
  show ?thesis
  proof (cases "?r \<noteq> [] \<and> hd ?r = CHR '',''")
    case True
    then have "t = dropWhile is_re_space (tl ?r)" using assms by (simp add: match_delimiter_def)
    then have "length t \<le> length (tl ?r)" using length_dropWhile_le [of is_re_space "tl ?r"] by metis
    moreover have "length (tl ?r) < length ?r" using True by simp
    ultimately show ?thesis using len by linarith
  next
    case False
    then have "t = ?r" "?r \<noteq> s" using assms by (auto simp: match_delimiter_def Let_def split: if_splits)
    moreover have "takeWhile is_re_space s \<noteq> []"
      using \<open>?r \<noteq> s\<close> by (metis takeWhile_dropWhile_id append_Nil)
    ultimately show ?thesis using len by (cases "takeWhile is_re_space s") auto
  qed
qed

function split_list :: "string \<Rightarrow> string \<Rightarrow> string list" where
  "split_list acc s =
     (case match_delimiter s of
        Some t \<Rightarrow> rev acc # split_list [] t
      | None \<Rightarrow> (case s of [] \<Rightarrow> [rev acc] | c # cs \<Rightarrow> split_list (c # acc) cs))"
  by pat_completeness auto
termination
  by (relation "measure (\<lambda>(acc, s). length s)") (auto dest: match_delimiter_shorter)

declare split_list.simps [simp del]

definition splitDelimmitedString :: "string \<Rightarrow> string list option" where
  "splitDelimmitedString str =
     (let str = TrimSpace str in
      if str \<noteq> [] then
        let result = split_list [] str in
        Some (if length result = 1 \<and> hd result = [] then [] else result)
      else None)"

definition getStringArrayVar :: "environ \<Rightarrow> string \<Rightarrow> string \<Rightarrow> string list option" where
  "getStringArrayVar env key defaultVal =
     (let valueString = env key;
          valueString = (if valueString = [] then defaultVal else valueString)
      in splitDelimmitedString valueString)"

section \<open>Getters\<close>

definition GetClusterName :: "environ \<Rightarrow> props \<Rightarrow> string \<times> props" where
  "GetClusterName env p =
     (let p = (if clusterName p = []
               then p\<lparr>clusterName := getStringVar env EnvVarClusterName DefaultClusterName\<rparr> else p)
      in (clusterName p, p))"

definition GetHeartbeatMillis :: "environ \<Rightarrow> props \<Rightarrow> int \<times> props" where
  "GetHeartbeatMillis env p =
     (let p = (if heartbeatMillis p = 0
               then p\<lparr>heartbeatMillis := getIntVar env EnvVarHeartbeatMillis DefaultHeartbeatMillis\<rparr>
               else p)
      in (heartbeatMillis p, p))"

definition GetInitialHosts :: "environ \<Rightarrow> props \<Rightarrow> string list option \<times> props" where
  "GetInitialHosts env p =
     (let p = (if initialHosts p = None
               then p\<lparr>initialHosts := getStringArrayVar env EnvVarInitialHosts DefaultInitialHosts\<rparr>
               else p)
      in (initialHosts p, p))"

definition GetListenPort :: "environ \<Rightarrow> props \<Rightarrow> int \<times> props" where
  "GetListenPort env p =
     (let p = (if listenPort p = 0
               then p\<lparr>listenPort := getIntVar env EnvVarListenPort DefaultListenPort\<rparr> else p)
      in (listenPort p, p))"

definition GetListenIP :: "environ \<Rightarrow> props \<Rightarrow> IP \<times> props" where
  "GetListenIP env p =
     (let p = (if listenIP p = []
               then p\<lparr>listenIP := ParseIP (getStringVar env EnvVarListenIP DefaultListenIP)\<rparr> else p)
      in (listenIP p, p))"

definition GetMaxBroadcastBytes :: "environ \<Rightarrow> props \<Rightarrow> int \<times> props" where
  "GetMaxBroadcastBytes env p =
     (let p = (if maxBroadcastBytes p = 0
               then p\<lparr>maxBroadcastBytes := getIntVar env EnvVarMaxBroadcastBytes DefaultMaxBroadcastBytes\<rparr>
               else p)
      in (maxBroadcastBytes p, p))"

definition GetMinPingTime :: "environ \<Rightarrow> props \<Rightarrow> int \<times> props" where
  "GetMinPingTime env p =
     (let p = (if minPingTime p = 0
               then p\<lparr>minPingTime := getIntVar env EnvVarMinPingTime DefaultMinPingTime\<rparr> else p)
      in (minPingTime p, p))"

text \<open>\<open>strings.ToLower\<close> on ASCII text.\<close>

definition to_lower :: "char \<Rightarrow> char" where
  "to_lower c = (let n = (of_char c :: nat) in if 65 \<le> n \<and> n \<le> 90 then char_of (n + 32) else c)"

definition GetMulticastEnabled :: "environ \<Rightarrow> props \<Rightarrow> bool \<times> props" where
  "GetMulticastEnabled env p =
     (let p = (if multicastEnabledString p = []
               then p\<lparr>multicastEnabledString :=
                   map to_lower (getStringVar env EnvVarMulticastEnabled DefaultMulticastEnabled)\<rparr>
               else p);
          p = p\<lparr>multicastEnabled :=
                multicastEnabledString p \<noteq> [] \<and> hd (multicastEnabledString p) = CHR ''t''\<rparr>
      in (multicastEnabled p, p))"

definition GetMulticastAnnounceIntervalSeconds :: "environ \<Rightarrow> props \<Rightarrow> int \<times> props" where
  "GetMulticastAnnounceIntervalSeconds env p =
     (let p = (if multicastAnnounceIntervalSeconds p = 0
               then p\<lparr>multicastAnnounceIntervalSeconds :=
                   getIntVar env EnvVarMulticastAnnounceIntervalSeconds
                     DefaultMulticastAnnounceIntervalSeconds\<rparr>
               else p)
      in (multicastAnnounceIntervalSeconds p, p))"

definition GetMulticastAddress :: "environ \<Rightarrow> props \<Rightarrow> string \<times> props" where
  "GetMulticastAddress env p =
     (let p = (if multicastAddress p = []
               then p\<lparr>multicastAddress := getStringVar env EnvVarMulticastAddress DefaultMulticastAddress\<rparr>
               else p)
      in (multicastAddress p, p))"

definition GetMulticastPort :: "environ \<Rightarrow> props \<Rightarrow> int \<times> props" where
  "GetMulticastPort env p =
     (let p = (if multicastPort p = 0
               then p\<lparr>multicastPort := getIntVar env EnvVarMulticastPort DefaultMulticastPort\<rparr> else p)
      in (multicastPort p, p))"

definition GetPingHistoryFrontload :: "environ \<Rightarrow> props \<Rightarrow> int \<times> props" where
  "GetPingHistoryFrontload env p =
     (let p = (if pingHistoryFrontload p = 0
               then p\<lparr>pingHistoryFrontload :=
                   getIntVar env EnvVarPingHistoryFrontload DefaultPingHistoryFrontload\<rparr>
               else p)
      in (pingHistoryFrontload p, p))"

section \<open>Setters\<close>

definition SetClusterName :: "string \<Rightarrow> props \<Rightarrow> props" where
  "SetClusterName val p = p\<lparr>clusterName := (if val = [] then DefaultClusterName else val)\<rparr>"

definition SetHeartbeatMillis :: "int \<Rightarrow> props \<Rightarrow> props" where
  "SetHeartbeatMillis val p = p\<lparr>heartbeatMillis := (if val = 0 then DefaultHeartbeatMillis else val)\<rparr>"

definition SetListenPort :: "int \<Rightarrow> props \<Rightarrow> props" where
  "SetListenPort val p = p\<lparr>listenPort := (if val = 0 then DefaultListenPort else val)\<rparr>"

text \<open>
  The warning about already known nodes has no other effect and is left out. The empty list stands for a nil address;
  an empty slice that is not nil, which the code would store, is not told apart from it.
\<close>

definition SetListenIP :: "IP \<Rightarrow> props \<Rightarrow> props" where
  "SetListenIP val p = p\<lparr>listenIP := (if val = [] then ParseIP DefaultListenIP else val)\<rparr>"

definition SetMaxBroadcastBytes :: "int \<Rightarrow> props \<Rightarrow> props" where
  "SetMaxBroadcastBytes val p =
     p\<lparr>maxBroadcastBytes := (if val = 0 then DefaultMaxBroadcastBytes else val)\<rparr>"

definition SetMinPingTime :: "int \<Rightarrow> props \<Rightarrow> props" where
  "SetMinPingTime val p = p\<lparr>minPingTime := (if val = 0 then DefaultMinPingTime else val)\<rparr>"

definition SetMulticastAddress :: "string \<Rightarrow> props \<Rightarrow> props" where
  "SetMulticastAddress val p =
     p\<lparr>multicastAddress := (if val = [] then DefaultMulticastAddress else val)\<rparr>"

definition SetMulticastEnabled :: "bool \<Rightarrow> props \<Rightarrow> props" where
  "SetMulticastEnabled val p =
     p\<lparr>multicastEnabledString := (if val then ''true'' else ''false'')\<rparr>"

definition SetMulticastAnnounceIntervalSeconds :: "int \<Rightarrow> props \<Rightarrow> props" where
  "SetMulticastAnnounceIntervalSeconds val p = p\<lparr>multicastAnnounceIntervalSeconds := val\<rparr>"

definition SetMulticastPort :: "int \<Rightarrow> props \<Rightarrow> props" where
  "SetMulticastPort val p = p\<lparr>multicastPort := (if val = 0 then DefaultMulticastPort else val)\<rparr>"

definition SetPingHistoryFrontload :: "int \<Rightarrow> props \<Rightarrow> props" where
  "SetPingHistoryFrontload val p =
     p\<lparr>pingHistoryFrontload := (if val = 0 then DefaultPingHistoryFrontload else val)\<rparr>"

lemmas default_defs =
  DefaultClusterName_def DefaultHeartbeatMillis_def DefaultInitialHosts_def DefaultListenPort_def
  DefaultListenIP_def DefaultMaxBroadcastBytes_def DefaultMulticastAddress_def
  DefaultMulticastEnabled_def DefaultMulticastAnnounceIntervalSeconds_def DefaultMulticastPort_def
  DefaultPingHistoryFrontload_def DefaultMinPingTime_def

section \<open>The contract of a lazily read property\<close>

locale lazy_property =
  fixes field :: "props \<Rightarrow> 'v"
    and store :: "'v \<Rightarrow> props \<Rightarrow> props"
    and load :: "environ \<Rightarrow> 'v"
    and unset :: 'v
    and deflt :: 'v
    and get :: "environ \<Rightarrow> props \<Rightarrow> 'v \<times> props"
    and put :: "'v \<Rightarrow> props \<Rightarrow> props"
  assumes field_store: "field (store v p) = v"
    and store_field: "store (field p) p = p"
    and get_set: "field p \<noteq> unset \<Longrightarrow> get env p = (field p, p)"
    and get_unset: "field p = unset \<Longrightarrow> get env p = (load env, store (load env) p)"
    and put_eq: "put v p = store (if v = unset then deflt else v) p"
    and deflt_set: "deflt \<noteq> unset"
    and load_empty: "load (\<lambda>_. []) = deflt"
begin

lemma get_after_put: "v \<noteq> unset \<Longrightarrow> get env (put v p) = (v, put v p)"
  by (simp add: put_eq get_set field_store)

lemma get_after_reset: "get env (put unset p) = (deflt, put unset p)"
  by (simp add: put_eq get_set field_store deflt_set)

lemma get_put: "fst (get env (put v p)) = (if v = unset then deflt else v)"
  by (simp add: get_after_put get_after_reset)

lemma get_default: "field p = unset \<Longrightarrow> fst (get (\<lambda>_. []) p) = deflt"
  by (simp add: get_unset load_empty)

text \<open>Once read, a property no longer follows the environment.\<close>

lemma get_sticky:
  assumes "load env \<noteq> unset"
  shows "get env' (snd (get env p)) = get env p"
  using assms by (cases "field p = unset") (simp_all add: get_unset get_set field_store)

lemma get_same_value:
  "fst (get env (snd (get env p))) = fst (get env p)"
  by (cases "field p = unset"; cases "load env = unset")
    (simp_all add: get_unset get_set field_store)

end

lemma env_empty [simp]:
  "getIntVar (\<lambda>_. []) k d = d" "getStringVar (\<lambda>_. []) k e = e"
  by (simp_all add: getIntVar_def getStringVar_def)

interpretation cluster_name: lazy_property clusterName "\<lambda>v p. p\<lparr>clusterName := v\<rparr>"
  "\<lambda>env. getStringVar env EnvVarClusterName DefaultClusterName" "[]" DefaultClusterName
  GetClusterName SetClusterName
  by unfold_locales (simp_all add: GetClusterName_def SetClusterName_def default_defs)

interpretation heartbeat_millis: lazy_property heartbeatMillis "\<lambda>v p. p\<lparr>heartbeatMillis := v\<rparr>"
  "\<lambda>env. getIntVar env EnvVarHeartbeatMillis DefaultHeartbeatMillis" 0 DefaultHeartbeatMillis
  GetHeartbeatMillis SetHeartbeatMillis
  by unfold_locales (simp_all add: GetHeartbeatMillis_def SetHeartbeatMillis_def default_defs)

interpretation listen_port: lazy_property listenPort "\<lambda>v p. p\<lparr>listenPort := v\<rparr>"
  "\<lambda>env. getIntVar env EnvVarListenPort DefaultListenPort" 0 DefaultListenPort
  GetListenPort SetListenPort
  by unfold_locales (simp_all add: GetListenPort_def SetListenPort_def default_defs)

interpretation listen_ip: lazy_property listenIP "\<lambda>v p. p\<lparr>listenIP := v\<rparr>"
  "\<lambda>env. ParseIP (getStringVar env EnvVarListenIP DefaultListenIP)" "[]" "ParseIP DefaultListenIP"
  GetListenIP SetListenIP
  by unfold_locales
    (simp_all add: GetListenIP_def SetListenIP_def default_defs ParseIP_loopback IPv4_def)

interpretation max_broadcast: lazy_property maxBroadcastBytes "\<lambda>v p. p\<lparr>maxBroadcastBytes := v\<rparr>"
  "\<lambda>env. getIntVar env EnvVarMaxBroadcastBytes DefaultMaxBroadcastBytes" 0 DefaultMaxBroadcastBytes
  GetMaxBroadcastBytes SetMaxBroadcastBytes
  by unfold_locales (simp_all add: GetMaxBroadcastBytes_def SetMaxBroadcastBytes_def default_defs)

interpretation min_ping: lazy_property minPingTime "\<lambda>v p. p\<lparr>minPingTime := v\<rparr>"
  "\<lambda>env. getIntVar env EnvVarMinPingTime DefaultMinPingTime" 0 DefaultMinPingTime
  GetMinPingTime SetMinPingTime
  by unfold_locales (simp_all add: GetMinPingTime_def SetMinPingTime_def default_defs)

interpretation multicast_port: lazy_property multicastPort "\<lambda>v p. p\<lparr>multicastPort := v\<rparr>"
  "\<lambda>env. getIntVar env EnvVarMulticastPort DefaultMulticastPort" 0 DefaultMulticastPort
  GetMulticastPort SetMulticastPort
  by unfold_locales (simp_all add: GetMulticastPort_def SetMulticastPort_def default_defs)

interpretation ping_frontload: lazy_property pingHistoryFrontload
  "\<lambda>v p. p\<lparr>pingHistoryFrontload := v\<rparr>"
  "\<lambda>env. getIntVar env EnvVarPingHistoryFrontload DefaultPingHistoryFrontload" 0
  DefaultPingHistoryFrontload GetPingHistoryFrontload SetPingHistoryFrontload
  by unfold_locales
    (simp_all add: GetPingHistoryFrontload_def SetPingHistoryFrontload_def default_defs)

section \<open>Configuration\<close>


text \<open>
  The announcement interval starts at ten seconds, so that neither the environment variable
  nor the default is ever read unless the interval is first set to zero.
\<close>

theorem announce_interval_ignores_environment:
  "fst (GetMulticastAnnounceIntervalSeconds env initial_props) = 10"
  by (simp add: GetMulticastAnnounceIntervalSeconds_def initial_props_def)

end
