(* ===== verification/State.thy ===== *)
theory State
  imports NodeMap PingData Properties
begin

text \<open>
  The package variables of the program as one record, with the data they hold: broadcasts
  (\<open>src/broadcast.go\<close>), retry counters of dead nodes (\<open>src/registry.go\<close>), pending
  acknowledgements (\<open>src/membership.go\<close>) and listeners (\<open>src/events.go\<close>). What the
  program does to the outside is recorded in three traces: the calls of listeners, the
  datagrams written, and the goroutines started but not yet run. The clock and the process
  environment are fields that the program only reads.

  \<open>emitCount\<close> and \<open>pingRequestCount\<close> of \<open>src/membership.go\<close> are here too, because
  every component calls them.
\<close>

section \<open>Data\<close>

record Broadcast =
  b_bytes :: "byte list"
  b_origin :: node_ref
  b_index :: uint32
  b_label :: string
  b_emitCounter :: int8

record deadNodeCounter =
  retry :: int
  retryCountdown :: int

datatype pendingAckType = packPing | packPingReq | packNFP

definition pendingAckType_String :: "pendingAckType \<Rightarrow> string" where
  "pendingAckType_String p =
     (case p of packPing \<Rightarrow> ''PING'' | packPingReq \<Rightarrow> ''PINGREQ'' | packNFP \<Rightarrow> ''NFP'')"

record pendingAck =
  startTime :: uint32
  p_node :: node_ref
  callback :: "node_ref option"
  callbackCode :: uint32
  packType :: pendingAckType

text \<open>Listeners are user code, known by a number; a notification is one call of one of them.\<close>

type_synonym listener = nat

datatype notification =
    OnChange listener node_ref NodeStatus
  | OnBroadcast listener Broadcast

datatype goroutine =
    DoForwardOnTimeout pendingAck
  | TransmitVerbAck node_ref uint32

record smudge =
  heap :: heap
  environ :: environ
  config :: props
  clock :: int
  knownNodes :: nodeMap
  updatedNodes :: nodeMap
  deadNodeRetries :: "deadNodeCounter gomap"
  knownNodesModifiedFlag :: bool
  currentHeartbeat :: uint32
  pendingAcks :: "pendingAck gomap"
  thisHostAddress :: string
  thisHost :: "node_ref option"
  ipLen :: nat
  pingdata :: pingData
  indexCounter :: uint32
  broadcasts :: "Broadcast gomap"
  broadcastListeners :: "listener list"
  statusListeners :: "listener list"
  notified :: "notification list"
  sent :: "(string \<times> byte list) list"
  spawned :: "goroutine list"

text \<open>
  The package variables as Go initialises them. The ping history is filled with the frontload
  property, which is thereby read (and remembered) before anything else runs.
\<close>

definition init_smudge :: "environ \<Rightarrow> int \<Rightarrow> smudge" where
  "init_smudge env t =
     (let (frontload, cfg) = GetPingHistoryFrontload env initial_props in
      \<lparr>heap = [], environ = env, config = cfg, clock = t, knownNodes = nodeMap_init,
       updatedNodes = nodeMap_init, deadNodeRetries = [], knownNodesModifiedFlag = False,
       currentHeartbeat = 0, pendingAcks = [], thisHostAddress = [], thisHost = None,
       ipLen = IPv4len, pingdata = newPingData frontload 50, indexCounter = 1, broadcasts = [],
       broadcastListeners = [], statusListeners = [], notified = [], sent = [], spawned = []\<rparr>)"

definition now :: "smudge \<Rightarrow> uint32" where
  "now s = GetNowInMillis (clock s)"

definition listenPortOf :: "smudge \<Rightarrow> int" where
  "listenPortOf s = fst (GetListenPort (environ s) (config s))"

definition maxBroadcastBytesOf :: "smudge \<Rightarrow> int" where
  "maxBroadcastBytesOf s = fst (GetMaxBroadcastBytes (environ s) (config s))"

definition minPingTimeOf :: "smudge \<Rightarrow> int" where
  "minPingTimeOf s = fst (GetMinPingTime (environ s) (config s))"

abbreviation node :: "smudge \<Rightarrow> node_ref \<Rightarrow> Node" where
  "node s r \<equiv> heap s ! r"

abbreviation addr :: "smudge \<Rightarrow> node_ref \<Rightarrow> string" where
  "addr s r \<equiv> addressOf (heap s) r"

definition modify_node :: "node_ref \<Rightarrow> (Node \<Rightarrow> Node) \<Rightarrow> smudge \<Rightarrow> smudge" where
  "modify_node r f s = s\<lparr>heap := modify r f (heap s)\<rparr>"

section \<open>Emission limits\<close>

text \<open>
  \<open>int(2.5 * math.Log(float64(n)) + 0.5)\<close> in exact arithmetic. For \<open>n = 0\<close> the
  logarithm is minus infinity, which the conversion turns into the least 64-bit integer.
\<close>

definition go_trunc :: "real \<Rightarrow> int" where
  "go_trunc x = (if x < 0 then \<lceil>x\<rceil> else \<lfloor>x\<rfloor>)"

definition lambda :: real where "lambda = 5 / 2"

definition log_count :: "nat \<Rightarrow> int" where
  "log_count n = (if n = 0 then - (2 ^ 63) else go_trunc (lambda * ln (real n) + 1 / 2))"

definition emitCount :: "smudge \<Rightarrow> int" where
  "emitCount s = log_count (nodeMap_length (knownNodes s))"

definition pingRequestCount :: "smudge \<Rightarrow> int" where
  "pingRequestCount s = log_count (nodeMap_length (knownNodes s))"

section \<open>Lemmas\<close>

lemma log_count_floor:
  assumes "0 < n"
  shows "log_count n = \<lfloor>lambda * ln (real n) + 1 / 2\<rfloor>" and "0 \<le> lambda * ln (real n)"
proof -
  show nonneg: "0 \<le> lambda * ln (real n)" using assms by (simp add: lambda_def)
  then show "log_count n = \<lfloor>lambda * ln (real n) + 1 / 2\<rfloor>"
    using assms by (simp add: log_count_def go_trunc_def)
qed

lemma log_count_nonneg: "0 < n \<Longrightarrow> 0 \<le> log_count n"
  using log_count_floor [of n] by simp

lemma log_count_mono: "0 < m \<Longrightarrow> m \<le> n \<Longrightarrow> log_count m \<le> log_count n"
  using log_count_floor(1) [of m] log_count_floor(1) [of n] by (simp add: lambda_def floor_mono)

lemma exp_fifth_le_iff: "exp (real a / 5) \<le> real n \<longleftrightarrow> exp 1 ^ a \<le> real (n ^ 5)"
proof -
  have "exp (real a / 5) ^ 5 = exp 1 ^ a" by (simp flip: exp_of_nat_mult)
  moreover have "exp (real a / 5) \<le> real n \<longleftrightarrow> exp (real a / 5) ^ 5 \<le> real n ^ 5"
    by (simp add: power_mono_iff)
  ultimately show ?thesis by simp
qed

text \<open>The limit is \<open>k\<close> exactly when $n^5$ lies between two powers of $e$.\<close>

lemma log_count_iff:
  assumes "0 < n"
  shows "log_count n = int k \<longleftrightarrow>
    (k = 0 \<or> exp 1 ^ (2 * k - 1) \<le> real (n ^ 5)) \<and> real (n ^ 5) < exp 1 ^ (2 * k + 1)"
proof -
  let ?x = "lambda * ln (real n) + 1 / 2"
  have ln_ge: "real a / 5 \<le> ln (real n) \<longleftrightarrow> exp (real a / 5) \<le> real n" for a
    using assms by (metis exp_gt_zero ln_exp ln_le_cancel_iff of_nat_0_less_iff)
  have "log_count n = int k \<longleftrightarrow> real k \<le> ?x \<and> ?x < real k + 1"
    using log_count_floor(1) [OF assms] by (simp add: floor_eq_iff)
  also have "real k \<le> ?x \<longleftrightarrow> k = 0 \<or> real (2 * k - 1) / 5 \<le> ln (real n)"
    using log_count_floor(2) [OF assms] by (cases k) (auto simp: lambda_def field_simps)
  also have "?x < real k + 1 \<longleftrightarrow> \<not> real (2 * k + 1) / 5 \<le> ln (real n)"
    by (auto simp: lambda_def field_simps)
  finally show ?thesis by (simp only: ln_ge exp_fifth_le_iff not_le)
qed

lemma e_bounds: "27182 / 10000 \<le> exp (1 :: real)" "exp (1 :: real) \<le> 27184 / 10000"
proof -
  obtain t :: real where t: "\<bar>t\<bar> \<le> 1" "exp 1 = (\<Sum>m<8. 1 ^ m / fact m) + exp t / fact 8 * 1 ^ 8"
    using Maclaurin_exp_le [of 1 8] by auto
  then have "exp 1 = (\<Sum>m<8. 1 / fact m) + exp t / 40320" by (simp add: fact_numeral)
  moreover have "(\<Sum>m<8. 1 / fact m) = (685 / 252 :: real)"
    by (simp add: fact_numeral eval_nat_numeral)
  moreover have "0 \<le> exp t" "exp t \<le> 3"
    using t(1) exp_le by (simp_all add: order_trans [of "exp t" "exp 1" 3])
  ultimately show "27182 / 10000 \<le> exp (1 :: real)" "exp (1 :: real) \<le> 27184 / 10000"
    by linarith+
qed

lemma e_power_le: "(27184 / 10000) ^ a \<le> c \<Longrightarrow> exp (1 :: real) ^ a \<le> c"
  using power_mono [OF e_bounds(2), of a] by simp

lemma e_power_gt: "c < (27182 / 10000) ^ a \<Longrightarrow> c < exp (1 :: real) ^ a"
  using power_mono [OF e_bounds(1), of a] by simp

lemma log_count_value:
  assumes "0 < n" and "k = 0 \<or> (27184 / 10000) ^ (2 * k - 1) \<le> real (n ^ 5)"
    and "real (n ^ 5) < (27182 / 10000) ^ (2 * k + 1)"
  shows "log_count n = int k"
  using assms e_power_le e_power_gt by (auto simp only: log_count_iff)

lemma log_count_table [simp]:
  "log_count 0 = - (2 ^ 63)" "log_count 1 = 0" "log_count (Suc 0) = 0" "log_count 2 = 2"
  "log_count 3 = 3" "log_count 4 = 3" "log_count 5 = 4" "log_count 10 = 6" "log_count 20 = 7"
proof -
  show "log_count 0 = - (2 ^ 63)" by (simp add: log_count_def)
  show "log_count 1 = 0" "log_count (Suc 0) = 0" using log_count_value [of 1 0] by simp_all
  show "log_count 2 = 2" using log_count_value [of 2 2] by (simp add: power_divide)
  show "log_count 3 = 3" using log_count_value [of 3 3] by (simp add: power_divide)
  show "log_count 4 = 3" using log_count_value [of 4 3] by (simp add: power_divide)
  show "log_count 5 = 4" using log_count_value [of 5 4] by (simp add: power_divide)
  show "log_count 10 = 6" using log_count_value [of 10 6] by (simp add: power_divide)
  show "log_count 20 = 7" using log_count_value [of 20 7] by (simp add: power_divide)
qed

text \<open>The limit of any map that fits in memory fits in the \<open>int8\<close> counters.\<close>

lemma log_count_upper:
  assumes "0 < n" and "n < 2 ^ 63"
  shows "log_count n \<le> 127"
proof -
  have "real n < 2 ^ 63" using assms(2) by (metis of_nat_less_iff of_nat_numeral of_nat_power)
  then have "ln (real n) \<le> ln (2 ^ 63)" using assms(1) by simp
  also have "\<dots> = 63 * ln 2" using ln_realpow [of 2 63] by simp
  also have "ln (2 :: real) \<le> 8 / 10"
  proof -
    have "(2 :: real) \<le> exp (8 / 10)"
      using exp_lower_Taylor_quadratic [of "8 / 10"] by (simp add: power2_eq_square)
    then show ?thesis by (metis exp_gt_zero exp_le_cancel_iff exp_ln zero_less_numeral)
  qed
  finally show ?thesis using log_count_floor [OF assms(1)] by (simp add: lambda_def)
qed

end
