(* ===== verification/Invariant.thy ===== *)
theory Invariant
  imports State
begin

text \<open>
  The well-formedness invariant of the program's state: every pointer is allocated, every
  map files a node under its printed address, every pending acknowledgement that stands for
  an indirect ping has a callback, and the ping statistics are in order. The heap changes
  only by \<open>extends\<close>: nodes are added and keep their address, so each part of the invariant
  is monotone along it.
\<close>

section \<open>Definitions\<close>

definition ref_ok :: "heap \<Rightarrow> node_ref option \<Rightarrow> bool" where
  "ref_ok h r \<longleftrightarrow> (case r of None \<Rightarrow> True | Some q \<Rightarrow> q < length h)"

definition wf_heap :: "heap \<Rightarrow> bool" where
  "wf_heap h \<longleftrightarrow> (\<forall>n \<in> set h. wf_node n \<and> ref_ok h (statusSource n))"

definition map_ok :: "heap \<Rightarrow> nodeMap \<Rightarrow> bool" where
  "map_ok h m \<longleftrightarrow> keys_ok h m \<and> (\<forall>(k, r) \<in> set (nodes m). r < length h)"

definition pack_ok :: "heap \<Rightarrow> pendingAck \<Rightarrow> bool" where
  "pack_ok h p \<longleftrightarrow> p_node p < length h \<and> ref_ok h (callback p) \<and>
     (packType p \<noteq> packPing \<longrightarrow> callback p \<noteq> None)"

definition packs_ok :: "heap \<Rightarrow> pendingAck gomap \<Rightarrow> bool" where
  "packs_ok h ps \<longleftrightarrow> wf_map ps \<and> (\<forall>(k, p) \<in> set ps. pack_ok h p)"

definition broadcasts_ok :: "heap \<Rightarrow> Broadcast gomap \<Rightarrow> bool" where
  "broadcasts_ok h bs \<longleftrightarrow> wf_map bs \<and>
     (\<forall>(k, b) \<in> set bs. b_origin b < length h \<and> b_label b = k \<and> k \<noteq> [])"

definition goroutine_ok :: "heap \<Rightarrow> goroutine \<Rightarrow> bool" where
  "goroutine_ok h g \<longleftrightarrow>
     (case g of DoForwardOnTimeout p \<Rightarrow> pack_ok h p | TransmitVerbAck r c \<Rightarrow> r < length h)"

definition wf_state :: "smudge \<Rightarrow> bool" where
  "wf_state s \<longleftrightarrow> wf_heap (heap s) \<and> map_ok (heap s) (knownNodes s) \<and>
     map_ok (heap s) (updatedNodes s) \<and> wf_map (deadNodeRetries s) \<and>
     packs_ok (heap s) (pendingAcks s) \<and> broadcasts_ok (heap s) (broadcasts s) \<and>
     ref_ok (heap s) (thisHost s) \<and> (\<forall>g \<in> set (spawned s). goroutine_ok (heap s) g) \<and>
     pd_ok (pingdata s) \<and> (ipLen s = IPv4len \<or> ipLen s = IPv6len)"

definition extends :: "heap \<Rightarrow> heap \<Rightarrow> bool" where
  "extends h h' \<longleftrightarrow> length h \<le> length h' \<and> (\<forall>r < length h. same_id (h ! r) (h' ! r))"

lemmas wf_parts = wf_heap_def map_ok_def packs_ok_def broadcasts_ok_def

section \<open>Monotonicity\<close>

lemma extends_refl [simp, intro]: "extends h h"
  by (simp add: extends_def same_id_def)

lemma extends_trans [trans]: "extends a b \<Longrightarrow> extends b c \<Longrightarrow> extends a c"
  by (fastforce simp: extends_def same_id_def)

lemma extends_append [simp, intro]: "extends h (h @ ns)"
  by (simp add: extends_def same_id_def nth_append)

lemma extends_modify:
  assumes "\<And>n. same_id n (f n)" shows "extends h (modify r f h)"
  using assms by (cases "r < length h")
    (auto simp: extends_def modify_nth same_id_def, auto simp: modify_def list_update_beyond)

lemma extends_addressOf:
  "extends h h' \<Longrightarrow> r < length h \<Longrightarrow> addressOf h' r = addressOf h r"
  by (simp add: extends_def addressOf_def Address_def same_id_def Let_def)

lemma extends_ip_port:
  "extends h h' \<Longrightarrow> r < length h \<Longrightarrow> ip (h' ! r) = ip (h ! r) \<and> port (h' ! r) = port (h ! r)"
  by (simp add: extends_def same_id_def)

lemma ref_ok_simps [simp]: "ref_ok h None" "ref_ok h (Some r) \<longleftrightarrow> r < length h"
  by (simp_all add: ref_ok_def)

lemma ref_ok_mono: "extends h h' \<Longrightarrow> ref_ok h r \<Longrightarrow> ref_ok h' r"
  by (cases r) (auto simp: extends_def)

lemma less_length_mono: "extends h h' \<Longrightarrow> r < length h \<Longrightarrow> r < length h'"
  by (auto simp: extends_def)

lemma map_ok_mono:
  assumes "extends h h'" and "map_ok h m" shows "map_ok h' m"
proof -
  have "addressOf h' r = k \<and> r < length h'" if "(k, r) \<in> set (nodes m)" for k r
    using assms that extends_addressOf [OF assms(1), of r] less_length_mono [OF assms(1), of r]
    by (fastforce simp: map_ok_def keys_ok_def)
  then show ?thesis using assms(2) by (auto simp: map_ok_def keys_ok_def)
qed

lemma pack_ok_mono: "extends h h' \<Longrightarrow> pack_ok h p \<Longrightarrow> pack_ok h' p"
  by (auto simp: pack_ok_def intro: less_length_mono ref_ok_mono)

lemma packs_ok_mono: "extends h h' \<Longrightarrow> packs_ok h ps \<Longrightarrow> packs_ok h' ps"
  by (auto simp: packs_ok_def intro: pack_ok_mono)

lemma broadcasts_ok_mono: "extends h h' \<Longrightarrow> broadcasts_ok h bs \<Longrightarrow> broadcasts_ok h' bs"
  by (auto simp: broadcasts_ok_def intro: less_length_mono)

lemma goroutine_ok_mono: "extends h h' \<Longrightarrow> goroutine_ok h g \<Longrightarrow> goroutine_ok h' g"
  by (auto simp: goroutine_ok_def intro: less_length_mono pack_ok_mono split: goroutine.splits)

text \<open>Changing the heap by an extension keeps the invariant when the new heap is well-formed.\<close>

lemma wf_state_heap:
  assumes "wf_state s" and "extends (heap s) h'" and "wf_heap h'"
  shows "wf_state (s\<lparr>heap := h'\<rparr>)"
  using assms
  by (auto simp: wf_state_def intro: map_ok_mono packs_ok_mono broadcasts_ok_mono ref_ok_mono
      goroutine_ok_mono)

lemma wf_heap_nth: "wf_heap h \<Longrightarrow> r < length h \<Longrightarrow> wf_node (h ! r)"
  by (simp add: wf_heap_def)

lemma wf_heap_append:
  assumes "wf_heap h" and "wf_node n" and "statusSource n = None"
  shows "wf_heap (h @ [n])"
  using assms by (auto simp: wf_heap_def intro: ref_ok_mono [OF extends_append])

lemma wf_heap_modify:
  assumes "wf_heap h" and "r < length h \<Longrightarrow> wf_node (f (h ! r)) \<and> ref_ok h (statusSource (f (h ! r)))"
  shows "wf_heap (modify r f h)"
proof -
  have "ref_ok (modify r f h) q = ref_ok h q" for q
    by (cases q) simp_all
  moreover have "set (modify r f h) \<subseteq> (if r < length h then insert (f (h ! r)) (set h) else set h)"
    using set_update_subset_insert [of h r "f (h ! r)"] by (auto simp: modify_def list_update_beyond)
  ultimately show ?thesis using assms unfolding wf_heap_def by (auto split: if_splits)
qed

lemma map_ok_keys: "map_ok h m \<Longrightarrow> keys_ok h m"
  by (simp add: map_ok_def)

lemma map_ok_lookup:
  "map_ok h m \<Longrightarrow> getByAddress m k = Some r \<Longrightarrow> r < length h \<and> addressOf h r = k"
  by (auto simp: map_ok_def getByAddress_def dest!: map_of_SomeD)
    (auto simp: keys_ok_def)

lemma map_ok_values: "map_ok h m \<Longrightarrow> r \<in> set (nodeMap_values ord m) \<Longrightarrow> r < length h"
  using set_values [of h m ord] by (auto simp: map_ok_def)

lemma map_ok_ins: "map_ok h m \<Longrightarrow> r < length h \<Longrightarrow> map_ok h (ins_node h m r)"
  using reg.invar_ins [of h m r]
  by (auto simp: map_ok_def set_update_wf keys_ok_wf split: if_splits)

lemma map_ok_del: "map_ok h m \<Longrightarrow> map_ok h (del_node h m r)"
  using reg.invar_del [of h m r] by (auto simp: map_ok_def set_delete_iff)

lemma map_ok_init [simp]: "map_ok h nodeMap_init"
  by (simp add: map_ok_def reg.invar_empty) (simp add: nodeMap_init_def)

text \<open>Selectors of the invariant, for the proofs about single operations.\<close>

lemma wf_stateD:
  assumes "wf_state s"
  shows "wf_heap (heap s)" "map_ok (heap s) (knownNodes s)" "map_ok (heap s) (updatedNodes s)"
    "wf_map (deadNodeRetries s)" "packs_ok (heap s) (pendingAcks s)"
    "broadcasts_ok (heap s) (broadcasts s)" "ref_ok (heap s) (thisHost s)"
    "\<forall>g \<in> set (spawned s). goroutine_ok (heap s) g" "pd_ok (pingdata s)"
    "ipLen s = IPv4len \<or> ipLen s = IPv6len"
  using assms by (simp_all add: wf_state_def)

text \<open>Updates of single fields.\<close>

lemma wf_state_updates [simp]:
  "wf_state s \<Longrightarrow> wf_state (s\<lparr>knownNodesModifiedFlag := b\<rparr>)"
  "wf_state s \<Longrightarrow> wf_state (s\<lparr>currentHeartbeat := c\<rparr>)"
  "wf_state s \<Longrightarrow> wf_state (s\<lparr>notified := ns\<rparr>)"
  "wf_state s \<Longrightarrow> wf_state (s\<lparr>sent := ds\<rparr>)"
  "wf_state s \<Longrightarrow> wf_state (s\<lparr>indexCounter := c\<rparr>)"
  "wf_state s \<Longrightarrow> map_ok (heap s) m \<Longrightarrow> wf_state (s\<lparr>knownNodes := m\<rparr>)"
  "wf_state s \<Longrightarrow> map_ok (heap s) m \<Longrightarrow> wf_state (s\<lparr>updatedNodes := m\<rparr>)"
  "wf_state s \<Longrightarrow> wf_map d \<Longrightarrow> wf_state (s\<lparr>deadNodeRetries := d\<rparr>)"
  "wf_state s \<Longrightarrow> packs_ok (heap s) ps \<Longrightarrow> wf_state (s\<lparr>pendingAcks := ps\<rparr>)"
  "wf_state s \<Longrightarrow> broadcasts_ok (heap s) bs \<Longrightarrow> wf_state (s\<lparr>broadcasts := bs\<rparr>)"
  "wf_state s \<Longrightarrow> pd_ok pd \<Longrightarrow> wf_state (s\<lparr>pingdata := pd\<rparr>)"
  by (simp_all add: wf_state_def)

lemma wf_state_spawn:
  "wf_state s \<Longrightarrow> goroutine_ok (heap s) g \<Longrightarrow> wf_state (s\<lparr>spawned := spawned s @ [g]\<rparr>)"
  by (auto simp: wf_state_def)

lemma wf_state_modify_node:
  assumes "wf_state s" and "\<And>n. same_id n (f n)"
    and "\<And>n. wf_node n \<Longrightarrow> wf_node (f n)"
    and "\<And>n. ref_ok (heap s) (statusSource n) \<Longrightarrow> ref_ok (heap s) (statusSource (f n))"
  shows "wf_state (modify_node r f s)"
  unfolding modify_node_def
proof (rule wf_state_heap [OF assms(1) extends_modify [OF assms(2)]])
  have "wf_heap (heap s)" by (rule wf_stateD(1) [OF assms(1)])
  then show "wf_heap (modify r f (heap s))"
    by (rule wf_heap_modify) (use \<open>wf_heap (heap s)\<close> assms(3,4) in \<open>auto simp: wf_heap_def\<close>)
qed

lemma packs_ok_update: "packs_ok h ps \<Longrightarrow> pack_ok h p \<Longrightarrow> packs_ok h (AList.update k p ps)"
  by (auto simp: packs_ok_def set_update_wf split: if_splits)

lemma packs_ok_delete: "packs_ok h ps \<Longrightarrow> packs_ok h (AList.delete k ps)"
  by (auto simp: packs_ok_def set_delete_iff)

lemma packs_ok_lookup: "packs_ok h ps \<Longrightarrow> map_of ps k = Some p \<Longrightarrow> pack_ok h p"
  by (auto simp: packs_ok_def dest!: map_of_SomeD)

section \<open>The initial state, and a small cluster\<close>

lemma wf_state_init: "wf_state (init_smudge env t)"
  by (simp add: init_smudge_def wf_state_def wf_parts pd_ok_new GetPingHistoryFrontload_def Let_def)
    (simp add: nodeMap_init_def keys_ok_def)

text \<open>
  A host that knows one peer, both alive, with the default configuration. The witnesses of
  the development run the operations on it.
\<close>

definition host_node :: "byte \<Rightarrow> Node" where
  "host_node d = \<lparr>ip = IPv4 10 0 0 d, port = 9999, timestamp = 0, address = [], pingMillis = PingNoData,
     status = StatusAlive, emitCounter = 0, heartbeat = 5, statusSource = None\<rparr>"

definition two_hosts :: smudge where
  "two_hosts = (init_smudge (\<lambda>_. []) 0)\<lparr>heap := [host_node 1, host_node 2],
     knownNodes := \<lparr>nodes = [(''10.0.0.1:9999'', 0), (''10.0.0.2:9999'', 1)]\<rparr>,
     thisHost := Some 0, thisHostAddress := ''10.0.0.1:9999'', currentHeartbeat := 7,
     broadcastListeners := [0], statusListeners := [1]\<rparr>"

lemma host_node_wf [simp]: "wf_node (host_node d)"
  by (simp add: host_node_def wf_node_def)

lemma host_node_simps [simp]:
  "ip (host_node d) = IPv4 10 0 0 d" "port (host_node d) = 9999" "status (host_node d) = 1"
  "heartbeat (host_node d) = 5" "statusSource (host_node d) = None" "emitCounter (host_node d) = 0"
  by (simp_all add: host_node_def)

lemma two_hosts_addr [simp]:
  "addressOf [host_node 1, host_node 2] 0 = ''10.0.0.1:9999''"
  "addressOf [host_node 1, host_node 2] (Suc 0) = ''10.0.0.2:9999''"
proof -
  have "IPv4 a b c d \<noteq> []" for a b c d by (simp add: IPv4_def)
  then show "addressOf [host_node 1, host_node 2] 0 = ''10.0.0.1:9999''"
    "addressOf [host_node 1, host_node 2] (Suc 0) = ''10.0.0.2:9999''"
    by (simp_all add: addressOf_wf nodeAddressString_def IP_String_def decimal.simps digit_char_def char_of_def bit_0)
qed

lemma two_hosts_simps [simp]:
  "heap two_hosts = [host_node 1, host_node 2]"
  "knownNodes two_hosts = \<lparr>nodes = [(''10.0.0.1:9999'', 0), (''10.0.0.2:9999'', 1)]\<rparr>"
  "updatedNodes two_hosts = nodeMap_init" "deadNodeRetries two_hosts = []"
  "pendingAcks two_hosts = []" "broadcasts two_hosts = []" "thisHost two_hosts = Some 0"
  "spawned two_hosts = []" "ipLen two_hosts = IPv4len" "currentHeartbeat two_hosts = 7"
  "broadcastListeners two_hosts = [0]" "statusListeners two_hosts = [1]" "notified two_hosts = []"
  "indexCounter two_hosts = 1" "sent two_hosts = []" "clock two_hosts = 0"
  "pingdata two_hosts = newPingData 200 50"
  by (simp_all add: two_hosts_def init_smudge_def Let_def GetPingHistoryFrontload_def getIntVar_def
      initial_props_def DefaultPingHistoryFrontload_def)

lemma wf_two_hosts [simp]: "wf_state two_hosts"
  by (simp add: wf_state_def wf_parts pd_ok_new)
    (simp add: nodeMap_init_def keys_ok_def wf_map_def)

end
