(* ===== verification/Events.thy ===== *)
theory Events
  imports Invariant
begin

text \<open>
  \<open>src/events.go\<close>: registered listeners and their notification. A listener is user code;
  the model records that it is called, with which arguments and in which order, in the trace
  \<open>notified\<close>. What a listener does is not modelled.
\<close>

definition AddBroadcastListener :: "listener \<Rightarrow> smudge \<Rightarrow> smudge" where
  "AddBroadcastListener l s = s\<lparr>broadcastListeners := broadcastListeners s @ [l]\<rparr>"

definition doBroadcastUpdate :: "Broadcast \<Rightarrow> smudge \<Rightarrow> smudge" where
  "doBroadcastUpdate b s =
     fold (\<lambda>sl s. s\<lparr>notified := notified s @ [OnBroadcast sl b]\<rparr>) (broadcastListeners s) s"

definition AddStatusListener :: "listener \<Rightarrow> smudge \<Rightarrow> smudge" where
  "AddStatusListener l s = s\<lparr>statusListeners := statusListeners s @ [l]\<rparr>"

definition doStatusUpdate :: "node_ref \<Rightarrow> NodeStatus \<Rightarrow> smudge \<Rightarrow> smudge" where
  "doStatusUpdate r st s =
     fold (\<lambda>sl s. s\<lparr>notified := notified s @ [OnChange sl r st]\<rparr>) (statusListeners s) s"

section \<open>Lemmas\<close>

lemma notify_all:
  "fold (\<lambda>l s. s\<lparr>notified := notified s @ [f l]\<rparr>) ls s = s\<lparr>notified := notified s @ map f ls\<rparr>"
  by (induction ls arbitrary: s) simp_all

text \<open>Every registered listener is called once, in the order of registration.\<close>

lemma doStatusUpdate_eq:
  "doStatusUpdate r st s =
     s\<lparr>notified := notified s @ map (\<lambda>l. OnChange l r st) (statusListeners s)\<rparr>"
  by (simp add: doStatusUpdate_def notify_all)

lemma doBroadcastUpdate_eq:
  "doBroadcastUpdate b s =
     s\<lparr>notified := notified s @ map (\<lambda>l. OnBroadcast l b) (broadcastListeners s)\<rparr>"
  by (simp add: doBroadcastUpdate_def notify_all)

lemma wf_state_listeners [simp]:
  "wf_state (AddBroadcastListener l s) = wf_state s" "wf_state (AddStatusListener l s) = wf_state s"
  by (simp_all add: AddBroadcastListener_def AddStatusListener_def wf_state_def)

lemma wf_state_notify [simp]:
  "wf_state (doStatusUpdate r st s) = wf_state s" "wf_state (doBroadcastUpdate b s) = wf_state s"
  by (simp_all add: doStatusUpdate_eq doBroadcastUpdate_eq wf_state_def)

end
