(* ===== verification/Registry.thy ===== *)
theory Registry
  imports Events
begin

text \<open>
  \<open>src/registry.go\<close>: the known and the recently updated nodes. The state is passed
  explicitly; \<open>AddNode\<close> can panic. The resolver \<open>net.LookupIP\<close> and the interface list
  \<open>net.InterfaceAddrs\<close> are parameters. Log output is left out.
\<close>

section \<open>The operations\<close>

definition maxDeadNodeRetries :: int where "maxDeadNodeRetries = 10"

definition CreateNodeByIP :: "IP \<Rightarrow> uint16 \<Rightarrow> smudge \<Rightarrow> node_ref \<times> smudge" where
  "CreateNodeByIP a p s =
     (let n = \<lparr>ip = a, port = p, timestamp = now s, address = [], pingMillis = PingNoData,
               status = StatusUnknown, emitCounter = 0, heartbeat = 0, statusSource = None\<rparr>
      in (length (heap s), s\<lparr>heap := heap s @ [n]\<rparr>))"

definition updateNodeStatus ::
  "node_ref \<Rightarrow> NodeStatus \<Rightarrow> uint32 \<Rightarrow> node_ref option \<Rightarrow> smudge \<Rightarrow> smudge" where
  "updateNodeStatus r st hb src s =
     (if status (node s r) \<noteq> st then
        let s = modify_node r (\<lambda>n. n\<lparr>timestamp := now s, status := st, statusSource := src,
                  emitCounter := word_of_int (emitCount s), heartbeat := hb\<rparr>) s;
            s = (if \<not> nodeMap_contains (heap s) (updatedNodes s) r
                 then s\<lparr>updatedNodes := ins_node (heap s) (updatedNodes s) r\<rparr> else s);
            s = (if st \<noteq> StatusDead
                 then s\<lparr>deadNodeRetries := AList.delete (addr s r) (deadNodeRetries s)\<rparr> else s)
        in doStatusUpdate r st s
      else s)"

definition UpdateNodeStatus :: "node_ref \<Rightarrow> NodeStatus \<Rightarrow> node_ref option \<Rightarrow> smudge \<Rightarrow> smudge" where
  "UpdateNodeStatus r st src s = updateNodeStatus r st (heartbeat (node s r)) src s"

definition AddNode :: "node_ref \<Rightarrow> smudge \<Rightarrow> (node_ref \<times> smudge) outcome" where
  "AddNode r s =
     (if \<not> nodeMap_contains (heap s) (knownNodes s) r then
        bindR (if status (node s r) = StatusUnknown
               then Inr (UpdateNodeStatus r StatusAlive (thisHost s) s)
               else if status (node s r) = StatusForwardTo
               then Inl (PanicCall (''invalid status: '' @ NodeStatus_String StatusForwardTo))
               else Inr s) (\<lambda>s.
          let s = modify_node r (Touch (now s)) s;
              s = s\<lparr>knownNodes := ins_node (heap s) (knownNodes s) r\<rparr>;
              s = s\<lparr>knownNodesModifiedFlag := True\<rparr>
          in Inr (r, s))
      else Inr (r, s))"

definition RemoveNode :: "node_ref \<Rightarrow> smudge \<Rightarrow> node_ref \<times> smudge" where
  "RemoveNode r s =
     (if nodeMap_contains (heap s) (knownNodes s) r then
        let s = modify_node r (Touch (now s)) s;
            s = s\<lparr>knownNodes := del_node (heap s) (knownNodes s) r\<rparr>;
            s = s\<lparr>knownNodesModifiedFlag := True\<rparr>
        in (r, s)
      else (r, s))"

definition AllNodes :: "string list \<Rightarrow> smudge \<Rightarrow> node_ref list" where
  "AllNodes ord s = nodeMap_values ord (knownNodes s)"

definition HealthyNodes :: "string list \<Rightarrow> smudge \<Rightarrow> node_ref list" where
  "HealthyNodes ord s =
     foldl (\<lambda>filtered v. if Status (node s v) = StatusAlive then filtered @ [v] else filtered) []
       (nodeMap_values ord (knownNodes s))"

text \<open>
  Pruning and copying: the first loop of \<open>getRandomUpdatedNodes\<close> over the recently updated
  nodes, as the pair of the pruned map and the copy.
\<close>

definition prune_updated :: "heap \<Rightarrow> node_ref list \<Rightarrow> nodeMap \<Rightarrow> nodeMap \<times> nodeMap" where
  "prune_updated h vs m =
     fold (\<lambda>n (upd, cpy). if sint (emitCounter (h ! n)) \<le> 0 then (del_node h upd n, cpy)
                          else (upd, ins_node h cpy n)) vs (m, nodeMap_init)"

text \<open>
  \<open>sort.Sort\<close> is not stable, but it sorts a slice whose order was arbitrary to begin
  with, so a stable sort of an arbitrarily ordered slice gives the same set of outcomes.
\<close>

definition byNodeEmitCounter :: "heap \<Rightarrow> node_ref list \<Rightarrow> node_ref list" where
  "byNodeEmitCounter h ns = sort_key (\<lambda>n. - sint (emitCounter (h ! n))) ns"

definition getRandomUpdatedNodes ::
  "string list \<Rightarrow> string list \<Rightarrow> int \<Rightarrow> node_ref list \<Rightarrow> smudge \<Rightarrow> (node_ref list \<times> smudge) outcome" where
  "getRandomUpdatedNodes ord1 ord2 sz exclude s =
     (let (upd, cpy) = prune_updated (heap s) (nodeMap_values ord1 (updatedNodes s)) (updatedNodes s);
          s = s\<lparr>updatedNodes := upd\<rparr>;
          cpy = fold (\<lambda>ex m. del_node (heap s) m ex) exclude cpy;
          slice = byNodeEmitCounter (heap s) (nodeMap_values ord2 cpy);
          sz = (if sz > int (length slice) then int (length slice) else sz)
      in if sz < 0 then Inl SliceOutOfRange else Inr (take (nat sz) slice, s))"

section \<open>Addresses given as text\<close>

datatype go_error =
    ErrMsg string
  | ErrParseUint
  | ErrLookupIP
  | ErrNet

definition IsLoopback :: "IP \<Rightarrow> bool" where
  "IsLoopback a \<longleftrightarrow>
     (if To4 a \<noteq> [] then hd (To4 a) = 127 else a = replicate 15 0 @ [1])"

text \<open>
  The variable \<open>err\<close> of the \<open>LookupIP\<close> block shadows the outer one, so the message that no
  address was usable is lost: the function returns the outer \<open>err\<close>.
\<close>

definition pick_ip :: "IP \<Rightarrow> IP list \<Rightarrow> IP" where
  "pick_ip listen ips =
     (case List.find (\<lambda>i. \<not> IsLoopback i \<and> (To4 listen \<noteq> [] \<longleftrightarrow> To4 i \<noteq> [])) ips of
        None \<Rightarrow> [] | Some i \<Rightarrow> i)"

definition parseNodeAddress ::
  "(string \<Rightarrow> IP list option) \<Rightarrow> string \<Rightarrow> smudge \<Rightarrow> IP \<times> uint16 \<times> go_error option" where
  "parseNodeAddress lookupIP hostAndMaybePort s =
     (let (host, a, p, err) =
        (case SplitHostPort hostAndMaybePort of
           Some (host, sport) \<Rightarrow>
             (if sport \<noteq> [] then
                (let (v, bad) = ParseUint16 sport
                 in (host, ParseIP host, v, if bad then Some ErrParseUint else None))
              else (host, ParseIP host, word_of_int (listenPortOf s), None))
         | None \<Rightarrow>
             (hostAndMaybePort, ParseIP hostAndMaybePort, word_of_int (listenPortOf s), None))
      in if a = [] then
           (case lookupIP host of
              None \<Rightarrow> (a, p, Some ErrLookupIP)
            | Some ips \<Rightarrow> (pick_ip (fst (GetListenIP (environ s) (config s))) ips, p, err))
         else (a, p, err))"

definition CreateNodeByAddress ::
  "(string \<Rightarrow> IP list option) \<Rightarrow> string \<Rightarrow> smudge \<Rightarrow> (go_error + node_ref) \<times> smudge" where
  "CreateNodeByAddress lookupIP a s =
     (let (i, p, err) = parseNodeAddress lookupIP a s in
      case err of
        None \<Rightarrow> (let (r, s) = CreateNodeByIP i p s in (Inr r, s))
      | Some e \<Rightarrow> (Inl e, s))"

text \<open>
  \<open>GetLocalIP\<close>: the interface list is \<open>None\<close> when the query fails; an entry is
  \<open>None\<close> when it is not an \<open>*net.IPNet\<close>.
\<close>

fun local_ip :: "IP \<Rightarrow> IP option list \<Rightarrow> IP" where
  "local_ip acc [] = acc"
| "local_ip acc (None # as) = local_ip acc as"
| "local_ip acc (Some a # as) =
     (if IsLoopback a then local_ip acc as
      else if To4 a \<noteq> [] then local_ip (To4 a) as
      else a)"

definition GetLocalIP :: "IP option list option \<Rightarrow> IP option" where
  "GetLocalIP addrs = map_option (local_ip []) addrs"

section \<open>Projections of the updated state\<close>

lemma modify_node_simps [simp]:
  "heap (modify_node r f s) = modify r f (heap s)"
  "knownNodes (modify_node r f s) = knownNodes s"
  "updatedNodes (modify_node r f s) = updatedNodes s"
  "deadNodeRetries (modify_node r f s) = deadNodeRetries s"
  "pendingAcks (modify_node r f s) = pendingAcks s"
  "broadcasts (modify_node r f s) = broadcasts s"
  "currentHeartbeat (modify_node r f s) = currentHeartbeat s"
  "thisHost (modify_node r f s) = thisHost s"
  "thisHostAddress (modify_node r f s) = thisHostAddress s"
  "statusListeners (modify_node r f s) = statusListeners s"
  "broadcastListeners (modify_node r f s) = broadcastListeners s"
  "notified (modify_node r f s) = notified s"
  "sent (modify_node r f s) = sent s"
  "spawned (modify_node r f s) = spawned s"
  "ipLen (modify_node r f s) = ipLen s"
  "pingdata (modify_node r f s) = pingdata s"
  "indexCounter (modify_node r f s) = indexCounter s"
  "environ (modify_node r f s) = environ s"
  "config (modify_node r f s) = config s"
  "clock (modify_node r f s) = clock s"
  "knownNodesModifiedFlag (modify_node r f s) = knownNodesModifiedFlag s"
  "now (modify_node r f s) = now s"
  "emitCount (modify_node r f s) = emitCount s"
  by (simp_all add: modify_node_def now_def emitCount_def)

text \<open>The fields a status update leaves alone.\<close>

lemma updateNodeStatus_frame [simp]:
  "knownNodes (updateNodeStatus r st hb src s) = knownNodes s"
  "pendingAcks (updateNodeStatus r st hb src s) = pendingAcks s"
  "broadcasts (updateNodeStatus r st hb src s) = broadcasts s"
  "currentHeartbeat (updateNodeStatus r st hb src s) = currentHeartbeat s"
  "thisHost (updateNodeStatus r st hb src s) = thisHost s"
  "sent (updateNodeStatus r st hb src s) = sent s"
  "spawned (updateNodeStatus r st hb src s) = spawned s"
  "ipLen (updateNodeStatus r st hb src s) = ipLen s"
  "pingdata (updateNodeStatus r st hb src s) = pingdata s"
  "indexCounter (updateNodeStatus r st hb src s) = indexCounter s"
  "environ (updateNodeStatus r st hb src s) = environ s"
  "config (updateNodeStatus r st hb src s) = config s"
  "clock (updateNodeStatus r st hb src s) = clock s"
  "length (heap (updateNodeStatus r st hb src s)) = length (heap s)"
  by (simp_all add: updateNodeStatus_def doStatusUpdate_eq Let_def)

lemma contains_iff: "nodeMap_contains h m r \<longleftrightarrow> getByAddress m (addressOf h r) \<noteq> None"
  by (simp add: nodeMap_contains_def containsByAddress_def getByAddress_def has_key_iff)

section \<open>Status updates\<close>

definition status_written :: "NodeStatus \<Rightarrow> uint32 \<Rightarrow> node_ref option \<Rightarrow> smudge \<Rightarrow> Node \<Rightarrow> Node" where
  "status_written st hb src s n = n\<lparr>timestamp := now s, status := st, statusSource := src,
     emitCounter := word_of_int (emitCount s), heartbeat := hb\<rparr>"

lemma status_written_id [simp]: "same_id n (status_written st hb src s n)"
  by (simp add: status_written_def same_id_def)

text \<open>The three stages of a status update, each of which keeps the invariant.\<close>

definition note_updated :: "node_ref \<Rightarrow> smudge \<Rightarrow> smudge" where
  "note_updated r s =
     (if \<not> nodeMap_contains (heap s) (updatedNodes s) r
      then s\<lparr>updatedNodes := ins_node (heap s) (updatedNodes s) r\<rparr> else s)"

definition drop_retry :: "node_ref \<Rightarrow> NodeStatus \<Rightarrow> smudge \<Rightarrow> smudge" where
  "drop_retry r st s =
     (if st \<noteq> StatusDead
      then s\<lparr>deadNodeRetries := AList.delete (addr s r) (deadNodeRetries s)\<rparr> else s)"

lemma updateNodeStatus_stages:
  "status (node s r) \<noteq> st \<Longrightarrow> updateNodeStatus r st hb src s =
     doStatusUpdate r st (drop_retry r st (note_updated r (modify_node r (status_written st hb src s) s)))"
  by (simp only: updateNodeStatus_def note_updated_def drop_retry_def status_written_def [abs_def]
      Let_def if_True not_False_eq_True)

lemma stage_simps [simp]:
  "heap (note_updated r s) = heap s" "heap (drop_retry r st s) = heap s"
  "heap (doStatusUpdate r st s) = heap s"
  "deadNodeRetries (note_updated r s) = deadNodeRetries s"
  "updatedNodes (drop_retry r st s) = updatedNodes s"
  "updatedNodes (doStatusUpdate r st s) = updatedNodes s"
  "notified (note_updated r s) = notified s" "notified (drop_retry r st s) = notified s"
  "statusListeners (note_updated r s) = statusListeners s"
  "statusListeners (drop_retry r st s) = statusListeners s"
  "deadNodeRetries (doStatusUpdate r st s) = deadNodeRetries s"
  by (simp_all add: note_updated_def drop_retry_def doStatusUpdate_eq)

lemma updateNodeStatus_same: "status (node s r) = st \<Longrightarrow> updateNodeStatus r st hb src s = s"
  by (simp add: updateNodeStatus_def)

lemma updateNodeStatus_heap:
  "status (node s r) \<noteq> st \<Longrightarrow>
     heap (updateNodeStatus r st hb src s) = modify r (status_written st hb src s) (heap s)"
  by (simp add: updateNodeStatus_stages)

lemma updateNodeStatus_extends [simp]: "extends (heap s) (heap (updateNodeStatus r st hb src s))"
  by (cases "status (node s r) = st")
    (simp_all add: updateNodeStatus_same updateNodeStatus_heap extends_modify)

lemma updateNodeStatus_node:
  assumes "r < length (heap s)"
  shows "node (updateNodeStatus r st hb src s) q =
    (if q = r \<and> status (node s r) \<noteq> st then status_written st hb src s (node s r) else node s q)"
  using assms
  by (cases "status (node s r) = st")
    (auto simp: updateNodeStatus_same updateNodeStatus_heap modify_nth)

lemma updateNodeStatus_updated:
  assumes "status (node s r) \<noteq> st" and "map_ok (heap s) (updatedNodes s)"
  shows "getByAddress (updatedNodes (updateNodeStatus r st hb src s)) k =
    (if k = addr s r \<and> getByAddress (updatedNodes s) k = None then Some r
     else getByAddress (updatedNodes s) k)"
  unfolding updateNodeStatus_stages [OF assms(1)]
  by (auto simp: note_updated_def contains_iff reg.look_ins addressOf_modify)

lemma updateNodeStatus_retries:
  assumes "status (node s r) \<noteq> st"
  shows "deadNodeRetries (updateNodeStatus r st hb src s) =
    (if st = StatusDead then deadNodeRetries s else AList.delete (addr s r) (deadNodeRetries s))"
  unfolding updateNodeStatus_stages [OF assms] by (simp add: drop_retry_def addressOf_modify)

lemma updateNodeStatus_notified:
  assumes "status (node s r) \<noteq> st"
  shows "notified (updateNodeStatus r st hb src s) =
    notified s @ map (\<lambda>l. OnChange l r st) (statusListeners s)"
  unfolding updateNodeStatus_stages [OF assms] by (simp add: doStatusUpdate_eq)

lemma wf_node_status_written:
  "wf_node n \<Longrightarrow> st \<noteq> StatusForwardTo \<Longrightarrow> wf_node (status_written st hb src s n)"
  by (simp add: wf_node_def status_written_def)

lemma wf_state_note_updated: "wf_state s \<Longrightarrow> r < length (heap s) \<Longrightarrow> wf_state (note_updated r s)"
  by (simp add: note_updated_def map_ok_ins wf_stateD)

lemma wf_state_drop_retry: "wf_state s \<Longrightarrow> wf_state (drop_retry r st s)"
  by (simp add: drop_retry_def wf_stateD)

lemma wf_state_status_written:
  assumes "wf_state s" and "r < length (heap s)" and "st \<noteq> StatusForwardTo" and "ref_ok (heap s) src"
  shows "wf_state (modify_node r (status_written st hb src s) s)"
  unfolding modify_node_def
proof (rule wf_state_heap [OF assms(1)])
  show "extends (heap s) (modify r (status_written st hb src s) (heap s))"
    by (simp add: extends_modify)
  have "ref_ok (heap s) (statusSource (status_written st hb src s n))" for n
    using assms(4) by (simp add: status_written_def)
  then show "wf_heap (modify r (status_written st hb src s) (heap s))"
    using wf_stateD(1) [OF assms(1)] assms(2,3)
    by (intro wf_heap_modify conjI wf_node_status_written wf_heap_nth)
qed

lemma wf_state_updateNodeStatus:
  assumes "wf_state s" and "r < length (heap s)" and "st \<noteq> StatusForwardTo" and "ref_ok (heap s) src"
  shows "wf_state (updateNodeStatus r st hb src s)"
proof (cases "status (node s r) = st")
  case True
  then show ?thesis using assms(1) by (simp add: updateNodeStatus_same)
next
  case False
  have "wf_state (modify_node r (status_written st hb src s) s)"
    using assms by (rule wf_state_status_written)
  then show ?thesis
    using assms(2) by (simp add: updateNodeStatus_stages [OF False] wf_state_drop_retry wf_state_note_updated)
qed

lemma UpdateNodeStatus_frame [simp]:
  "length (heap (UpdateNodeStatus r st src s)) = length (heap s)"
  "knownNodes (UpdateNodeStatus r st src s) = knownNodes s"
  "extends (heap s) (heap (UpdateNodeStatus r st src s))"
  by (simp_all add: UpdateNodeStatus_def)

section \<open>Adding and removing nodes\<close>

lemma Touch_id [simp]: "same_id n (Touch t n)"
  by (simp add: Touch_def same_id_def)

lemma wf_state_touch: "wf_state s \<Longrightarrow> wf_state (modify_node r (Touch t) s)"
  by (rule wf_state_modify_node) (simp_all add: Touch_def wf_node_def same_id_def)

text \<open>The state in which \<open>AddNode\<close> files the node: with a status, and touched.\<close>

definition prepared :: "node_ref \<Rightarrow> smudge \<Rightarrow> smudge" where
  "prepared r s =
     (let s = (if status (node s r) = StatusUnknown
               then UpdateNodeStatus r StatusAlive (thisHost s) s else s)
      in modify_node r (Touch (now s)) s)"

lemma AddNode_known: "nodeMap_contains (heap s) (knownNodes s) r \<Longrightarrow> AddNode r s = Inr (r, s)"
  by (simp add: AddNode_def)

lemma AddNode_new:
  assumes "\<not> nodeMap_contains (heap s) (knownNodes s) r" and "status (node s r) \<noteq> StatusForwardTo"
  shows "AddNode r s = Inr (r, (prepared r s)\<lparr>
    knownNodes := ins_node (heap (prepared r s)) (knownNodes s) r, knownNodesModifiedFlag := True\<rparr>)"
  using assms by (simp add: AddNode_def prepared_def Let_def)

lemma prepared_simps [simp]:
  "length (heap (prepared r s)) = length (heap s)"
  "knownNodes (prepared r s) = knownNodes s"
  "extends (heap s) (heap (prepared r s))"
proof -
  show "length (heap (prepared r s)) = length (heap s)" "knownNodes (prepared r s) = knownNodes s"
    by (simp_all add: prepared_def Let_def)
  show "extends (heap s) (heap (prepared r s))"
    unfolding prepared_def Let_def modify_node_simps
    by (rule extends_trans [OF _ extends_modify [OF Touch_id]]) simp
qed

lemma wf_state_prepared:
  assumes "wf_state s" and "r < length (heap s)"
  shows "wf_state (prepared r s)"
  using assms wf_stateD(7) [OF assms(1)]
  by (auto simp: prepared_def Let_def UpdateNodeStatus_def
      intro!: wf_state_touch wf_state_updateNodeStatus)

lemma AddNode_ok:
  assumes "wf_state s" and "r < length (heap s)"
  shows "\<exists>s'. AddNode r s = Inr (r, s') \<and> wf_state s' \<and> extends (heap s) (heap s') \<and>
    nodeMap_contains (heap s') (knownNodes s') r"
proof (cases "nodeMap_contains (heap s) (knownNodes s) r")
  case True
  then show ?thesis using assms by (simp add: AddNode_known)
next
  case False
  let ?p = "prepared r s"
  have "status (node s r) \<noteq> StatusForwardTo"
    using wf_heap_nth [OF wf_stateD(1)] assms by (auto simp: wf_node_def)
  with False have eq: "AddNode r s = Inr (r, ?p\<lparr>
      knownNodes := ins_node (heap ?p) (knownNodes s) r, knownNodesModifiedFlag := True\<rparr>)"
    by (rule AddNode_new)
  have wf: "wf_state ?p" using assms by (rule wf_state_prepared)
  have "map_ok (heap ?p) (ins_node (heap ?p) (knownNodes s) r)"
    using wf_stateD(2) [OF wf] assms(2) by (intro map_ok_ins) simp_all
  with wf eq show ?thesis by (simp add: contains_iff reg.look_ins)
qed

lemma RemoveNode_ok:
  assumes "wf_state s"
  shows "wf_state (snd (RemoveNode r s)) \<and> extends (heap s) (heap (snd (RemoveNode r s)))"
proof -
  let ?t = "modify_node r (Touch (now s)) s"
  have "wf_state ?t" using assms by (rule wf_state_touch)
  moreover have "map_ok (heap ?t) (del_node (heap ?t) (knownNodes ?t) r)"
    using wf_stateD(2) [OF calculation] by (rule map_ok_del)
  ultimately show ?thesis using assms
    by (simp add: RemoveNode_def Let_def extends_modify)
qed

lemma RemoveNode_lookup:
  "getByAddress (knownNodes (snd (RemoveNode r s))) k =
     (if k = addr s r then None else getByAddress (knownNodes s) k)"
  by (auto simp: RemoveNode_def Let_def contains_iff reg.look_del addressOf_modify)

section \<open>Recently updated nodes\<close>

text \<open>
  The contract of a pool of items that are emitted a limited number of times: items at or
  below the limit are dropped and the rest are offered in descending order of their counters.
\<close>

locale emit_pool =
  fixes counter :: "'e \<Rightarrow> int"
    and limit :: int
    and offer :: "'e list \<Rightarrow> 'e list"
  assumes offer_mset: "mset (offer es) = mset (filter (\<lambda>e. limit < counter e) es)"
    and offer_sorted: "sorted_wrt (\<lambda>a b. counter b \<le> counter a) (offer es)"
begin

lemma offer_set: "set (offer es) = {e \<in> set es. limit < counter e}"
  using arg_cong [OF offer_mset, of set_mset] by simp

lemma offer_top:
  assumes "a \<in> set (take n (offer es))" and "b \<in> set (drop n (offer es))"
  shows "counter b \<le> counter a"
proof -
  have "sorted_wrt (\<lambda>a b. counter b \<le> counter a) (take n (offer es) @ drop n (offer es))"
    using offer_sorted by simp
  then show ?thesis using assms by (simp only: sorted_wrt_append)
qed

lemma offer_first:
  assumes "offer es = e # rest" and "b \<in> set es" and "limit < counter b"
  shows "counter b \<le> counter e"
  using assms offer_sorted [of es] offer_set [of es] by auto

lemma offer_empty_iff: "offer es = [] \<longleftrightarrow> (\<forall>e \<in> set es. counter e \<le> limit)"
  using offer_set [of es] by (auto simp: not_less simp flip: set_empty2)

end

lemma sort_key_desc: "sorted_wrt (\<lambda>a b. f b \<le> (f a :: int)) (sort_key (\<lambda>x. - f x) xs)"
  using sorted_sort_key [of "\<lambda>x. - f x" xs] by (simp add: sorted_wrt_map)

definition node_counter :: "heap \<Rightarrow> node_ref \<Rightarrow> int" where
  "node_counter h n = sint (emitCounter (h ! n))"

interpretation updates: emit_pool "node_counter h" 0
  "\<lambda>ns. byNodeEmitCounter h (filter (\<lambda>n. 0 < node_counter h n) ns)" for h
  by unfold_locales (simp_all add: byNodeEmitCounter_def node_counter_def sort_key_desc)

lemma prune_fold:
  fixes h vs
  defines "step \<equiv> \<lambda>n (upd, cpy). if sint (emitCounter (h ! n)) \<le> 0 then (del_node h upd n, cpy)
    else (upd, ins_node h cpy n)"
  assumes "inj_on (addressOf h) (set vs)" and "distinct vs"
  shows "getByAddress (fst (fold step vs (upd, cpy))) k =
      (if \<exists>n \<in> set vs. node_counter h n \<le> 0 \<and> addressOf h n = k then None else getByAddress upd k)"
    and "getByAddress (snd (fold step vs (upd, cpy))) k = Some r \<longleftrightarrow>
      (r \<in> set vs \<and> 0 < node_counter h r \<and> addressOf h r = k) \<or>
      (getByAddress cpy k = Some r \<and> (\<forall>n \<in> set vs. 0 < node_counter h n \<longrightarrow> addressOf h n \<noteq> k))"
  using assms(2,3)
proof (induction vs arbitrary: upd cpy)
  case Nil
  {
    case 1
    then show ?case by simp
  next
    case 2
    then show ?case by simp
  }
next
  case (Cons v vs)
  {
    case 1
    then show ?case using Cons.IH(1)
      by (auto simp: step_def node_counter_def reg.look_del)
  next
    case 2
    have ne: "addressOf h n \<noteq> addressOf h v" if "n \<in> set vs" for n
      using 2 that by (auto simp: inj_on_def)
    from 2 show ?case using Cons.IH(2) ne
      by (auto simp: step_def node_counter_def reg.look_ins not_le split: if_splits)
  }
qed

lemma prune_updated_lookup:
  assumes "keys_ok h m" and "prune_updated h (nodeMap_values ord m) m = (upd, cpy)"
  shows "getByAddress upd k = Some r \<longleftrightarrow> getByAddress m k = Some r \<and> 0 < node_counter h r"
    and "getByAddress cpy k = Some r \<longleftrightarrow> getByAddress m k = Some r \<and> 0 < node_counter h r"
proof -
  let ?vs = "nodeMap_values ord m"
  have inj: "inj_on (addressOf h) (set ?vs)"
    using reg.same_address_same_node [OF assms(1)] by (auto intro: inj_onI)
  have look: "n \<in> set ?vs \<and> addressOf h n = k \<longleftrightarrow> getByAddress m k = Some n" for n k
    using values_iff [OF assms(1)] reg.look_addr [OF assms(1)] by blast
  note facts = prune_fold [OF inj distinct_values [OF assms(1)], of m nodeMap_init]
  have upd: "upd = fst (prune_updated h ?vs m)" and cpy: "cpy = snd (prune_updated h ?vs m)"
    using assms(2) by simp_all
  have "getByAddress upd k = (if \<exists>n. node_counter h n \<le> 0 \<and> getByAddress m k = Some n then None
      else getByAddress m k)"
    unfolding upd prune_updated_def facts(1) using look by auto
  then show "getByAddress upd k = Some r \<longleftrightarrow> getByAddress m k = Some r \<and> 0 < node_counter h r"
    by (cases "node_counter h r \<le> 0") auto
  show "getByAddress cpy k = Some r \<longleftrightarrow> getByAddress m k = Some r \<and> 0 < node_counter h r"
    unfolding cpy prune_updated_def facts(2) using look by (auto simp: reg.look_empty)
qed

lemma prune_updated_ok:
  assumes "map_ok h m" and "set vs \<subseteq> {r. r < length h}"
  shows "map_ok h (fst (prune_updated h vs m)) \<and> map_ok h (snd (prune_updated h vs m))"
proof -
  have "map_ok h (fst (fold (\<lambda>n (upd, cpy). if sint (emitCounter (h ! n)) \<le> 0
        then (del_node h upd n, cpy) else (upd, ins_node h cpy n)) vs (a, b))) \<and>
      map_ok h (snd (fold (\<lambda>n (upd, cpy). if sint (emitCounter (h ! n)) \<le> 0
        then (del_node h upd n, cpy) else (upd, ins_node h cpy n)) vs (a, b)))"
    if "map_ok h a" "map_ok h b" for a b
    using that assms(2)
    by (induction vs arbitrary: a b) (auto simp: map_ok_del map_ok_ins)
  then show ?thesis using assms(1) by (simp add: prune_updated_def)
qed

lemma delete_all:
  "map_ok h m \<Longrightarrow> map_ok h (fold (\<lambda>x m. del_node h m x) xs m)"
  "getByAddress (fold (\<lambda>x m. del_node h m x) xs m) k =
     (if k \<in> addressOf h ` set xs then None else getByAddress m k)"
  by (induction xs arbitrary: m) (auto simp: map_ok_del reg.look_del)

lemma excluded_iff: "excluded h ex r \<longleftrightarrow> addressOf h r \<in> addressOf h ` set ex"
  by (auto simp: excluded_def list_ex_iff)

text \<open>The nodes that may be gossiped about: updated, with emissions left, not excluded.\<close>

definition gossip_pool :: "smudge \<Rightarrow> node_ref list \<Rightarrow> node_ref set" where
  "gossip_pool s ex = {r. getByAddress (updatedNodes s) (addr s r) = Some r \<and>
     0 < node_counter (heap s) r \<and> \<not> excluded (heap s) ex r}"

lemma getRandomUpdatedNodes_eq:
  assumes "map_ok (heap s) (updatedNodes s)" and "0 \<le> sz"
  shows "\<exists>vs upd. getRandomUpdatedNodes ord1 ord2 sz ex s =
      Inr (take (nat sz) (byNodeEmitCounter (heap s) (filter (\<lambda>n. 0 < node_counter (heap s) n) vs)),
           s\<lparr>updatedNodes := upd\<rparr>) \<and>
    set vs = gossip_pool s ex \<and> distinct vs \<and> map_ok (heap s) upd \<and>
    (\<forall>k r. getByAddress upd k = Some r \<longleftrightarrow>
       getByAddress (updatedNodes s) k = Some r \<and> 0 < node_counter (heap s) r)"
proof -
  let ?h = "heap s" and ?m = "updatedNodes s"
  obtain upd cpy where p: "prune_updated ?h (nodeMap_values ord1 ?m) ?m = (upd, cpy)" by fastforce
  define cpy' where "cpy' = fold (\<lambda>x m. del_node ?h m x) ex cpy"
  define vs where "vs = nodeMap_values ord2 cpy'"
  note look = prune_updated_lookup [OF map_ok_keys [OF assms(1)] p]
  have "set (nodeMap_values ord1 ?m) \<subseteq> {r. r < length ?h}"
    using map_ok_values [OF assms(1)] by auto
  then have ok: "map_ok ?h upd" "map_ok ?h cpy" using prune_updated_ok [OF assms(1)] p by fastforce+
  then have ok': "map_ok ?h cpy'" unfolding cpy'_def by (intro delete_all)
  have mem: "r \<in> set vs \<longleftrightarrow> r \<in> gossip_pool s ex" for r
  proof -
    have "r \<in> set vs \<longleftrightarrow> getByAddress cpy' (addr s r) = Some r"
      unfolding vs_def by (rule values_iff [OF map_ok_keys [OF ok']])
    then show ?thesis
      unfolding cpy'_def delete_all(2) gossip_pool_def
      using look(2) [of "addr s r" r] by (auto simp: excluded_iff)
  qed
  then have pos: "filter (\<lambda>n. 0 < node_counter ?h n) vs = vs" by (auto simp: gossip_pool_def filter_id_conv)
  have len: "length (byNodeEmitCounter ?h vs) = length vs" by (simp add: byNodeEmitCounter_def)
  have "getRandomUpdatedNodes ord1 ord2 sz ex s =
      Inr (take (nat sz) (byNodeEmitCounter ?h vs), s\<lparr>updatedNodes := upd\<rparr>)"
    using assms(2) by (auto simp: getRandomUpdatedNodes_def p Let_def len simp flip: cpy'_def vs_def)
  moreover have "distinct vs" using map_ok_keys [OF ok'] by (simp add: vs_def distinct_values)
  ultimately show ?thesis using mem pos ok look(1) by (intro exI [of _ vs] exI [of _ upd]) auto
qed

text \<open>With no known node at all, the size is negative and the slice expression panics.\<close>

lemma getRandomUpdatedNodes_negative:
  "sz < 0 \<Longrightarrow> getRandomUpdatedNodes ord1 ord2 sz ex s = Inl SliceOutOfRange"
  by (simp add: getRandomUpdatedNodes_def Let_def split: prod.splits)

lemma HealthyNodes_eq:
  "HealthyNodes ord s =
     filter (\<lambda>r. status (node s r) = StatusAlive) (nodeMap_values ord (knownNodes s))"
proof -
  have "foldl (\<lambda>fs v. if Status (node s v) = StatusAlive then fs @ [v] else fs) acc vs =
      acc @ filter (\<lambda>r. status (node s r) = StatusAlive) vs" for acc vs
    by (induction vs arbitrary: acc) auto
  then show ?thesis by (simp add: HealthyNodes_def)
qed

end
