(* ===== verification/Bytes.thy ===== *)
theory Bytes
  imports Prelude
begin

text \<open>
  \<open>src/bytes.go\<close>: fixed-width little-endian encoders and decoders over byte slices. A
  decoder returns the value and the index after it; an encoder writes into the buffer it is
  given and returns the number of bytes written, here paired with the updated buffer. An index
  past the slice's length panics. The locale \<open>fixed_codec\<close> is the contract the message
  and broadcast codecs rely on; it is interpreted on every pair of routines of the file.
\<close>

section \<open>Decoders\<close>

definition decodeByte :: "gslice \<Rightarrow> nat \<Rightarrow> (byte \<times> nat) outcome" where
  "decodeByte bytes startIndex =
     bindR (sindex bytes startIndex) (\<lambda>b. Inr (b, startIndex + 1))"

definition decodeUint8 :: "gslice \<Rightarrow> nat \<Rightarrow> (byte \<times> nat) outcome" where
  "decodeUint8 bytes startIndex = bindR (decodeByte bytes startIndex) (\<lambda>(n, i). Inr (n, i))"

definition decodeUint16 :: "gslice \<Rightarrow> nat \<Rightarrow> (uint16 \<times> nat) outcome" where
  "decodeUint16 bytes startIndex =
     bindR (sindex bytes (startIndex + 1)) (\<lambda>b1.
     bindR (sindex bytes (startIndex + 0)) (\<lambda>b0.
       Inr (push_bit 8 (ucast b1) OR ucast b0, startIndex + 2)))"

definition decodeUint32 :: "gslice \<Rightarrow> nat \<Rightarrow> (uint32 \<times> nat) outcome" where
  "decodeUint32 bytes startIndex =
     bindR (sindex bytes (startIndex + 3)) (\<lambda>b3.
     bindR (sindex bytes (startIndex + 2)) (\<lambda>b2.
     bindR (sindex bytes (startIndex + 1)) (\<lambda>b1.
     bindR (sindex bytes (startIndex + 0)) (\<lambda>b0.
       Inr (push_bit 24 (ucast b3) OR push_bit 16 (ucast b2) OR push_bit 8 (ucast b1) OR
            ucast b0, startIndex + 4)))))"

definition decodeUint64 :: "gslice \<Rightarrow> nat \<Rightarrow> (uint64 \<times> nat) outcome" where
  "decodeUint64 bytes startIndex =
     bindR (sindex bytes (startIndex + 7)) (\<lambda>b7.
     bindR (sindex bytes (startIndex + 6)) (\<lambda>b6.
     bindR (sindex bytes (startIndex + 5)) (\<lambda>b5.
     bindR (sindex bytes (startIndex + 4)) (\<lambda>b4.
     bindR (sindex bytes (startIndex + 3)) (\<lambda>b3.
     bindR (sindex bytes (startIndex + 2)) (\<lambda>b2.
     bindR (sindex bytes (startIndex + 1)) (\<lambda>b1.
     bindR (sindex bytes (startIndex + 0)) (\<lambda>b0.
       Inr (push_bit 56 (ucast b7) OR push_bit 48 (ucast b6) OR push_bit 40 (ucast b5) OR
            push_bit 32 (ucast b4) OR push_bit 24 (ucast b3) OR push_bit 16 (ucast b2) OR
            push_bit 8 (ucast b1) OR ucast b0, startIndex + 8)))))))))"

section \<open>Encoders\<close>

definition encodeByte :: "byte \<Rightarrow> byte list \<Rightarrow> nat \<Rightarrow> (byte list \<times> nat) outcome" where
  "encodeByte number bytes startIndex =
     bindR (setIdx bytes (startIndex + 0) number) (\<lambda>bytes. Inr (bytes, 1))"

definition encodeUint8 :: "byte \<Rightarrow> byte list \<Rightarrow> nat \<Rightarrow> (byte list \<times> nat) outcome" where
  "encodeUint8 number bytes startIndex = encodeByte number bytes startIndex"

definition encodeUint16 :: "uint16 \<Rightarrow> byte list \<Rightarrow> nat \<Rightarrow> (byte list \<times> nat) outcome" where
  "encodeUint16 number bytes startIndex =
     bindR (setIdx bytes (startIndex + 0) (ucast number)) (\<lambda>bytes.
     bindR (setIdx bytes (startIndex + 1) (ucast (drop_bit 8 number))) (\<lambda>bytes.
       Inr (bytes, 2)))"

definition encodeUint32 :: "uint32 \<Rightarrow> byte list \<Rightarrow> nat \<Rightarrow> (byte list \<times> nat) outcome" where
  "encodeUint32 number bytes startIndex =
     bindR (setIdx bytes (startIndex + 0) (ucast number)) (\<lambda>bytes.
     bindR (setIdx bytes (startIndex + 1) (ucast (drop_bit 8 number))) (\<lambda>bytes.
     bindR (setIdx bytes (startIndex + 2) (ucast (drop_bit 16 number))) (\<lambda>bytes.
     bindR (setIdx bytes (startIndex + 3) (ucast (drop_bit 24 number))) (\<lambda>bytes.
       Inr (bytes, 4)))))"

definition encodeUint64 :: "uint64 \<Rightarrow> byte list \<Rightarrow> nat \<Rightarrow> (byte list \<times> nat) outcome" where
  "encodeUint64 number bytes startIndex =
     bindR (setIdx bytes (startIndex + 0) (ucast number)) (\<lambda>bytes.
     bindR (setIdx bytes (startIndex + 1) (ucast (drop_bit 8 number))) (\<lambda>bytes.
     bindR (setIdx bytes (startIndex + 2) (ucast (drop_bit 16 number))) (\<lambda>bytes.
     bindR (setIdx bytes (startIndex + 3) (ucast (drop_bit 24 number))) (\<lambda>bytes.
     bindR (setIdx bytes (startIndex + 4) (ucast (drop_bit 32 number))) (\<lambda>bytes.
     bindR (setIdx bytes (startIndex + 5) (ucast (drop_bit 40 number))) (\<lambda>bytes.
     bindR (setIdx bytes (startIndex + 6) (ucast (drop_bit 48 number))) (\<lambda>bytes.
     bindR (setIdx bytes (startIndex + 7) (ucast (drop_bit 56 number))) (\<lambda>bytes.
       Inr (bytes, 8)))))))))"

section \<open>Wire images\<close>

text \<open>The bytes that represent a value on the wire, least significant first.\<close>

definition le8 :: "byte \<Rightarrow> byte list" where
  "le8 w = [w]"

definition le16 :: "uint16 \<Rightarrow> byte list" where
  "le16 w = [ucast w, ucast (drop_bit 8 w)]"

definition le32 :: "uint32 \<Rightarrow> byte list" where
  "le32 w = [ucast w, ucast (drop_bit 8 w), ucast (drop_bit 16 w), ucast (drop_bit 24 w)]"

definition le64 :: "uint64 \<Rightarrow> byte list" where
  "le64 w = [ucast w, ucast (drop_bit 8 w), ucast (drop_bit 16 w), ucast (drop_bit 24 w),
     ucast (drop_bit 32 w), ucast (drop_bit 40 w), ucast (drop_bit 48 w), ucast (drop_bit 56 w)]"

lemmas le_defs = le8_def le16_def le32_def le64_def

lemma length_le [simp]:
  "length (le8 b) = 1" "length (le16 w) = 2" "length (le32 v) = 4" "length (le64 u) = 8"
  by (simp_all add: le_defs)

section \<open>The codec contract\<close>

locale fixed_codec =
  fixes enc :: "'w \<Rightarrow> byte list \<Rightarrow> nat \<Rightarrow> (byte list \<times> nat) outcome"
    and dec :: "gslice \<Rightarrow> nat \<Rightarrow> ('w \<times> nat) outcome"
    and image :: "'w \<Rightarrow> byte list"
    and width :: nat
  assumes image_length: "length (image w) = width"
    and image_onto: "length bs = width \<Longrightarrow> \<exists>w. image w = bs"
    and enc_fits: "p + width \<le> length bs \<Longrightarrow> enc w bs p = Inr (overwrite bs p (image w), width)"
    and enc_short: "length bs < p + width \<Longrightarrow> enc w bs p = Inl IndexOutOfRange"
    and dec_image: "p + width \<le> length (live b) \<Longrightarrow> take width (drop p (live b)) = image w \<Longrightarrow>
      dec b p = Inr (w, p + width)"
    and dec_short: "length (live b) < p + width \<Longrightarrow> dec b p = Inl IndexOutOfRange"
begin

lemma dec_enc:
  assumes "enc w bs p = Inr (bs', n)"
  shows "dec \<lparr>live = bs', spare = sp\<rparr> p = Inr (w, p + n)"
proof -
  have fits: "p + width \<le> length bs" using assms enc_short by (cases "length bs < p + width") auto
  then have "bs' = overwrite bs p (image w)" "n = width" using assms enc_fits by auto
  then show ?thesis using fits image_length [of w]
    by (simp add: dec_image overwrite_def)
qed

lemma enc_frame:
  assumes "enc w bs p = Inr (bs', n)" and "i < p \<or> p + n \<le> i"
  shows "length bs' = length bs \<and> bs' ! i = bs ! i"
proof -
  have fits: "p + width \<le> length bs" using assms enc_short by (cases "length bs < p + width") auto
  then have "bs' = overwrite bs p (image w)" "n = width" using assms enc_fits by auto
  then show ?thesis using fits assms(2) by (simp add: overwrite_nth_other image_length)
qed

lemma enc_panics_iff: "enc w bs p = Inl e \<longleftrightarrow> e = IndexOutOfRange \<and> length bs < p + width"
  using enc_fits [of p bs w] enc_short [of bs p w] by (cases "length bs < p + width") auto

lemma dec_total: "(\<exists>w. dec b p = Inr (w, p + width)) \<longleftrightarrow> p + width \<le> length (live b)"
proof
  assume "p + width \<le> length (live b)"
  then have "length (take width (drop p (live b))) = width" by simp
  then obtain w where "image w = take width (drop p (live b))" using image_onto by blast
  then show "\<exists>w. dec b p = Inr (w, p + width)"
    using dec_image \<open>p + width \<le> length (live b)\<close> by metis
next
  assume "\<exists>w. dec b p = Inr (w, p + width)"
  then show "p + width \<le> length (live b)" using dec_short [of b p] by (auto simp: not_less [symmetric])
qed

lemma dec_index:
  assumes "dec b p = Inr (w, q)"
  shows "q = p + width \<and> p + width \<le> length (live b)"
proof -
  have fit: "p + width \<le> length (live b)"
    using dec_short [of b p] assms by (cases "length (live b) < p + width") auto
  then show ?thesis using dec_total [of b p] assms by auto
qed

lemma dec_at:
  assumes "length xs = p"
  shows "dec \<lparr>live = xs @ image w @ ys, spare = sp\<rparr> p = Inr (w, p + width)"
  using assms image_length [of w] by (intro dec_image) simp_all

lemma enc_room:
  assumes "p = length pre" and "width \<le> k"
  shows "enc w (pre @ replicate k 0) p = Inr ((pre @ image w) @ replicate (k - width) 0, width)"
  using assms image_length [of w] by (simp add: enc_fits overwrite_append)

lemma image_inject: "image v = image w \<longleftrightarrow> v = w"
proof
  assume "image v = image w"
  then show "v = w"
    using dec_at [of "[]" 0 v "[]" "[]"] dec_at [of "[]" 0 w "[]" "[]"] by simp
qed simp

end

section \<open>Every routine meets the contract\<close>

lemma nth_of_take_drop:
  assumes "take n (drop p xs) = ys" and "p + n \<le> length xs" and "i < n"
  shows "xs ! (p + i) = ys ! i"
proof -
  have "take n (drop p xs) ! i = xs ! (p + i)" using assms(2,3) by simp
  then show ?thesis using assms(1) by simp
qed

lemmas nth_of_take_drop0 = nth_of_take_drop [where i = 0, simplified]

lemma overwrite_Cons_update:
  assumes "p < length xs"
  shows "overwrite xs p (v # vs) = overwrite (xs[p := v]) (p + 1) vs"
  using assms overwrite_overwrite [of "p + 1" p "[v]" xs vs] by (simp add: overwrite_single)

definition join16 :: "byte \<Rightarrow> byte \<Rightarrow> uint16" where
  "join16 b0 b1 = push_bit 8 (ucast b1) OR ucast b0"

lemma bit_join16: "n < 16 \<Longrightarrow> bit (join16 b0 b1) n \<longleftrightarrow> (if n < 8 then bit b0 n else bit b1 (n - 8))"
  by (auto simp: join16_def bit_simps dest: bit_imp_le_length)

lemma le16_combine: "join16 (ucast w) (ucast (drop_bit 8 w)) = w"
  by (rule bit_word_eqI) (auto simp: bit_join16 bit_simps)

lemma le16_split: "ucast (join16 b0 b1) = b0" "ucast (drop_bit 8 (join16 b0 b1)) = b1"
  by (rule bit_word_eqI, simp add: bit_join16 bit_simps)+

definition join32 :: "byte \<Rightarrow> byte \<Rightarrow> byte \<Rightarrow> byte \<Rightarrow> uint32" where
  "join32 b0 b1 b2 b3 =
     push_bit 24 (ucast b3) OR push_bit 16 (ucast b2) OR push_bit 8 (ucast b1) OR ucast b0"

lemma bit_join32:
  assumes "n < 32"
  shows "bit (join32 b0 b1 b2 b3) n \<longleftrightarrow>
    (if n < 8 then bit b0 n else if n < 16 then bit b1 (n - 8)
     else if n < 24 then bit b2 (n - 16) else bit b3 (n - 24))"
  using assms by (auto simp: join32_def bit_simps dest: bit_imp_le_length)

lemma le32_combine:
  "join32 (ucast w) (ucast (drop_bit 8 w)) (ucast (drop_bit 16 w)) (ucast (drop_bit 24 w)) = w"
  by (rule bit_word_eqI) (auto simp: bit_join32 bit_simps)

lemma le32_split:
  "ucast (join32 b0 b1 b2 b3) = b0" "ucast (drop_bit 8 (join32 b0 b1 b2 b3)) = b1"
  "ucast (drop_bit 16 (join32 b0 b1 b2 b3)) = b2" "ucast (drop_bit 24 (join32 b0 b1 b2 b3)) = b3"
  by (rule bit_word_eqI, simp add: bit_join32 bit_simps)+

definition join64 :: "byte \<Rightarrow> byte \<Rightarrow> byte \<Rightarrow> byte \<Rightarrow> byte \<Rightarrow> byte \<Rightarrow> byte \<Rightarrow> byte \<Rightarrow> uint64" where
  "join64 b0 b1 b2 b3 b4 b5 b6 b7 =
     push_bit 56 (ucast b7) OR push_bit 48 (ucast b6) OR push_bit 40 (ucast b5) OR
     push_bit 32 (ucast b4) OR push_bit 24 (ucast b3) OR push_bit 16 (ucast b2) OR
     push_bit 8 (ucast b1) OR ucast b0"

lemma bit_join64:
  assumes "n < 64"
  shows "bit (join64 b0 b1 b2 b3 b4 b5 b6 b7) n \<longleftrightarrow>
    (if n < 8 then bit b0 n else if n < 16 then bit b1 (n - 8)
     else if n < 24 then bit b2 (n - 16) else if n < 32 then bit b3 (n - 24)
     else if n < 40 then bit b4 (n - 32) else if n < 48 then bit b5 (n - 40)
     else if n < 56 then bit b6 (n - 48) else bit b7 (n - 56))"
  using assms by (auto simp: join64_def bit_simps dest: bit_imp_le_length)

lemma le64_combine:
  "join64 (ucast w) (ucast (drop_bit 8 w)) (ucast (drop_bit 16 w)) (ucast (drop_bit 24 w))
     (ucast (drop_bit 32 w)) (ucast (drop_bit 40 w)) (ucast (drop_bit 48 w)) (ucast (drop_bit 56 w)) = w"
  by (rule bit_word_eqI) (auto simp: bit_join64 bit_simps)

lemma le64_split:
  "ucast (join64 b0 b1 b2 b3 b4 b5 b6 b7) = b0"
  "ucast (drop_bit 8 (join64 b0 b1 b2 b3 b4 b5 b6 b7)) = b1"
  "ucast (drop_bit 16 (join64 b0 b1 b2 b3 b4 b5 b6 b7)) = b2"
  "ucast (drop_bit 24 (join64 b0 b1 b2 b3 b4 b5 b6 b7)) = b3"
  "ucast (drop_bit 32 (join64 b0 b1 b2 b3 b4 b5 b6 b7)) = b4"
  "ucast (drop_bit 40 (join64 b0 b1 b2 b3 b4 b5 b6 b7)) = b5"
  "ucast (drop_bit 48 (join64 b0 b1 b2 b3 b4 b5 b6 b7)) = b6"
  "ucast (drop_bit 56 (join64 b0 b1 b2 b3 b4 b5 b6 b7)) = b7"
  by (rule bit_word_eqI, simp add: bit_join64 bit_simps)+

interpretation codec8: fixed_codec encodeUint8 decodeUint8 le8 1
proof
  fix w :: byte and p :: nat and bs b
  show "length (le8 w) = 1" by simp
  show "length bs = 1 \<Longrightarrow> \<exists>w. le8 w = bs" by (cases bs) (auto simp: le8_def)
  show "p + 1 \<le> length bs \<Longrightarrow> encodeUint8 w bs p = Inr (overwrite bs p (le8 w), 1)"
    by (simp add: encodeUint8_def encodeByte_def setIdx_def le8_def overwrite_single)
  show "length bs < p + 1 \<Longrightarrow> encodeUint8 w bs p = Inl IndexOutOfRange"
    by (simp add: encodeUint8_def encodeByte_def setIdx_def)
  show "p + 1 \<le> length (live b) \<Longrightarrow> take 1 (drop p (live b)) = le8 w \<Longrightarrow>
      decodeUint8 b p = Inr (w, p + 1)"
    using nth_of_take_drop0 [of 1 p "live b" "le8 w"]
    by (simp add: decodeUint8_def decodeByte_def sindex_def le8_def)
  show "length (live b) < p + 1 \<Longrightarrow> decodeUint8 b p = Inl IndexOutOfRange"
    by (simp add: decodeUint8_def decodeByte_def sindex_def)
qed

interpretation codec16: fixed_codec encodeUint16 decodeUint16 le16 2
proof
  fix w :: uint16 and p :: nat and bs b
  show "length (le16 w) = 2" by simp
  show "\<exists>w. le16 w = bs" if "length bs = 2"
  proof -
    from that obtain b0 b1 where "bs = [b0, b1]"
      by (auto simp: length_Suc_conv numeral_eq_Suc)
    then have "le16 (join16 b0 b1) = bs" by (simp add: le16_def le16_split)
    then show ?thesis ..
  qed
  show "p + 2 \<le> length bs \<Longrightarrow> encodeUint16 w bs p = Inr (overwrite bs p (le16 w), 2)"
    by (simp add: encodeUint16_def setIdx_def le16_def overwrite_Cons_update)
  show "length bs < p + 2 \<Longrightarrow> encodeUint16 w bs p = Inl IndexOutOfRange"
    by (simp add: encodeUint16_def setIdx_def)
  show "decodeUint16 b p = Inr (w, p + 2)"
    if "p + 2 \<le> length (live b)" "take 2 (drop p (live b)) = le16 w"
    using that nth_of_take_drop0 [OF that(2,1)] nth_of_take_drop [OF that(2,1), of 1]
      le16_combine [of w]
    by (simp add: decodeUint16_def sindex_def le16_def join16_def)
  show "length (live b) < p + 2 \<Longrightarrow> decodeUint16 b p = Inl IndexOutOfRange"
    by (simp add: decodeUint16_def sindex_def)
qed

interpretation codec32: fixed_codec encodeUint32 decodeUint32 le32 4
proof
  fix w :: uint32 and p :: nat and bs b
  show "length (le32 w) = 4" by simp
  show "\<exists>w. le32 w = bs" if "length bs = 4"
  proof -
    from that obtain b0 b1 b2 b3 where "bs = [b0, b1, b2, b3]"
      by (auto simp: length_Suc_conv numeral_eq_Suc)
    then have "le32 (join32 b0 b1 b2 b3) = bs" by (simp add: le32_def le32_split)
    then show ?thesis ..
  qed
  show "p + 4 \<le> length bs \<Longrightarrow> encodeUint32 w bs p = Inr (overwrite bs p (le32 w), 4)"
    by (simp add: encodeUint32_def setIdx_def le32_def overwrite_Cons_update numeral_eq_Suc)
  show "length bs < p + 4 \<Longrightarrow> encodeUint32 w bs p = Inl IndexOutOfRange"
    by (simp add: encodeUint32_def setIdx_def)
  show "decodeUint32 b p = Inr (w, p + 4)"
    if "p + 4 \<le> length (live b)" "take 4 (drop p (live b)) = le32 w"
    using that nth_of_take_drop0 [OF that(2,1)] nth_of_take_drop [OF that(2,1), of 1]
      nth_of_take_drop [OF that(2,1), of 2] nth_of_take_drop [OF that(2,1), of 3]
      le32_combine [of w]
    by (simp add: decodeUint32_def sindex_def le32_def join32_def)
  show "length (live b) < p + 4 \<Longrightarrow> decodeUint32 b p = Inl IndexOutOfRange"
    by (simp add: decodeUint32_def sindex_def)
qed

interpretation codec64: fixed_codec encodeUint64 decodeUint64 le64 8
proof
  fix w :: uint64 and p :: nat and bs b
  show "length (le64 w) = 8" by simp
  show "\<exists>w. le64 w = bs" if "length bs = 8"
  proof -
    from that obtain b0 b1 b2 b3 b4 b5 b6 b7 where "bs = [b0, b1, b2, b3, b4, b5, b6, b7]"
      by (auto simp: length_Suc_conv numeral_eq_Suc)
    then have "le64 (join64 b0 b1 b2 b3 b4 b5 b6 b7) = bs" by (simp add: le64_def le64_split)
    then show ?thesis ..
  qed
  show "p + 8 \<le> length bs \<Longrightarrow> encodeUint64 w bs p = Inr (overwrite bs p (le64 w), 8)"
    by (simp add: encodeUint64_def setIdx_def le64_def overwrite_Cons_update numeral_eq_Suc)
  show "length bs < p + 8 \<Longrightarrow> encodeUint64 w bs p = Inl IndexOutOfRange"
    by (simp add: encodeUint64_def setIdx_def)
  show "decodeUint64 b p = Inr (w, p + 8)"
    if "p + 8 \<le> length (live b)" "take 8 (drop p (live b)) = le64 w"
    using that nth_of_take_drop0 [OF that(2,1)] nth_of_take_drop [OF that(2,1), of 1]
      nth_of_take_drop [OF that(2,1), of 2] nth_of_take_drop [OF that(2,1), of 3]
      nth_of_take_drop [OF that(2,1), of 4] nth_of_take_drop [OF that(2,1), of 5]
      nth_of_take_drop [OF that(2,1), of 6] nth_of_take_drop [OF that(2,1), of 7]
      le64_combine [of w]
    by (simp add: decodeUint64_def sindex_def le64_def join64_def)
  show "length (live b) < p + 8 \<Longrightarrow> decodeUint64 b p = Inl IndexOutOfRange"
    by (simp add: decodeUint64_def sindex_def)
qed

end
