(* ===== verification/Wire.thy ===== *)
theory Wire
  imports Bytes NetIP
begin

text \<open>
  What the two wire formats of the program share (\<open>src/broadcast.go\<close> and
  \<open>src/message.go\<close>): the loops that copy an IP address into a buffer and read one back,
  and the strength of the checksum. A change confined to one byte of the payload always changes
  the checksum, because the first Adler sum is the byte sum modulo a prime above 255.
\<close>

section \<open>IP addresses on the wire\<close>

text \<open>\<open>for i := 0; i < n; i++ { bytes[p+i] = src[i] }\<close>\<close>

definition write_ip :: "nat \<Rightarrow> byte list \<Rightarrow> byte list \<Rightarrow> nat \<Rightarrow> byte list outcome" where
  "write_ip n src bytes p =
     foldR (\<lambda>i bytes. bindR (getIdx src i) (\<lambda>v. setIdx bytes (p + i) v)) [0..<n] bytes"

text \<open>
  The four bytes of an IPv4 address are read by index, the sixteen of an IPv6 address are
  copied from a slice expression, which may reach beyond the length into the capacity.
\<close>

definition read_ip :: "nat \<Rightarrow> gslice \<Rightarrow> nat \<Rightarrow> IP outcome" where
  "read_ip ipLen bytes p =
     (if ipLen = IPv6len then bindR (sslice bytes p (p + 16)) (\<lambda>b. Inr (live b))
      else bindR (sindex bytes (p + 0)) (\<lambda>a.
           bindR (sindex bytes (p + 1)) (\<lambda>b.
           bindR (sindex bytes (p + 2)) (\<lambda>c.
           bindR (sindex bytes (p + 3)) (\<lambda>d. Inr (IPv4 a b c d))))))"

text \<open>The address that a receiver reconstructs from the bytes of one on the wire.\<close>

definition ip_of_wire :: "byte list \<Rightarrow> IP" where
  "ip_of_wire bs = (if length bs = 4 then v4InV6Prefix @ bs else bs)"

lemma write_loop:
  assumes "m \<le> n" and "n \<le> length src" and "p + n \<le> length bytes"
  shows "foldR (\<lambda>i bytes. bindR (getIdx src i) (\<lambda>v. setIdx bytes (p + i) v)) [0..<m] bytes =
    Inr (overwrite bytes p (take m src))"
  using assms
proof (induction m)
  case (Suc m)
  have "length (overwrite bytes p (take m src)) = length bytes" using Suc.prems by simp
  moreover have "overwrite (overwrite bytes p (take m src)) (p + m) [src ! m] =
      overwrite bytes p (take m src @ [src ! m])"
    using Suc.prems by (intro overwrite_overwrite) simp_all
  ultimately show ?case using Suc
    by (simp add: foldR_append getIdx_def setIdx_def overwrite_single take_Suc_conv_app_nth)
qed simp

lemma write_ip_fits:
  assumes "n \<le> length src" and "p + n \<le> length bytes"
  shows "write_ip n src bytes p = Inr (overwrite bytes p (take n src))"
  unfolding write_ip_def using assms by (intro write_loop) simp_all

text \<open>Writing into the zeroed rest of a buffer that is filled from the left.\<close>

lemma write_ip_room:
  assumes "p = length pre" and "length src = n" and "n \<le> k"
  shows "write_ip n src (pre @ replicate k 0) p = Inr ((pre @ src) @ replicate (k - n) 0)"
  using assms by (simp add: write_ip_fits overwrite_append)

lemma setIdx_room:
  "p = length pre \<Longrightarrow> 0 < k \<Longrightarrow> setIdx (pre @ replicate k 0) p v = Inr ((pre @ [v]) @ replicate (k - 1) 0)"
  by (cases k) (simp_all add: setIdx_def list_update_append)

lemma write_ip_short:
  assumes "length src < n" and "p + length src \<le> length bytes"
  shows "write_ip n src bytes p = Inl IndexOutOfRange"
proof -
  let ?k = "length src"
  have "[0..<n] = [0..<?k] @ ?k # [Suc ?k..<n]"
    using assms(1) by (metis less_imp_add_positive upt_add_eq_append upt_conv_Cons zero_le)
  then show ?thesis unfolding write_ip_def
    using write_loop [of ?k ?k src p bytes] assms by (simp add: foldR_append getIdx_def)
qed

lemma length4E:
  assumes "length xs = 4" obtains a b c d where "xs = [a, b, c, d]"
  using assms by (auto simp: length_Suc_conv numeral_eq_Suc)

lemma read_ip_at:
  assumes "length xs = p" and "length w = n" and "n = IPv4len \<or> n = IPv6len"
  shows "read_ip n \<lparr>live = xs @ w @ ys, spare = sp\<rparr> p = Inr (ip_of_wire w)"
proof (cases "n = IPv6len")
  case True
  then show ?thesis using assms
    by (simp add: read_ip_def sslice_def ip_of_wire_def ip_len_defs)
next
  case False
  with assms obtain a b c d where "w = [a, b, c, d]" by (auto simp: IPv4len_def elim: length4E)
  then show ?thesis using assms(1) False
    by (simp add: read_ip_def sindex_def nth_append ip_of_wire_def IPv4_def)
qed

lemma ip_of_wire_valid:
  "length w = IPv4len \<or> length w = IPv6len \<Longrightarrow> length (ip_of_wire w) = 16 \<and> valid_ip (ip_of_wire w)"
  by (auto simp: ip_of_wire_def valid_ip_def ip_len_defs v4InV6Prefix_def)

lemma To16_ip_of_wire:
  "length w = IPv4len \<or> length w = IPv6len \<Longrightarrow> To16 (ip_of_wire w) = ip_of_wire w"
  using ip_of_wire_valid by (auto simp: To16_def ip_len_defs)

lemma ip_of_wire_To4: "To4 a \<noteq> [] \<Longrightarrow> ip_of_wire (To4 a) = To16 a"
  by (simp add: ip_of_wire_def length_To4 To16_of_To4)

lemma ip_of_wire_To16: "valid_ip a \<Longrightarrow> ip_of_wire (To16 a) = To16 a"
  by (simp add: ip_of_wire_def)

lemma read_ip_total:
  assumes "p + n \<le> length (live b)" and "n = IPv4len \<or> n = IPv6len"
  shows "\<exists>a. read_ip n b p = Inr a \<and> length a = 16"
proof -
  let ?w = "take n (drop p (live b))"
  have split: "live b = take p (live b) @ ?w @ drop (p + n) (live b)"
    by (metis append_take_drop_id drop_drop add.commute)
  have "read_ip n \<lparr>live = live b, spare = spare b\<rparr> p = Inr (ip_of_wire ?w)"
    by (subst split, rule read_ip_at) (use assms in auto)
  moreover have "length (ip_of_wire ?w) = 16" using ip_of_wire_valid [of ?w] assms by auto
  ultimately show ?thesis by (cases b) auto
qed

section \<open>The checksum\<close>

lemma adler_step_fst: "fst (fold adler_step bs (a mod 65521, b)) = (a + sum_list (map unat bs)) mod 65521"
proof (induction bs arbitrary: a b)
  case (Cons x bs)
  have "adler_step x (a mod 65521, b) = ((a + unat x) mod 65521, (b + (a + unat x) mod 65521) mod 65521)"
    by (simp add: adler_step_def Let_def mod_add_left_eq)
  then show ?case using Cons.IH [of "a + unat x"] by (simp add: add.assoc)
qed simp

lemma adler_step_snd: "b < 65521 \<Longrightarrow> snd (fold adler_step bs (a, b)) < 65521"
  by (induction bs arbitrary: a b) (auto simp: adler_step_def Let_def)

lemma adler32_low:
  "unat (adler32 bs) mod 65536 = (1 + sum_list (map unat bs)) mod 65521"
proof -
  obtain a b where ab: "fold adler_step bs (1, 0) = (a, b)" by fastforce
  have a: "a = (1 + sum_list (map unat bs)) mod 65521" and "b < 65521"
    using adler_step_fst [of bs 1 0] adler_step_snd [of 0 bs 1] ab by simp_all
  then have "65536 * b + a < 2 ^ 32" by simp
  then have "unat (word_of_nat (65536 * b + a) :: uint32) = 65536 * b + a"
    by (simp only: unat_of_nat) simp
  then have "unat (adler32 bs) = 65536 * b + a" unfolding adler32_def ab by simp
  moreover have "a < 65536" using a by (simp add: order_less_trans [OF mod_less_divisor])
  ultimately show ?thesis using a by simp
qed

lemma mod_65521_differs:
  assumes "(s + x) mod 65521 = (s + y) mod (65521 :: nat)" and "x < 256" and "y < 256"
  shows "x = y"
proof -
  have less: "\<not> x < y" if "(s + x) mod 65521 = (s + y) mod (65521 :: nat)" "y < 256" for x y
  proof
    assume "x < y"
    have "65521 dvd (s + y) - (s + x)"
      by (rule mod_eq_dvd_iff_nat [THEN iffD1, OF _ that(1) [symmetric]]) (use \<open>x < y\<close> in linarith)
    then have "65521 \<le> (s + y) - (s + x)" by (rule dvd_imp_le) (use \<open>x < y\<close> in linarith)
    then show False using \<open>y < 256\<close> by linarith
  qed
  have "\<not> x < y" by (rule less [OF assms(1,3)])
  moreover have "\<not> y < x" by (rule less [OF assms(1) [symmetric] assms(2)])
  ultimately show ?thesis by linarith
qed

lemma adler32_single_byte:
  assumes "i < length bs" and "v \<noteq> bs ! i"
  shows "adler32 (bs[i := v]) \<noteq> adler32 bs"
proof
  assume "adler32 (bs[i := v]) = adler32 bs"
  let ?rest = "1 + sum_list (map unat (take i bs @ drop (Suc i) bs))"
  have sum: "1 + sum_list (map unat (bs[i := w])) = ?rest + unat w" for w
    using assms(1) by (simp add: upd_conv_take_nth_drop)
  have "(1 + sum_list (map unat (bs[i := v]))) mod 65521 =
      (1 + sum_list (map unat (bs[i := bs ! i]))) mod 65521"
    using \<open>adler32 (bs[i := v]) = adler32 bs\<close> by (simp only: adler32_low [symmetric] list_update_id)
  moreover have "unat v < 256" "unat (bs ! i) < 256"
    using unsigned_less [of v] unsigned_less [of "bs ! i"] by auto
  ultimately have "unat v = unat (bs ! i)" unfolding sum by (rule mod_65521_differs)
  with assms(2) show False by (simp add: word_unat_eq_iff)
qed

end
