(* ===== verification/Broadcasts.thy ===== *)
theory Broadcasts
  imports Registry Wire
begin

text \<open>
  \<open>src/broadcast.go\<close>: user broadcasts, their wire format, and the map of broadcasts that
  are being emitted or remembered. The program shares a \<open>*Broadcast\<close> only through that map,
  so a change of its counter is an update of the map under its label; \<open>BroadcastBytes\<close>
  keeps the caller's slice, which is taken not to be changed by the caller afterwards.
\<close>

section \<open>The operations\<close>

definition broadcastRemoveValue :: int8 where "broadcastRemoveValue = - 100"

definition Broadcast_Bytes :: "Broadcast \<Rightarrow> byte list" where "Broadcast_Bytes b = b_bytes b"
definition Broadcast_Index :: "Broadcast \<Rightarrow> uint32" where "Broadcast_Index b = b_index b"
definition Broadcast_Origin :: "Broadcast \<Rightarrow> node_ref" where "Broadcast_Origin b = b_origin b"

lemmas broadcast_accessor_defs [simp] =
  Broadcast_Bytes_def Broadcast_Index_def Broadcast_Origin_def

text \<open>The value of \<open>Label()\<close> and the broadcast with the label it has stored.\<close>

definition Broadcast_Label :: "heap \<Rightarrow> Broadcast \<Rightarrow> string \<times> Broadcast" where
  "Broadcast_Label h b =
     (let b' = (if b_label b = []
                then b\<lparr>b_label := IP_String (ip (h ! b_origin b)) @ '':'' @
                        decimal (unat (port (h ! b_origin b))) @ '':'' @ decimal (unat (b_index b))\<rparr>
                else b)
      in (b_label b', b'))"

definition itoa :: "int \<Rightarrow> string" where
  "itoa i = (if i < 0 then ''-'' @ decimal (nat (- i)) else decimal (nat i))"

definition BroadcastBytes :: "byte list \<Rightarrow> smudge \<Rightarrow> (go_error option \<times> smudge) outcome" where
  "BroadcastBytes bytes s =
     (if int (length bytes) > maxBroadcastBytesOf s
      then Inr (Some (ErrMsg (''broadcast payload length exceeds '' @
                  itoa (maxBroadcastBytesOf s) @ '' bytes'')), s)
      else (case thisHost s of
         None \<Rightarrow> Inl NilDereference
       | Some host \<Rightarrow>
           let bcast = \<lparr>b_bytes = bytes, b_origin = host, b_index = indexCounter s, b_label = [],
                        b_emitCounter = word_of_int (emitCount s)\<rparr>;
               (label, bcast) = Broadcast_Label (heap s) bcast;
               s = s\<lparr>broadcasts := AList.update label bcast (broadcasts s)\<rparr>;
               s = s\<lparr>indexCounter := indexCounter s + 1\<rparr>
           in Inr (None, s)))"

text \<open>A Go string is its UTF-8 bytes, so it is a byte list here.\<close>

definition BroadcastString :: "byte list \<Rightarrow> smudge \<Rightarrow> (go_error option \<times> smudge) outcome" where
  "BroadcastString str s = BroadcastBytes str s"

definition Broadcast_encode :: "heap \<Rightarrow> nat \<Rightarrow> Broadcast \<Rightarrow> byte list outcome" where
  "Broadcast_encode h n b =
     (let size = 8 + n + length (b_bytes b);
          bytes = replicate size 0;
          p = 0;
          a = Node_IP (h ! b_origin b);
          a = (if To4 a \<noteq> [] then To4 a else a)
      in bindR (write_ip n a bytes p) (\<lambda>bytes. let p = p + n in
         bindR (encodeUint16 (Port (h ! b_origin b)) bytes p) (\<lambda>(bytes, k). let p = p + k in
         bindR (encodeUint32 (b_index b) bytes p) (\<lambda>(bytes, k). let p = p + k in
         bindR (encodeUint16 (word_of_nat (length (b_bytes b))) bytes p) (\<lambda>(bytes, k). let p = p + k in
         write_ip (length (b_bytes b)) (b_bytes b) bytes p)))))"

text \<open>
  The lookup that all decoding code repeats: the node known under an address, or else a new
  node that is not filed anywhere.
\<close>

definition resolve :: "IP \<Rightarrow> uint16 \<Rightarrow> smudge \<Rightarrow> node_ref \<times> smudge" where
  "resolve a p s =
     (case getByIP (listenPortOf s) (knownNodes s) a p of
        Some r \<Rightarrow> (r, s)
      | None \<Rightarrow> CreateNodeByIP a p s)"

definition checkOrigin :: "heap \<Rightarrow> node_ref \<Rightarrow> go_error option outcome" where
  "checkOrigin h origin =
     (let a = Node_IP (h ! origin);
          a = (if To4 a \<noteq> [] then To4 a else a)
      in bindR (getIdx a 0) (\<lambda>b.
         Inr (if b = 0 \<or> Port (h ! origin) = 0
              then Some (ErrMsg ''Received originless broadcast'') else None)))"

definition decodeBroadcast ::
  "gslice \<Rightarrow> smudge \<Rightarrow> (Broadcast \<times> go_error option \<times> smudge) outcome" where
  "decodeBroadcast bytes s =
     (let p = 0 in
      bindR (read_ip (ipLen s) bytes p) (\<lambda>a. let p = p + ipLen s in
      bindR (decodeUint16 bytes p) (\<lambda>(prt, p).
      bindR (decodeUint32 bytes p) (\<lambda>(index, p).
      bindR (decodeUint16 bytes p) (\<lambda>(len, p).
      let (origin, s) = resolve a prt s in
      bindR (sslice bytes p (p + unat len)) (\<lambda>payload.
      let bcast = \<lparr>b_bytes = live payload, b_origin = origin, b_index = index, b_label = [],
                   b_emitCounter = word_of_int (emitCount s)\<rparr> in
      bindR (checkOrigin (heap s) origin) (\<lambda>err.
        case err of
          Some e \<Rightarrow> Inr (bcast, Some e, s)
        | None \<Rightarrow>
            if int (unat len) > maxBroadcastBytesOf s
            then Inr (bcast, Some (ErrMsg ''message length exceeds maximum length''), s)
            else Inr (bcast, None, s))))))))"

definition byBroadcastEmitCounter :: "Broadcast list \<Rightarrow> Broadcast list" where
  "byBroadcastEmitCounter bs = sort_key (\<lambda>b. - sint (b_emitCounter b)) bs"

text \<open>The loop that drops the broadcasts emitted often enough and collects the others.\<close>

definition prune_broadcasts ::
  "heap \<Rightarrow> Broadcast list \<Rightarrow> Broadcast gomap \<Rightarrow> Broadcast gomap \<times> Broadcast list" where
  "prune_broadcasts h values m =
     fold (\<lambda>b (m, slice).
       if sint (b_emitCounter b) \<le> sint broadcastRemoveValue
       then (AList.delete (fst (Broadcast_Label h b)) m, slice)
       else (m, slice @ [b])) values (m, [])"

definition getBroadcastToEmit :: "string list \<Rightarrow> smudge \<Rightarrow> Broadcast option \<times> smudge" where
  "getBroadcastToEmit ord s =
     (let values = map snd (range_entries ord (broadcasts s));
          (m, slice) = prune_broadcasts (heap s) values (broadcasts s);
          s = s\<lparr>broadcasts := m\<rparr>
      in if length slice > 0 then (Some (hd (byBroadcastEmitCounter slice)), s) else (None, s))"

definition receiveBroadcast :: "Broadcast option \<Rightarrow> smudge \<Rightarrow> smudge outcome" where
  "receiveBroadcast broadcast s =
     (case broadcast of
        None \<Rightarrow> Inr s
      | Some b \<Rightarrow>
          bindR (checkOrigin (heap s) (Broadcast_Origin b)) (\<lambda>err.
            case err of
              Some e \<Rightarrow> Inr s
            | None \<Rightarrow>
                let (label, b) = Broadcast_Label (heap s) b;
                    contains = has_key (broadcasts s) label;
                    s = (if \<not> contains then s\<lparr>broadcasts := AList.update label b (broadcasts s)\<rparr> else s)
                in Inr (if \<not> contains then doBroadcastUpdate b s else s)))"

text \<open>\<open>broadcast.emitCounter--\<close> on a broadcast of the map.\<close>

definition spend_broadcast :: "Broadcast \<Rightarrow> smudge \<Rightarrow> smudge" where
  "spend_broadcast b s =
     s\<lparr>broadcasts := AList.update (b_label b) (b\<lparr>b_emitCounter := b_emitCounter b - 1\<rparr>) (broadcasts s)\<rparr>"

section \<open>Labels\<close>

definition label_of :: "heap \<Rightarrow> node_ref \<Rightarrow> uint32 \<Rightarrow> string" where
  "label_of h r i =
     IP_String (ip (h ! r)) @ '':'' @ decimal (unat (port (h ! r))) @ '':'' @ decimal (unat i)"

lemma label_not_Nil [simp]: "label_of h r i \<noteq> []"
  by (simp add: label_of_def)

lemma Broadcast_Label_new:
  "b_label b = [] \<Longrightarrow> Broadcast_Label h b =
     (label_of h (b_origin b) (b_index b), b\<lparr>b_label := label_of h (b_origin b) (b_index b)\<rparr>)"
  by (simp add: Broadcast_Label_def label_of_def)

lemma Broadcast_Label_memo: "b_label b \<noteq> [] \<Longrightarrow> Broadcast_Label h b = (b_label b, b)"
  by (simp add: Broadcast_Label_def)

lemma label_of_inj:
  assumes "valid_ip (ip (h ! r))" and "valid_ip (ip (h' ! q))" and "label_of h r i = label_of h' q j"
  shows "To16 (ip (h ! r)) = To16 (ip (h' ! q)) \<and> port (h ! r) = port (h' ! q) \<and> i = j"
proof -
  let ?p = "\<lambda>n. decimal (unat (port n))"
  let ?l = "\<lambda>n. IP_String (ip n) @ CHR '':'' # ?p n"
  have "?l (h ! r) @ CHR '':'' # decimal (unat i) = ?l (h' ! q) @ CHR '':'' # decimal (unat j)"
    using assms(3) by (simp add: label_of_def)
  then have "?l (h ! r) = ?l (h' ! q) \<and> decimal (unat i) = decimal (unat j)"
    by (rule split_at_last_separator) simp_all
  then have "IP_String (ip (h ! r)) = IP_String (ip (h' ! q))" "?p (h ! r) = ?p (h' ! q)" "i = j"
    using split_at_last_separator [of "IP_String (ip (h ! r))" "CHR '':''" "?p (h ! r)"
        "IP_String (ip (h' ! q))" "?p (h' ! q)"]
    by (auto simp: word_unat_eq_iff)
  then show ?thesis using IP_String_inj [OF assms(1,2)] by (simp add: word_unat_eq_iff)
qed

section \<open>Resolving addresses\<close>

text \<open>
  The contract between the decoders and the registry: looking up an address yields an allocated
  node of that address, at most by adding nodes to the heap. An address is \<open>proper\<close> when
  its port is not zero; the lookup replaces port zero by the listen port.
\<close>

locale node_resolver =
  fixes find_or_create :: "'a \<Rightarrow> 's \<Rightarrow> 'r \<times> 's"
    and good :: "'a \<Rightarrow> bool"
    and proper :: "'a \<Rightarrow> bool"
    and invar :: "'s \<Rightarrow> bool"
    and grows :: "'s \<Rightarrow> 's \<Rightarrow> bool"
    and alloc :: "'s \<Rightarrow> 'r \<Rightarrow> bool"
    and names :: "'s \<Rightarrow> 'r \<Rightarrow> 'a \<Rightarrow> bool"
  assumes resolve_alloc: "invar s \<Longrightarrow> good a \<Longrightarrow> find_or_create a s = (r, s') \<Longrightarrow>
      invar s' \<and> grows s s' \<and> alloc s' r"
    and resolve_names: "invar s \<Longrightarrow> good a \<Longrightarrow> proper a \<Longrightarrow> find_or_create a s = (r, s') \<Longrightarrow>
      names s' r a"
    and grows_refl: "grows s s"
    and grows_trans: "grows s t \<Longrightarrow> grows t u \<Longrightarrow> grows s u"
    and alloc_grows: "grows s s' \<Longrightarrow> alloc s r \<Longrightarrow> alloc s' r"
    and names_grows: "grows s s' \<Longrightarrow> alloc s r \<Longrightarrow> names s r a \<Longrightarrow> names s' r a"
begin

lemma resolve_pair:
  assumes "invar s" and "good a" and "good b"
    and "find_or_create a s = (r, t)" and "find_or_create b t = (q, u)"
  shows "invar u \<and> grows s u \<and> alloc u r \<and> alloc u q"
  using resolve_alloc [OF assms(1,2,4)] resolve_alloc [OF _ assms(3,5)] grows_trans alloc_grows by blast

lemma resolve_pair_names:
  assumes "invar s" and "good a" and "good b"
    and "find_or_create a s = (r, t)" and "find_or_create b t = (q, u)"
  shows "(proper a \<longrightarrow> names u r a) \<and> (proper b \<longrightarrow> names u q b)"
proof -
  have t: "invar t" "grows t u" "alloc t r"
    using resolve_alloc [OF assms(1,2,4)] resolve_alloc [OF _ assms(3,5)] by blast+
  then show ?thesis
    using resolve_names [OF assms(1,2) _ assms(4)] resolve_names [OF t(1) assms(3) _ assms(5)]
      names_grows [OF t(2,3)] by blast
qed

end

text \<open>The state grows: nodes are added to the heap and nothing else changes.\<close>

definition grows :: "smudge \<Rightarrow> smudge \<Rightarrow> bool" where
  "grows s s' \<longleftrightarrow> (\<exists>ns. s' = s\<lparr>heap := heap s @ ns\<rparr>)"

lemma growsE:
  assumes "grows s s'" obtains ns where "s' = s\<lparr>heap := heap s @ ns\<rparr>"
  using assms by (auto simp: grows_def)

lemma growsI [intro]: "grows s (s\<lparr>heap := heap s @ ns\<rparr>)"
  by (auto simp: grows_def)

lemma grows_refl [simp]: "grows s s"
  using growsI [of s "[]"] by simp

lemma grows_extends: "grows s t \<Longrightarrow> extends (heap s) (heap t)"
  by (auto elim!: growsE)

lemma grows_node: "grows s t \<Longrightarrow> r < length (heap s) \<Longrightarrow> node t r = node s r"
  by (auto elim!: growsE simp: nth_append)

lemma grows_trans [trans]:
  assumes "grows s t" and "grows t u" shows "grows s u"
  using assms by (auto elim!: growsE)

lemma grows_same:
  assumes "grows s s'"
  shows "knownNodes s' = knownNodes s" "updatedNodes s' = updatedNodes s" "ipLen s' = ipLen s"
    "listenPortOf s' = listenPortOf s" "maxBroadcastBytesOf s' = maxBroadcastBytesOf s"
    "thisHost s' = thisHost s" "notified s' = notified s" "sent s' = sent s" "spawned s' = spawned s"
    "pendingAcks s' = pendingAcks s" "broadcasts s' = broadcasts s" "pingdata s' = pingdata s"
    "currentHeartbeat s' = currentHeartbeat s" "emitCount s' = emitCount s"
  using assms
  by (auto elim!: growsE simp: listenPortOf_def maxBroadcastBytesOf_def emitCount_def)

lemma CreateNodeByIP_ok:
  assumes "wf_state s" and "valid_ip a" and "CreateNodeByIP a p s = (r, s')"
  shows "wf_state s' \<and> grows s s' \<and> r < length (heap s') \<and> addr s' r = nodeAddressString a p \<and>
    ip (node s' r) = a \<and> port (node s' r) = p"
proof -
  define n where "n = \<lparr>ip = a, port = p, timestamp = now s, address = [], pingMillis = PingNoData,
    status = StatusUnknown, emitCounter = 0, heartbeat = 0, statusSource = None\<rparr>"
  have eq: "s' = s\<lparr>heap := heap s @ [n]\<rparr>" "r = length (heap s)"
    using assms(3) by (auto simp: CreateNodeByIP_def n_def)
  have "wf_node n" "statusSource n = None" using assms(2) by (simp_all add: n_def wf_node_def)
  then have "wf_heap (heap s @ [n])" using wf_stateD(1) [OF assms(1)] by (intro wf_heap_append)
  then have "wf_state s'" unfolding eq by (intro wf_state_heap assms(1) extends_append)
  then show ?thesis using growsI [of s "[n]"] by (simp add: eq addressOf_def Address_def n_def)
qed

lemma resolve_ok:
  assumes "wf_state s" and "valid_ip a" and "resolve a p s = (r, s')"
  shows "wf_state s' \<and> grows s s' \<and> r < length (heap s')"
  using assms map_ok_lookup [OF wf_stateD(2) [OF assms(1)]] CreateNodeByIP_ok [OF assms(1,2), of p r s']
  by (auto simp: resolve_def getByIP_def Let_def split: option.splits)

lemma resolve_addr:
  assumes "wf_state s" and "valid_ip a" and "p \<noteq> 0" and "resolve a p s = (r, s')"
  shows "addr s' r = nodeAddressString a p"
  using assms map_ok_lookup [OF wf_stateD(2) [OF assms(1)]] CreateNodeByIP_ok [OF assms(1,2), of p r s']
  by (auto simp: resolve_def getByIP_def Let_def split: option.splits)

interpretation nodes: node_resolver "\<lambda>(a, p). resolve a p" "\<lambda>(a, p). valid_ip a" "\<lambda>(a, p). p \<noteq> 0"
  wf_state grows "\<lambda>s r. r < length (heap s)" "\<lambda>s r (a, p). addr s r = nodeAddressString a p"
proof
  show "grows s u" if "grows s t" "grows t u" for s t u
    using that by (rule grows_trans)
  show "case a of (a, p) \<Rightarrow> addr s' r = nodeAddressString a p"
    if "grows s s'" "r < length (heap s)" "case a of (a, p) \<Rightarrow> addr s r = nodeAddressString a p" for s s' r a
    using that by (auto simp: extends_addressOf [OF grows_extends])
qed (auto intro: less_length_mono [OF grows_extends] dest: resolve_ok resolve_addr)

section \<open>The wire format\<close>

text \<open>The address an encoder writes: the short form when there is one.\<close>

definition norm_ip :: "IP \<Rightarrow> IP" where
  "norm_ip a = (if To4 a \<noteq> [] then To4 a else a)"

text \<open>An address fits the address family when its short form has exactly \<open>n\<close> bytes.\<close>

definition fits :: "nat \<Rightarrow> IP \<Rightarrow> bool" where
  "fits n a \<longleftrightarrow> valid_ip a \<and> length (norm_ip a) = n"

definition broadcast_image :: "heap \<Rightarrow> Broadcast \<Rightarrow> byte list" where
  "broadcast_image h b = norm_ip (ip (h ! b_origin b)) @ le16 (port (h ! b_origin b)) @
     le32 (b_index b) @ le16 (word_of_nat (length (b_bytes b))) @ b_bytes b"

lemma ip_of_wire_norm: "valid_ip a \<Longrightarrow> ip_of_wire (norm_ip a) = To16 a"
  using not_v4_length [of a]
  by (cases "To4 a = []") (simp_all add: norm_ip_def ip_of_wire_To4, simp add: ip_of_wire_def)

lemma length_norm_ip: "valid_ip a \<Longrightarrow> length (norm_ip a) = IPv4len \<or> length (norm_ip a) = IPv6len"
  using length_To4 not_v4_length [of a] by (auto simp: norm_ip_def ip_len_defs)

lemma fits_iff:
  "valid_ip a \<Longrightarrow> n = IPv4len \<or> n = IPv6len \<Longrightarrow> fits n a \<longleftrightarrow> (n = IPv4len \<longleftrightarrow> To4 a \<noteq> [])"
  using length_To4 [of a] not_v4_length [of a] by (auto simp: fits_def norm_ip_def ip_len_defs)

lemma Broadcast_encode_eq:
  assumes "fits n (ip (h ! b_origin b))"
  shows "Broadcast_encode h n b = Inr (broadcast_image h b)"
proof -
  let ?a = "ip (h ! b_origin b)"
  have len: "length (norm_ip ?a) = n" using assms by (simp add: fits_def)
  then have take: "take n (norm_ip ?a) = norm_ip ?a" by simp
  show ?thesis
    by (simp add: Broadcast_encode_def Let_def write_ip_fits codec16.enc_fits codec32.enc_fits
        len take overwrite_overwrite flip: norm_ip_def)
      (simp add: overwrite_def broadcast_image_def len)
qed

text \<open>
  An origin with an IPv4 address cannot be encoded in IPv6 mode: the loop reads past the
  four bytes of the short form.
\<close>

lemma Broadcast_encode_panics:
  assumes "n = IPv6len" and "To4 (ip (h ! b_origin b)) \<noteq> []"
  shows "Broadcast_encode h n b = Inl IndexOutOfRange"
  using assms length_To4 [of "ip (h ! b_origin b)"]
  by (simp add: Broadcast_encode_def Let_def write_ip_short ip_len_defs)

lemma checkOrigin_eq:
  assumes "valid_ip (ip (h ! r))"
  shows "checkOrigin h r = Inr (if hd (norm_ip (ip (h ! r))) = 0 \<or> port (h ! r) = 0
    then Some (ErrMsg ''Received originless broadcast'') else None)"
proof -
  have "norm_ip (ip (h ! r)) \<noteq> []" using length_norm_ip [OF assms] by (auto simp: ip_len_defs)
  then show ?thesis
    by (simp add: checkOrigin_def Let_def getIdx_def hd_conv_nth flip: norm_ip_def)
qed

lemma norm_ip_To16: "valid_ip a \<Longrightarrow> valid_ip b \<Longrightarrow> To16 a = To16 b \<Longrightarrow> norm_ip a = norm_ip b"
  by (metis To4_To16 norm_ip_def not_v4_length)

lemma decodeBroadcast_image:
  fixes i :: uint32
  assumes "wf_state s" and "fits (ipLen s) a" and "resolve (To16 a) prt s = (r, t)"
    and "length bytes < 2 ^ 16"
  defines "img \<equiv> norm_ip a @ le16 prt @ le32 i @ le16 (word_of_nat (length bytes)) @ bytes"
    and "b \<equiv> \<lparr>b_bytes = bytes, b_origin = r, b_index = i, b_label = [],
      b_emitCounter = word_of_int (emitCount s)\<rparr>"
  shows "decodeBroadcast \<lparr>live = img @ rest, spare = sp\<rparr> s =
    bindR (checkOrigin (heap t) r) (\<lambda>err. Inr (b,
      (case err of Some e \<Rightarrow> Some e
       | None \<Rightarrow> if int (length bytes) > maxBroadcastBytesOf s
                then Some (ErrMsg ''message length exceeds maximum length'') else None), t))"
proof -
  let ?n = "ipLen s" and ?b = "\<lparr>live = img @ rest, spare = sp\<rparr>"
  have fam: "?n = IPv4len \<or> ?n = IPv6len" by (rule wf_stateD(10) [OF assms(1)])
  have len: "length (norm_ip a) = ?n" and a: "valid_ip a" using assms(2) by (simp_all add: fits_def)
  have ip: "read_ip ?n ?b 0 = Inr (To16 a)"
    using read_ip_at [of "[]" 0 "norm_ip a" ?n] fam len a by (simp add: img_def ip_of_wire_norm)
  have prt: "decodeUint16 ?b ?n = Inr (prt, ?n + 2)"
    using codec16.dec_at [of "norm_ip a" ?n prt] len by (simp add: img_def)
  have idx: "decodeUint32 ?b (?n + 2) = Inr (i, ?n + 6)"
    using codec32.dec_at [of "norm_ip a @ le16 prt" "?n + 2" i] len by (simp add: img_def)
  have cnt: "decodeUint16 ?b (?n + 6) = Inr (word_of_nat (length bytes), ?n + 8)"
    using codec16.dec_at [of "norm_ip a @ le16 prt @ le32 i" "?n + 6"] len by (simp add: img_def)
  have u: "unat (word_of_nat (length bytes) :: uint16) = length bytes"
    using assms(4) by (simp add: unat_of_nat)
  have pay: "sslice ?b (?n + 8) (?n + 8 + length bytes) = Inr \<lparr>live = bytes, spare = rest @ sp\<rparr>"
    using len by (simp add: sslice_def img_def)
  have g: "grows s t" using resolve_ok [OF assms(1) _ assms(3)] a by (simp add: valid_ip_def ip_len_defs)
  show ?thesis
    by (simp only: decodeBroadcast_def Let_def add_0 ip prt idx cnt u pay assms(3) b_def
        grows_same [OF g] bindR_simps prod.case gslice.select_convs)
      (auto simp: bindR_def split: sum.splits option.splits)
qed

lemma read_ip_length:
  assumes "read_ip n b p = Inr a" shows "length a = 16"
  using assms
  by (auto simp: read_ip_def sslice_def IPv4_def v4InV6Prefix_def bindR_eq_Inr Let_def split: if_splits)

lemma valid_ip_16: "length a = 16 \<Longrightarrow> valid_ip a"
  by (simp add: valid_ip_def ip_len_defs)

lemma decodeBroadcast_ok:
  assumes "wf_state s"
  shows "ensures (decodeBroadcast bytes s) (\<lambda>(b, err, t).
    wf_state t \<and> grows s t \<and> b_origin b < length (heap t) \<and> b_label b = [])"
  unfolding decodeBroadcast_def Let_def
  by (auto intro!: ensures_bind split: prod.splits option.splits dest!: read_ip_length)
    (use resolve_ok [OF assms valid_ip_16] in blast)+

section \<open>Receiving broadcasts\<close>

lemma broadcasts_ok_update:
  "broadcasts_ok h bs \<Longrightarrow> b_origin b < length h \<Longrightarrow> b_label b = k \<Longrightarrow> k \<noteq> [] \<Longrightarrow>
     broadcasts_ok h (AList.update k b bs)"
  by (auto simp: broadcasts_ok_def set_update_wf split: if_splits)

lemma broadcasts_ok_delete: "broadcasts_ok h bs \<Longrightarrow> broadcasts_ok h (AList.delete k bs)"
  by (auto simp: broadcasts_ok_def set_delete_iff)

text \<open>An acceptable origin has a port and does not start with a zero byte.\<close>

definition has_origin :: "heap \<Rightarrow> node_ref \<Rightarrow> bool" where
  "has_origin h r \<longleftrightarrow> hd (norm_ip (ip (h ! r))) \<noteq> 0 \<and> port (h ! r) \<noteq> 0"

lemma receiveBroadcast_cases:
  assumes "wf_state s" and "b_origin b < length (heap s)" and "b_label b = []"
  defines "l \<equiv> label_of (heap s) (b_origin b) (b_index b)"
  shows "receiveBroadcast (Some b) s = Inr (
    if has_origin (heap s) (b_origin b) \<and> \<not> has_key (broadcasts s) l
    then s\<lparr>broadcasts := AList.update l (b\<lparr>b_label := l\<rparr>) (broadcasts s),
           notified := notified s @ map (\<lambda>k. OnBroadcast k (b\<lparr>b_label := l\<rparr>)) (broadcastListeners s)\<rparr>
    else s)"
proof -
  have "valid_ip (ip (node s (b_origin b)))"
    using wf_heap_nth [OF wf_stateD(1) [OF assms(1)] assms(2)] by (simp add: wf_node_def)
  then show ?thesis
    by (simp add: receiveBroadcast_def checkOrigin_eq Broadcast_Label_new [OF assms(3)]
        doBroadcastUpdate_eq has_origin_def l_def)
qed

definition receive_frame :: "smudge \<Rightarrow> smudge \<Rightarrow> bool" where
  "receive_frame s t \<longleftrightarrow> heap t = heap s \<and> knownNodes t = knownNodes s \<and>
     currentHeartbeat t = currentHeartbeat s \<and> sent t = sent s \<and> pendingAcks t = pendingAcks s \<and>
     thisHost t = thisHost s \<and> ipLen t = ipLen s \<and> broadcastListeners t = broadcastListeners s"

definition fresh_broadcast :: "heap \<Rightarrow> Broadcast \<Rightarrow> bool" where
  "fresh_broadcast h b \<longleftrightarrow> b_origin b < length h \<and> b_label b = []"

lemma receiveBroadcast_ok:
  assumes "wf_state s" and "\<And>b. ob = Some b \<Longrightarrow> fresh_broadcast (heap s) b"
  shows "yields (receiveBroadcast ob s) (\<lambda>t. wf_state t \<and> receive_frame s t)"
proof (cases ob)
  case None
  then show ?thesis using assms(1) by (simp add: receiveBroadcast_def receive_frame_def)
next
  case (Some b)
  note b = assms(2) [OF Some, unfolded fresh_broadcast_def]
  have "wf_state (s\<lparr>broadcasts := AList.update l (b\<lparr>b_label := l\<rparr>) (broadcasts s)\<rparr>)" if "l \<noteq> []" for l
    using assms(1) b that by (intro wf_state_updates broadcasts_ok_update wf_stateD) simp_all
  then show ?thesis
    using assms(1) b receiveBroadcast_cases [of s b] by (simp add: Some receive_frame_def)
qed

text \<open>How often a listener was called with a broadcast of a label.\<close>

definition deliveries :: "listener \<Rightarrow> string \<Rightarrow> notification list \<Rightarrow> nat" where
  "deliveries k l es =
     length (filter (\<lambda>e. case e of OnBroadcast k' b \<Rightarrow> k' = k \<and> b_label b = l | _ \<Rightarrow> False) es)"

definition accepted :: "heap \<Rightarrow> string \<Rightarrow> Broadcast \<Rightarrow> bool" where
  "accepted h l b \<longleftrightarrow> has_origin h (b_origin b) \<and> label_of h (b_origin b) (b_index b) = l"

lemma deliveries_map:
  "deliveries k l (es @ map (\<lambda>j. OnBroadcast j b) ks) =
     deliveries k l es + (if b_label b = l then count_list ks k else 0)"
proof -
  have "length (filter (\<lambda>e. case e of OnBroadcast k' b \<Rightarrow> k' = k \<and> b_label b = l | _ \<Rightarrow> False)
      (map (\<lambda>j. OnBroadcast j b) ks)) = (if b_label b = l then count_list ks k else 0)"
    by (induction ks) auto
  then show ?thesis by (simp add: deliveries_def)
qed

lemma receiveBroadcast_delivers:
  assumes "wf_state s" and "fresh_broadcast (heap s) b" and "receiveBroadcast (Some b) s = Inr t"
  shows "deliveries k l (notified t) = deliveries k l (notified s) +
      (if \<not> has_key (broadcasts s) l \<and> accepted (heap s) l b then count_list (broadcastListeners s) k else 0)"
    and "has_key (broadcasts t) l \<longleftrightarrow> has_key (broadcasts s) l \<or> accepted (heap s) l b"
  using receiveBroadcast_cases [OF assms(1), of b] assms(2,3)
  by (auto simp: fresh_broadcast_def deliveries_map accepted_def has_key_update split: if_splits)

section \<open>Choosing a broadcast to emit\<close>

definition bcast_counter :: "Broadcast \<Rightarrow> int" where
  "bcast_counter b = sint (b_emitCounter b)"

interpretation bcasts: emit_pool bcast_counter "- 100"
  "\<lambda>bs. byBroadcastEmitCounter (filter (\<lambda>b. - 100 < bcast_counter b) bs)"
  by unfold_locales (simp_all add: byBroadcastEmitCounter_def bcast_counter_def [abs_def] sort_key_desc)

lemma prune_broadcasts_slice:
  "snd (prune_broadcasts h vs m) = filter (\<lambda>b. - 100 < bcast_counter b) vs"
proof -
  have "snd (fold (\<lambda>b (m, slice). if sint (b_emitCounter b) \<le> sint broadcastRemoveValue
      then (AList.delete (fst (Broadcast_Label h b)) m, slice) else (m, slice @ [b])) vs (m, sl)) =
      sl @ filter (\<lambda>b. - 100 < bcast_counter b) vs" for sl
    by (induction vs arbitrary: m sl) (auto simp: bcast_counter_def broadcastRemoveValue_def)
  then show ?thesis by (simp add: prune_broadcasts_def)
qed

lemma prune_broadcasts_map:
  assumes "\<forall>b \<in> set vs. b_label b \<noteq> []"
  shows "map_of (fst (prune_broadcasts h vs m)) k =
      (if \<exists>b \<in> set vs. b_label b = k \<and> bcast_counter b \<le> - 100 then None else map_of m k)"
    and "broadcasts_ok h m \<Longrightarrow> broadcasts_ok h (fst (prune_broadcasts h vs m))"
proof -
  let ?f = "\<lambda>b (m, slice). if sint (b_emitCounter b) \<le> sint broadcastRemoveValue
      then (AList.delete (fst (Broadcast_Label h b)) m, slice) else (m, slice @ [b])"
  have "map_of (fst (fold ?f vs (m, sl))) k =
      (if \<exists>b \<in> set vs. b_label b = k \<and> bcast_counter b \<le> - 100 then None else map_of m k)" for sl
    using assms
    by (induction vs arbitrary: m sl)
      (auto simp: bcast_counter_def broadcastRemoveValue_def map_of_delete Broadcast_Label_memo)
  then show "map_of (fst (prune_broadcasts h vs m)) k =
      (if \<exists>b \<in> set vs. b_label b = k \<and> bcast_counter b \<le> - 100 then None else map_of m k)"
    by (simp add: prune_broadcasts_def)
  have "broadcasts_ok h (fst (fold ?f vs (m, sl)))" if "broadcasts_ok h m" for sl
    using that by (induction vs arbitrary: m sl) (auto simp: broadcasts_ok_delete)
  then show "broadcasts_ok h m \<Longrightarrow> broadcasts_ok h (fst (prune_broadcasts h vs m))"
    by (simp add: prune_broadcasts_def)
qed

lemma broadcasts_ok_iff:
  "broadcasts_ok h m \<Longrightarrow> map_of m k = Some b \<longleftrightarrow> b \<in> snd ` set m \<and> b_label b = k"
  by (force simp: broadcasts_ok_def wf_map_of_iff)

lemma prune_ok:
  fixes ord
  assumes "broadcasts_ok h m"
  defines "vs \<equiv> map snd (range_entries ord m)"
  defines "sl \<equiv> filter (\<lambda>b. - 100 < bcast_counter b) vs"
  shows "\<exists>m'. prune_broadcasts h vs m = (m', sl) \<and> broadcasts_ok h m' \<and>
    (\<forall>k b. map_of m' k = Some b \<longleftrightarrow> map_of m k = Some b \<and> - 100 < bcast_counter b) \<and>
    (\<forall>b. b \<in> set sl \<longleftrightarrow> map_of m' (b_label b) = Some b)"
proof -
  have vs: "set vs = snd ` set m" using assms(1) set_range_entries [of m ord] by (auto simp: vs_def broadcasts_ok_def)
  have ne: "\<forall>b \<in> set vs. b_label b \<noteq> []" using assms(1) vs by (auto simp: broadcasts_ok_def)
  obtain m' where p: "prune_broadcasts h vs m = (m', sl)"
    using prune_broadcasts_slice [of h vs m] by (cases "prune_broadcasts h vs m") (simp add: sl_def)
  note pm = prune_broadcasts_map [OF ne, of h m, unfolded p fst_conv]
  have look: "map_of m' k = Some b \<longleftrightarrow> map_of m k = Some b \<and> - 100 < bcast_counter b" for k b
  proof -
    have "(\<exists>b \<in> set vs. b_label b = k \<and> bcast_counter b \<le> - 100) \<longleftrightarrow>
        (\<exists>b. map_of m k = Some b \<and> bcast_counter b \<le> - 100)"
      unfolding vs broadcasts_ok_iff [OF assms(1)] by blast
    then show ?thesis unfolding pm(1) by (cases "map_of m k") (auto simp: not_le)
  qed
  have "b \<in> set sl \<longleftrightarrow> map_of m' (b_label b) = Some b" for b
    unfolding look broadcasts_ok_iff [OF assms(1)] vs [symmetric] sl_def by simp
  then show ?thesis using p pm(2) assms(1) look by blast
qed

text \<open>
  The broadcast that is offered has the highest counter; the map keeps exactly the broadcasts
  whose counter is above the removal value.
\<close>

lemma getBroadcastToEmit_ok:
  assumes "broadcasts_ok (heap s) (broadcasts s)" and "getBroadcastToEmit ord s = (ob, t)"
  shows "t = s\<lparr>broadcasts := broadcasts t\<rparr> \<and> broadcasts_ok (heap s) (broadcasts t) \<and>
    (\<forall>k b. map_of (broadcasts t) k = Some b \<longleftrightarrow> map_of (broadcasts s) k = Some b \<and> - 100 < bcast_counter b) \<and>
    (case ob of
       None \<Rightarrow> broadcasts t = []
     | Some b \<Rightarrow> map_of (broadcasts t) (b_label b) = Some b \<and>
         (\<forall>k b'. map_of (broadcasts t) k = Some b' \<longrightarrow> bcast_counter b' \<le> bcast_counter b))"
proof -
  define sl where "sl = filter (\<lambda>b. - 100 < bcast_counter b) (map snd (range_entries ord (broadcasts s)))"
  obtain m where p: "prune_broadcasts (heap s) (map snd (range_entries ord (broadcasts s))) (broadcasts s) = (m, sl)"
    and ok: "broadcasts_ok (heap s) m" and mem: "\<And>b. b \<in> set sl \<longleftrightarrow> map_of m (b_label b) = Some b"
    and look: "\<And>k b. map_of m k = Some b \<longleftrightarrow> map_of (broadcasts s) k = Some b \<and> - 100 < bcast_counter b"
    using prune_ok [OF assms(1), of ord, folded sl_def] by blast
  have ob: "ob = (if sl = [] then None else Some (hd (byBroadcastEmitCounter sl)))" and t: "t = s\<lparr>broadcasts := m\<rparr>"
    using assms(2) by (auto simp: getBroadcastToEmit_def p Let_def split: if_splits)
  have sub: "b \<in> set sl" if "map_of m k = Some b" for k b
    using that mem [of b] broadcasts_ok_iff [OF ok, of k b] by simp
  show ?thesis
  proof (cases "sl = []")
    case True
    then have "m = []" using sub [of "fst (hd m)" "snd (hd m)"] by (cases m) auto
    then show ?thesis using ob t ok look True by simp
  next
    case False
    then obtain b rest where b: "byBroadcastEmitCounter sl = b # rest"
      by (cases "byBroadcastEmitCounter sl") (auto simp: byBroadcastEmitCounter_def dest: arg_cong [of _ _ length])
    have "filter (\<lambda>b. - 100 < bcast_counter b) sl = sl" by (simp add: sl_def)
    with b have offer: "byBroadcastEmitCounter (filter (\<lambda>b. - 100 < bcast_counter b) sl) = b # rest" by simp
    have "b \<in> set sl" using bcasts.offer_set [of sl] offer by auto
    moreover have "bcast_counter b' \<le> bcast_counter b" if "b' \<in> set sl" for b'
      using bcasts.offer_first [OF offer that] that by (auto simp: sl_def)
    ultimately have "map_of m (b_label b) = Some b"
      "\<forall>k b'. map_of m k = Some b' \<longrightarrow> bcast_counter b' \<le> bcast_counter b"
      using mem sub by blast+
    then show ?thesis using ob t ok look False b by simp
  qed
qed

section \<open>Properties\<close>

lemma named_id:
  assumes "wf_node (h ! r)" and "valid_ip a" and "addressOf h r = nodeAddressString a p"
  shows "To16 (ip (h ! r)) = To16 a \<and> port (h ! r) = p"
  using assms nodeAddressString_inj [of "ip (h ! r)" a] by (simp add: addressOf_wf wf_node_def)

lemma label_of_cong:
  assumes "valid_ip (ip (h ! r))" and "valid_ip (ip (h' ! q))"
    and "To16 (ip (h ! r)) = To16 (ip (h' ! q))" and "port (h ! r) = port (h' ! q)"
  shows "label_of h r i = label_of h' q i"
  using assms IP_String_To16 by (metis label_of_def)

text \<open>
  Labels identify broadcasts: the labels that \<open>Label\<close> computes for two broadcasts are
  equal exactly when they have the same origin address, the same origin port and the same
  index. This is the uniqueness that the comment on \<open>Index\<close> promises.
\<close>

theorem broadcast_label_identifies:
  assumes "wf_node (h ! b_origin b)" and "wf_node (h' ! b_origin b')"
    and "b_label b = []" and "b_label b' = []"
  shows "fst (Broadcast_Label h b) = fst (Broadcast_Label h' b') \<longleftrightarrow>
    To16 (ip (h ! b_origin b)) = To16 (ip (h' ! b_origin b')) \<and>
    port (h ! b_origin b) = port (h' ! b_origin b') \<and> b_index b = b_index b'"
  using assms label_of_inj [of h "b_origin b" h' "b_origin b'"]
    label_of_cong [of h "b_origin b" h' "b_origin b'"]
  by (auto simp: Broadcast_Label_new wf_node_def)

definition sample_broadcast :: "byte list \<Rightarrow> Broadcast" where
  "sample_broadcast bs = \<lparr>b_bytes = bs, b_origin = 1, b_index = 3, b_label = [], b_emitCounter = 2\<rparr>"

lemma sample_broadcast_simps [simp]:
  "b_bytes (sample_broadcast bs) = bs" "b_origin (sample_broadcast bs) = 1"
  "b_index (sample_broadcast bs) = 3" "b_label (sample_broadcast bs) = []"
  by (simp_all add: sample_broadcast_def)

theorem broadcast_label_identifies_witness:
  "wf_node ([host_node 1, host_node 2] ! 1) \<and> wf_node ([host_node 2, host_node 3] ! 1) \<and>
   fst (Broadcast_Label [host_node 1, host_node 2] (sample_broadcast [65])) \<noteq>
   fst (Broadcast_Label [host_node 2, host_node 3] (sample_broadcast [65]))"
proof -
  have "To16 (IPv4 10 0 0 2) \<noteq> To16 (IPv4 10 0 0 3)" by code_simp
  then show ?thesis
    using broadcast_label_identifies [of "[host_node 1, host_node 2]" "sample_broadcast [65]"
        "[host_node 2, host_node 3]" "sample_broadcast [65]"] by simp
qed

text \<open>A broadcast that can be sent to a host in state \<open>t\<close>, and what arrives there.\<close>

definition bcast_sendable :: "heap \<Rightarrow> smudge \<Rightarrow> Broadcast \<Rightarrow> bool" where
  "bcast_sendable h t b \<longleftrightarrow> wf_node (h ! b_origin b) \<and> fits (ipLen t) (ip (h ! b_origin b)) \<and>
     has_origin h (b_origin b) \<and> length (b_bytes b) < 2 ^ 16 \<and>
     int (length (b_bytes b)) \<le> maxBroadcastBytesOf t"

definition same_broadcast :: "heap \<Rightarrow> Broadcast \<Rightarrow> heap \<Rightarrow> Broadcast \<Rightarrow> bool" where
  "same_broadcast h b h' b' \<longleftrightarrow> b_bytes b' = b_bytes b \<and> b_index b' = b_index b \<and>
     fresh_broadcast h' b' \<and> has_origin h' (b_origin b') \<and>
     fst (Broadcast_Label h' b') = label_of h (b_origin b) (b_index b)"

lemma decodeBroadcast_sent:
  assumes "wf_state t" and "bcast_sendable h t b"
  shows "yields (decodeBroadcast \<lparr>live = broadcast_image h b, spare = sp\<rparr> t)
    (\<lambda>(b', err, u). err = None \<and> wf_state u \<and> grows t u \<and> same_broadcast h b (heap u) b')"
proof -
  let ?n = "h ! b_origin b"
  note snd = assms(2) [unfolded bcast_sendable_def]
  have a: "valid_ip (ip ?n)" "valid_ip (To16 (ip ?n))"
    using snd by (simp_all add: wf_node_def valid_ip_16)
  obtain r u where r: "resolve (To16 (ip ?n)) (port ?n) t = (r, u)" by fastforce
  have u: "wf_state u" "grows t u" "r < length (heap u)" using resolve_ok [OF assms(1) a(2) r] by auto
  then have wf: "wf_node (node u r)" by (intro wf_heap_nth wf_stateD)
  have "addr u r = nodeAddressString (To16 (ip ?n)) (port ?n)"
    using assms(1) snd a(2) r by (intro resolve_addr) (simp_all add: has_origin_def)
  then have same: "To16 (ip (node u r)) = To16 (ip ?n)" "port (node u r) = port ?n"
    using named_id [OF wf a(1)] nodeAddressString_To16 [OF a(1)] by simp_all
  have "norm_ip (ip (node u r)) = norm_ip (ip ?n)"
    using same(1) wf a(1) by (intro norm_ip_To16) (simp_all add: wf_node_def)
  then have orig: "has_origin (heap u) r" using snd same(2) by (simp add: has_origin_def)
  then have "checkOrigin (heap u) r = Inr None"
    using wf by (simp add: checkOrigin_eq wf_node_def has_origin_def)
  then have dec: "decodeBroadcast \<lparr>live = broadcast_image h b, spare = sp\<rparr> t =
      Inr (\<lparr>b_bytes = b_bytes b, b_origin = r, b_index = b_index b, b_label = [],
        b_emitCounter = word_of_int (emitCount t)\<rparr>, None, u)"
    using decodeBroadcast_image [OF assms(1) _ r, of "b_bytes b" "b_index b" "[]" sp] snd
    by (simp add: broadcast_image_def)
  have "label_of (heap u) r i = label_of h (b_origin b) i" for i
    using same wf a(1) by (intro label_of_cong) (simp_all add: wf_node_def)
  then show ?thesis
    using dec u orig by (simp add: Broadcast_Label_new same_broadcast_def fresh_broadcast_def)
qed

text \<open>
  C30. A broadcast survives the wire: what a host encodes, any host in the same address mode
  decodes without an error, with the same payload, the same index and the same label, as long
  as the origin fits the mode and names a port and the payload is within the configured
  maximum of the receiver.
\<close>

theorem broadcast_roundtrip:
  assumes "wf_state t" and "bcast_sendable h t b"
  shows "\<exists>img b' u. Broadcast_encode h (ipLen t) b = Inr img \<and>
    decodeBroadcast (full_slice img) t = Inr (b', None, u) \<and> wf_state u \<and> grows t u \<and>
    b_bytes b' = b_bytes b \<and> b_index b' = b_index b \<and>
    fst (Broadcast_Label (heap u) b') = label_of h (b_origin b) (b_index b)"
proof -
  have "Broadcast_encode h (ipLen t) b = Inr (broadcast_image h b)"
    using assms(2) by (intro Broadcast_encode_eq) (simp add: bcast_sendable_def)
  then show ?thesis using decodeBroadcast_sent [OF assms, of "[]"]
    by (auto elim!: yieldsE simp: full_slice_def same_broadcast_def)
qed

theorem broadcast_roundtrip_witness:
  "wf_state two_hosts \<and> (\<exists>img b' u. Broadcast_encode [host_node 1, host_node 2] IPv4len (sample_broadcast [65, 66]) = Inr img \<and>
    decodeBroadcast (full_slice img) two_hosts = Inr (b', None, u) \<and> b_bytes b' = [65, 66])"
proof -
  have "fits (ipLen two_hosts) (IPv4 10 0 0 2)" by (simp add: fits_iff)
  moreover have "has_origin [host_node 1, host_node 2] 1" by (simp add: has_origin_def norm_ip_def)
  moreover have "2 \<le> maxBroadcastBytesOf two_hosts" by code_simp
  ultimately have "bcast_sendable [host_node 1, host_node 2] two_hosts (sample_broadcast [65, 66])"
    by (simp add: bcast_sendable_def)
  then show ?thesis
    using broadcast_roundtrip [of two_hosts "[host_node 1, host_node 2]" "sample_broadcast [65, 66]"]
    by auto
qed

text \<open>
  C31. \<open>BroadcastBytes\<close> refuses a payload above the configured maximum with an error and
  without any effect; otherwise it files the payload under the label of this host and the next
  index, with the current emission limit, advances the index, and changes nothing else.
\<close>

theorem BroadcastBytes_behaviour:
  assumes "wf_state s" and "thisHost s = Some r"
  shows "if maxBroadcastBytesOf s < int (length bs)
    then \<exists>e. BroadcastBytes bs s = Inr (Some e, s)
    else \<exists>t m. BroadcastBytes bs s = Inr (None, t) \<and> wf_state t \<and>
      t = s\<lparr>broadcasts := m, indexCounter := indexCounter s + 1\<rparr> \<and>
      (\<forall>k. map_of m k = (if k = label_of (heap s) r (indexCounter s)
         then Some \<lparr>b_bytes = bs, b_origin = r, b_index = indexCounter s, b_label = k,
                    b_emitCounter = word_of_int (emitCount s)\<rparr>
         else map_of (broadcasts s) k))"
proof (cases "maxBroadcastBytesOf s < int (length bs)")
  case True
  then show ?thesis by (simp add: BroadcastBytes_def)
next
  case False
  define l where "l = label_of (heap s) r (indexCounter s)"
  define b where "b = \<lparr>b_bytes = bs, b_origin = r, b_index = indexCounter s, b_label = l,
    b_emitCounter = word_of_int (emitCount s)\<rparr>"
  have r: "r < length (heap s)" using wf_stateD(7) [OF assms(1)] assms(2) by simp
  have eq: "BroadcastBytes bs s = Inr (None, s\<lparr>broadcasts := AList.update l b (broadcasts s),
      indexCounter := indexCounter s + 1\<rparr>)"
    using False assms(2) by (simp add: BroadcastBytes_def Broadcast_Label_new l_def b_def)
  have "broadcasts_ok (heap s) (AList.update l b (broadcasts s))"
    using wf_stateD(6) [OF assms(1)] r by (intro broadcasts_ok_update) (simp_all add: b_def l_def)
  then have "wf_state (s\<lparr>broadcasts := AList.update l b (broadcasts s), indexCounter := indexCounter s + 1\<rparr>)"
    using assms(1) by (simp add: wf_state_updates)
  then show ?thesis using False eq
    by (auto simp: map_of_update b_def l_def intro!: exI [of _ "AList.update l b (broadcasts s)"])
qed

theorem BroadcastBytes_behaviour_witness:
  "\<exists>t m. BroadcastBytes [72, 105] two_hosts = Inr (None, t) \<and>
    map_of m (label_of [host_node 1, host_node 2] 0 1) \<noteq> None \<and> broadcasts t = m"
proof -
  have "\<not> maxBroadcastBytesOf two_hosts < int (length [72 :: byte, 105])" by code_simp
  then show ?thesis
    using BroadcastBytes_behaviour [of two_hosts 0 "[72, 105]"] by (auto simp del: maxBroadcastBytesOf_def)
qed

text \<open>
  C32. \<open>getBroadcastToEmit\<close> forgets exactly the broadcasts whose counter is at or below
  -100, whatever order the map is visited in, and offers a remaining one whose counter no other
  remaining broadcast exceeds; it offers none only when none remains.
\<close>

theorem getBroadcastToEmit_best:
  assumes "wf_state s" and "getBroadcastToEmit ord s = (ob, t)"
  shows "t = s\<lparr>broadcasts := broadcasts t\<rparr> \<and> wf_state t \<and>
    (\<forall>k b. map_of (broadcasts t) k = Some b \<longleftrightarrow>
       map_of (broadcasts s) k = Some b \<and> - 100 < sint (b_emitCounter b)) \<and>
    (case ob of
       None \<Rightarrow> broadcasts t = []
     | Some b \<Rightarrow> map_of (broadcasts t) (b_label b) = Some b \<and>
         (\<forall>k b'. map_of (broadcasts t) k = Some b' \<longrightarrow> sint (b_emitCounter b') \<le> sint (b_emitCounter b)))"
proof -
  note ok = getBroadcastToEmit_ok [OF wf_stateD(6) [OF assms(1)] assms(2), unfolded bcast_counter_def]
  have "wf_state (s\<lparr>broadcasts := broadcasts t\<rparr>)"
    by (rule wf_state_updates) (use assms(1) ok in blast)+
  with ok have "wf_state t" by metis
  with ok show ?thesis by blast
qed

definition two_broadcasts :: smudge where
  "two_broadcasts = two_hosts\<lparr>broadcasts :=
     [(''old'', (sample_broadcast [1])\<lparr>b_label := ''old'', b_emitCounter := - 100\<rparr>),
      (''new'', (sample_broadcast [2])\<lparr>b_label := ''new''\<rparr>)]\<rparr>"

theorem getBroadcastToEmit_best_witness:
  "wf_state two_broadcasts \<and> map_of (broadcasts (snd (getBroadcastToEmit [] two_broadcasts))) ''old'' = None \<and>
   fst (getBroadcastToEmit [] two_broadcasts) \<noteq> None"
proof -
  have wf: "wf_state two_broadcasts"
    unfolding two_broadcasts_def
    by (rule wf_state_updates) (simp_all add: broadcasts_ok_def wf_map_def)
  obtain ob t where g: "getBroadcastToEmit [] two_broadcasts = (ob, t)" by fastforce
  note best = getBroadcastToEmit_best [OF wf g]
  have "map_of (broadcasts t) ''new'' \<noteq> None"
    using best by (auto simp: two_broadcasts_def sample_broadcast_def)
  moreover have "map_of (broadcasts t) ''old'' = None"
    using best by (cases "map_of (broadcasts t) ''old''") (auto simp: two_broadcasts_def)
  ultimately show ?thesis using wf g best by (auto split: option.splits)
qed

text \<open>
  In IPv6 mode the encoder panics on a broadcast whose origin has an IPv4 address, in
  either of its two forms: the address is shortened to four bytes and then read as sixteen.
\<close>

theorem broadcast_encode_v4_in_v6_panics:
  assumes "To4 (ip (h ! b_origin b)) \<noteq> []"
  shows "Broadcast_encode h IPv6len b = Inl IndexOutOfRange"
  using assms by (intro Broadcast_encode_panics) simp_all

theorem broadcast_encode_v4_in_v6_panics_witness:
  "Broadcast_encode [host_node 1, host_node 2] IPv6len (sample_broadcast []) = Inl IndexOutOfRange"
  by (rule broadcast_encode_v4_in_v6_panics) simp

end
