(* ===== verification/Message.thy ===== *)
theory Message
  imports Broadcasts
begin

text \<open>
  \<open>src/message.go\<close>: messages, their wire format and its decoder. A \<open>nil\<close> member list
  and an empty one behave alike and are both \<open>[]\<close>. The guards \<open>len(mip) > 0\<close> and
  \<open>len(sip) > 0\<close> of the decoder always hold (\<open>read_ip_length\<close>), so a decoded member
  always has a node and a source.
\<close>

section \<open>The operations\<close>

record messageMember =
  mm_source :: "node_ref option"
  mm_heartbeat :: uint32
  mm_node :: node_ref
  mm_status :: NodeStatus

record message =
  sender :: "node_ref option"
  senderHeartbeat :: uint32
  verb :: messageVerb
  members :: "messageMember list"
  broadcast :: "Broadcast option"

definition newMessage :: "messageVerb \<Rightarrow> node_ref option \<Rightarrow> uint32 \<Rightarrow> message" where
  "newMessage v from hb =
     \<lparr>sender = from, senderHeartbeat = hb, verb = v, members = [], broadcast = None\<rparr>"

definition addBroadcast :: "Broadcast \<Rightarrow> message \<Rightarrow> message" where
  "addBroadcast b m = m\<lparr>broadcast := Some b\<rparr>"

definition addMember ::
  "node_ref \<Rightarrow> NodeStatus \<Rightarrow> uint32 \<Rightarrow> node_ref option \<Rightarrow> message \<Rightarrow> go_error option \<times> message" where
  "addMember r st hb gossipSource m =
     (if length (members m) \<ge> 63 then (Some (ErrMsg ''member list overflow''), m)
      else (None, m\<lparr>members := members m @
              [\<lparr>mm_source = gossipSource, mm_heartbeat = hb, mm_node = r, mm_status = st\<rparr>]\<rparr>))"

definition member_ip :: "nat \<Rightarrow> IP \<Rightarrow> IP" where
  "member_ip n a = (if n = IPv4len then To4 a else if n = IPv6len then To16 a else [])"

text \<open>The body of the loop over the members: the buffer and the index pointer are threaded.\<close>

definition encode_member ::
  "heap \<Rightarrow> nat \<Rightarrow> messageMember \<Rightarrow> byte list \<times> nat \<Rightarrow> (byte list \<times> nat) outcome" where
  "encode_member h n member bp =
     (let (bytes, p) = bp; mnode = h ! mm_node member in
      bindR (setIdx bytes p (mm_status member)) (\<lambda>bytes. let p = p + 1 in
      bindR (write_ip n (member_ip n (ip mnode)) bytes p) (\<lambda>bytes. let p = p + n in
      bindR (encodeUint16 (port mnode) bytes p) (\<lambda>(bytes, k). let p = p + k in
      bindR (encodeUint32 (mm_heartbeat member) bytes p) (\<lambda>(bytes, k). let p = p + k in
        (case mm_source member of
           Some q \<Rightarrow>
             bindR (write_ip n (member_ip n (ip (h ! q))) bytes p) (\<lambda>bytes. let p = p + n in
             bindR (encodeUint16 (port (h ! q)) bytes p) (\<lambda>(bytes, k). Inr (bytes, p + k)))
         | None \<Rightarrow> Inr (bytes, p + (n + 2))))))))"

definition message_encode :: "heap \<Rightarrow> nat \<Rightarrow> message \<Rightarrow> byte list outcome" where
  "message_encode h n m =
     (let size = 11 + length (members m) * (9 + n + n);
          size = (case broadcast m of None \<Rightarrow> size | Some b \<Rightarrow> size + (8 + n + length (b_bytes b)));
          bytes = replicate size 0;
          p = 4;
          verbByte = word_of_nat (length (members m)) :: byte;
          verbByte = push_bit 2 verbByte OR verb m
      in bindR (encodeByte verbByte bytes p) (\<lambda>(bytes, k). let p = p + k in
         case sender m of None \<Rightarrow> Inl NilDereference | Some from \<Rightarrow>
         bindR (encodeUint16 (port (h ! from)) bytes p) (\<lambda>(bytes, k). let p = p + k in
         bindR (encodeUint32 (senderHeartbeat m) bytes p) (\<lambda>(bytes, k). let p = p + k in
         bindR (foldR (encode_member h n) (members m) (bytes, p)) (\<lambda>(bytes, p).
         bindR (case broadcast m of
                  None \<Rightarrow> Inr bytes
                | Some b \<Rightarrow> bindR (Broadcast_encode h n b) (\<lambda>bbytes.
                    write_ip (length bbytes) bbytes bytes p)) (\<lambda>bytes.
         let checksum = adler32 (drop 4 bytes) in
         bindR (encodeUint32 checksum bytes 0) (\<lambda>(bytes, k). Inr bytes)))))))"

definition getForwardTo :: "message \<Rightarrow> messageMember option" where
  "getForwardTo m =
     (case members m of
        [] \<Rightarrow> None
      | mm # _ \<Rightarrow> if mm_status mm = StatusForwardTo then Some mm else None)"

text \<open>The body of the loop of \<open>decodeMembers\<close>.\<close>

definition decode_member ::
  "gslice \<Rightarrow> nat \<Rightarrow> smudge \<Rightarrow> (messageMember \<times> nat \<times> smudge) outcome" where
  "decode_member bytes p s =
     bindR (sindex bytes p) (\<lambda>mstatus. let p = p + 1 in
     bindR (read_ip (ipLen s) bytes p) (\<lambda>mip. let p = p + ipLen s in
     bindR (decodeUint16 bytes p) (\<lambda>(mport, p).
     bindR (decodeUint32 bytes p) (\<lambda>(mcode, p).
     let (mnode, s) = resolve mip mport s in
     bindR (read_ip (ipLen s) bytes p) (\<lambda>sip. let p = p + ipLen s in
     bindR (decodeUint16 bytes p) (\<lambda>(sport, p).
     let (snode, s) = resolve sip sport s in
     Inr (\<lparr>mm_source = Some snode, mm_heartbeat = mcode, mm_node = mnode, mm_status = mstatus\<rparr>, p, s)))))))"

lemma bindR_cong [fundef_cong]:
  "r = r' \<Longrightarrow> (\<And>x. r' = Inr x \<Longrightarrow> f x = f' x) \<Longrightarrow> bindR r f = bindR r' f'"
  by (cases r) auto

lemma decode_member_index:
  "ensures (decode_member bytes p s) (\<lambda>(mm, q, t). p < q \<and> p < length (live bytes))"
  unfolding decode_member_def Let_def
  by (auto intro!: ensures_bind split: prod.splits dest!: codec16.dec_index codec32.dec_index)

lemma decode_member_advances: "decode_member bytes p s = Inr (mm, q, t) \<Longrightarrow> p < q \<and> p < length (live bytes)"
  using ensuresD [OF decode_member_index] by fastforce

function decode_members :: "gslice \<Rightarrow> nat \<Rightarrow> messageMember list \<Rightarrow> smudge \<Rightarrow> (messageMember list \<times> smudge) outcome" where
  "decode_members bytes p ms s =
     (if p < length (live bytes)
      then bindR (decode_member bytes p s) (\<lambda>r. decode_members bytes (fst (snd r)) (ms @ [fst r]) (snd (snd r)))
      else Inr (ms, s))"
  by pat_completeness auto
termination
  by (relation "measure (\<lambda>(bytes, p, ms, s). length (live bytes) - p)")
    (auto dest!: decode_member_advances)

declare decode_members.simps [simp del]

definition decodeMembers :: "nat \<Rightarrow> gslice \<Rightarrow> smudge \<Rightarrow> (messageMember list \<times> smudge) outcome" where
  "decodeMembers memberCount bytes s = decode_members bytes 0 [] s"

definition decodeMessage :: "IP \<Rightarrow> gslice \<Rightarrow> smudge \<Rightarrow> (message \<times> go_error option \<times> smudge) outcome" where
  "decodeMessage sourceIP bytes s =
     (let p = 0 in
      bindR (decodeUint32 bytes p) (\<lambda>(checksumStated, p).
      bindR (sslice bytes 4 (length (live bytes))) (\<lambda>payload.
      let checksumCalculated = adler32 (live payload) in
      if checksumCalculated \<noteq> checksumStated
      then Inr (newMessage 255 None 0, Some (ErrMsg (''checksum failure from '' @ IP_String sourceIP)), s)
      else
      bindR (decodeByte bytes p) (\<lambda>(v, p).
      let vrb = v AND 0x03; memberCount = unat (drop_bit 2 v) in
      bindR (decodeUint16 bytes p) (\<lambda>(senderPort, p).
      bindR (decodeUint32 bytes p) (\<lambda>(hb, p).
      let (from, s) = resolve sourceIP senderPort s;
          m = newMessage vrb (Some from) hb;
          memberLastIndex = p + memberCount * (9 + ipLen s + ipLen s) in
      bindR (if length (live bytes) > p
             then bindR (sslice bytes p memberLastIndex) (\<lambda>mbytes.
                  bindR (decodeMembers memberCount mbytes s) (\<lambda>(ms, s). Inr (m\<lparr>members := ms\<rparr>, s)))
             else Inr (m, s)) (\<lambda>(m, s).
      if length (live bytes) > memberLastIndex
      then bindR (sslice bytes memberLastIndex (length (live bytes))) (\<lambda>bbytes.
           bindR (decodeBroadcast bbytes s) (\<lambda>(b, err, s). Inr (m\<lparr>broadcast := Some b\<rparr>, err, s)))
      else Inr (m, None, s))))))))"

section \<open>The reference layout\<close>

definition member_image :: "heap \<Rightarrow> nat \<Rightarrow> messageMember \<Rightarrow> byte list" where
  "member_image h n mm =
     [mm_status mm] @ member_ip n (ip (h ! mm_node mm)) @ le16 (port (h ! mm_node mm)) @
     le32 (mm_heartbeat mm) @
     (case mm_source mm of
        Some q \<Rightarrow> member_ip n (ip (h ! q)) @ le16 (port (h ! q))
      | None \<Rightarrow> replicate (n + 2) 0)"

definition header_image :: "uint16 \<Rightarrow> message \<Rightarrow> byte list" where
  "header_image prt m =
     [push_bit 2 (word_of_nat (length (members m))) OR verb m] @ le16 prt @ le32 (senderHeartbeat m)"

definition payload_image :: "heap \<Rightarrow> nat \<Rightarrow> uint16 \<Rightarrow> message \<Rightarrow> byte list" where
  "payload_image h n prt m =
     header_image prt m @ concat (map (member_image h n) (members m)) @
     (case broadcast m of None \<Rightarrow> [] | Some b \<Rightarrow> broadcast_image h b)"

definition message_image :: "heap \<Rightarrow> nat \<Rightarrow> uint16 \<Rightarrow> message \<Rightarrow> byte list" where
  "message_image h n prt m =
     le32 (adler32 (payload_image h n prt m)) @ payload_image h n prt m"

text \<open>
  A member can be encoded when the addresses of its node and its source exist in the address
  mode; a message when all its members and its broadcast can.
\<close>

definition member_fits :: "heap \<Rightarrow> nat \<Rightarrow> messageMember \<Rightarrow> bool" where
  "member_fits h n mm \<longleftrightarrow> length (member_ip n (ip (h ! mm_node mm))) = n \<and>
     (\<forall>q. mm_source mm = Some q \<longrightarrow> length (member_ip n (ip (h ! q))) = n)"

definition message_fits :: "heap \<Rightarrow> nat \<Rightarrow> message \<Rightarrow> bool" where
  "message_fits h n m \<longleftrightarrow> (\<forall>mm \<in> set (members m). member_fits h n mm) \<and>
     (\<forall>b. broadcast m = Some b \<longrightarrow> fits n (ip (h ! b_origin b)))"

lemma length_member_image: "member_fits h n mm \<Longrightarrow> length (member_image h n mm) = 9 + n + n"
  by (auto simp: member_image_def member_fits_def split: option.splits)

lemma encode_member_room:
  assumes "member_fits h n mm" and "p = length pre" and "9 + n + n \<le> k"
  shows "encode_member h n mm (pre @ replicate k 0, p) =
    Inr ((pre @ member_image h n mm) @ replicate (k - (9 + n + n)) 0, p + (9 + n + n))"
proof -
  let ?a = "member_ip n (ip (h ! mm_node mm))"
  have len: "length ?a = n" and src: "\<And>q. mm_source mm = Some q \<Longrightarrow> length (member_ip n (ip (h ! q))) = n"
    using assms(1) by (simp_all add: member_fits_def)
  let ?x1 = "pre @ [mm_status mm]"
  let ?x2 = "?x1 @ ?a"
  let ?x3 = "?x2 @ le16 (port (h ! mm_node mm))"
  let ?x4 = "?x3 @ le32 (mm_heartbeat mm)"
  have 1: "setIdx (pre @ replicate k 0) p (mm_status mm) = Inr (?x1 @ replicate (k - 1) 0)"
    using assms(2,3) by (intro setIdx_room) simp_all
  have 2: "write_ip n ?a (?x1 @ replicate (k - 1) 0) (p + 1) = Inr (?x2 @ replicate (k - 1 - n) 0)"
    using assms(2,3) len by (intro write_ip_room) simp_all
  have 3: "encodeUint16 (port (h ! mm_node mm)) (?x2 @ replicate (k - 1 - n) 0) (p + 1 + n) =
      Inr (?x3 @ replicate (k - 1 - n - 2) 0, 2)"
    using assms(2,3) len by (intro codec16.enc_room) simp_all
  have 4: "encodeUint32 (mm_heartbeat mm) (?x3 @ replicate (k - 1 - n - 2) 0) (p + 1 + n + 2) =
      Inr (?x4 @ replicate (k - 1 - n - 2 - 4) 0, 4)"
    using assms(2,3) len by (intro codec32.enc_room) simp_all
  note steps = encode_member_def Let_def prod.case bindR_simps 1 2 3 4
  show ?thesis
  proof (cases "mm_source mm")
    case None
    have "k - 1 - n - 2 - 4 = (n + 2) + (k - (9 + n + n))" using assms(3) by simp
    then have "replicate (k - 1 - n - 2 - 4) 0 = replicate (n + 2) 0 @ replicate (k - (9 + n + n)) (0 :: byte)"
      by (simp only: replicate_add)
    then show ?thesis unfolding steps None option.case
      by (simp only: member_image_def None option.case append_assoc) simp
  next
    case (Some q)
    let ?b = "member_ip n (ip (h ! q))"
    have 5: "write_ip n ?b (?x4 @ replicate (k - 1 - n - 2 - 4) 0) (p + 1 + n + 2 + 4) =
        Inr ((?x4 @ ?b) @ replicate (k - 1 - n - 2 - 4 - n) 0)"
      using assms(2,3) len src [OF Some] by (intro write_ip_room) simp_all
    have 6: "encodeUint16 (port (h ! q)) ((?x4 @ ?b) @ replicate (k - 1 - n - 2 - 4 - n) 0)
        (p + 1 + n + 2 + 4 + n) = Inr (((?x4 @ ?b) @ le16 (port (h ! q))) @
          replicate (k - 1 - n - 2 - 4 - n - 2) 0, 2)"
      using assms(2,3) len src [OF Some] by (intro codec16.enc_room) simp_all
    show ?thesis unfolding steps Some option.case 5 6
      by (simp add: member_image_def Some)
  qed
qed

lemma encode_members_room:
  assumes "\<forall>mm \<in> set ms. member_fits h n mm" and "p = length pre" and "length ms * (9 + n + n) \<le> k"
  shows "foldR (encode_member h n) ms (pre @ replicate k 0, p) =
    Inr ((pre @ concat (map (member_image h n) ms)) @ replicate (k - length ms * (9 + n + n)) 0,
         p + length ms * (9 + n + n))"
  using assms
proof (induction ms arbitrary: pre p k)
  case (Cons mm ms)
  let ?w = "9 + n + n"
  have "encode_member h n mm (pre @ replicate k 0, p) =
      Inr ((pre @ member_image h n mm) @ replicate (k - ?w) 0, p + ?w)"
    using Cons.prems by (intro encode_member_room) simp_all
  moreover have "p + ?w = length (pre @ member_image h n mm)"
    using Cons.prems by (simp add: length_member_image)
  ultimately show ?case using Cons.prems Cons.IH [of "p + ?w" "pre @ member_image h n mm" "k - ?w"]
    by (simp add: ac_simps)
qed simp

definition bcast_bytes :: "heap \<Rightarrow> message \<Rightarrow> byte list" where
  "bcast_bytes h m = (case broadcast m of None \<Rightarrow> [] | Some b \<Rightarrow> broadcast_image h b)"

lemma length_bcast_bytes:
  "message_fits h n m \<Longrightarrow>
     length (bcast_bytes h m) = (case broadcast m of None \<Rightarrow> 0 | Some b \<Rightarrow> 8 + n + length (b_bytes b))"
  by (auto simp: bcast_bytes_def broadcast_image_def message_fits_def fits_def split: option.splits)

lemma encode_broadcast_room:
  assumes "message_fits h n m" and "p = length pre"
  shows "(case broadcast m of
      None \<Rightarrow> Inr (pre @ replicate (length (bcast_bytes h m)) 0)
    | Some b \<Rightarrow> bindR (Broadcast_encode h n b) (\<lambda>bbytes.
        write_ip (length bbytes) bbytes (pre @ replicate (length (bcast_bytes h m)) 0) p)) =
    Inr (pre @ bcast_bytes h m)"
proof (cases "broadcast m")
  case None
  then show ?thesis by (simp add: bcast_bytes_def)
next
  case (Some b)
  have "Broadcast_encode h n b = Inr (broadcast_image h b)"
    using assms(1) Some by (intro Broadcast_encode_eq) (simp add: message_fits_def)
  then show ?thesis using Some assms(2) by (simp add: bcast_bytes_def write_ip_room)
qed

lemma message_encode_eq:
  assumes "message_fits h n m" and "sender m = Some from"
  shows "message_encode h n m = Inr (message_image h n (port (h ! from)) m)"
proof -
  let ?L = "length (members m) * (9 + n + n)" and ?B = "length (bcast_bytes h m)"
  let ?v = "push_bit 2 (word_of_nat (length (members m))) OR verb m :: byte"
  let ?p0 = "replicate 4 0 :: byte list"
  let ?p1 = "?p0 @ le8 ?v"
  let ?p2 = "?p1 @ le16 (port (h ! from))"
  let ?p3 = "?p2 @ le32 (senderHeartbeat m)"
  let ?p4 = "?p3 @ concat (map (member_image h n) (members m))"
  let ?pay = "payload_image h n (port (h ! from)) m"
  have len: "length (concat (map (member_image h n) (members m))) = ?L"
    using assms(1) by (simp add: length_concat message_fits_def length_member_image comp_def sum_list_triv
        cong: map_cong)
  have size: "(case broadcast m of None \<Rightarrow> 11 + ?L | Some b \<Rightarrow> 11 + ?L + (8 + n + length (b_bytes b))) = 4 + (7 + ?L + ?B)"
    using length_bcast_bytes [OF assms(1)] by (auto split: option.splits)
  have 1: "encodeByte ?v (?p0 @ replicate (7 + ?L + ?B) 0) 4 = Inr (?p1 @ replicate (7 + ?L + ?B - 1) 0, 1)"
    using codec8.enc_room [of 4 ?p0 "7 + ?L + ?B" ?v] by (simp add: encodeUint8_def)
  have 2: "encodeUint16 (port (h ! from)) (?p1 @ replicate (7 + ?L + ?B - 1) 0) (4 + 1) =
      Inr (?p2 @ replicate (7 + ?L + ?B - 1 - 2) 0, 2)"
    by (rule codec16.enc_room) simp_all
  have 3: "encodeUint32 (senderHeartbeat m) (?p2 @ replicate (7 + ?L + ?B - 1 - 2) 0) (4 + 1 + 2) =
      Inr (?p3 @ replicate (7 + ?L + ?B - 1 - 2 - 4) 0, 4)"
    by (rule codec32.enc_room) simp_all
  have 4: "foldR (encode_member h n) (members m) (?p3 @ replicate (7 + ?L + ?B - 1 - 2 - 4) 0, 4 + 1 + 2 + 4) =
      Inr (?p4 @ replicate ?B 0, 4 + 1 + 2 + 4 + ?L)"
    using encode_members_room [of "members m" h n "4 + 1 + 2 + 4" ?p3 "?L + ?B"] assms(1)
    by (simp add: message_fits_def)
  have 5: "(case broadcast m of
      None \<Rightarrow> Inr (?p4 @ replicate ?B 0)
    | Some b \<Rightarrow> bindR (Broadcast_encode h n b) (\<lambda>bbytes.
        write_ip (length bbytes) bbytes (?p4 @ replicate ?B 0) (4 + 1 + 2 + 4 + ?L))) =
    Inr (?p4 @ bcast_bytes h m)"
    by (rule encode_broadcast_room [OF assms(1)]) (simp add: len)
  have pay: "?p4 @ bcast_bytes h m = ?p0 @ ?pay"
    by (simp add: payload_image_def header_image_def bcast_bytes_def le8_def)
  have "encodeUint32 (adler32 ?pay) (?p0 @ ?pay) 0 = Inr (message_image h n (port (h ! from)) m, 4)"
    by (simp add: codec32.enc_fits overwrite_def message_image_def)
  then have 6: "encodeUint32 (adler32 (drop 4 (?p0 @ ?pay))) (?p0 @ ?pay) 0 =
      Inr (message_image h n (port (h ! from)) m, 4)" by simp
  have rep: "replicate (4 + (7 + ?L + ?B)) 0 = ?p0 @ replicate (7 + ?L + ?B) 0" by (rule replicate_add)
  show ?thesis
    unfolding message_encode_def Let_def size assms(2) option.case rep
      1 2 3 4 5 pay 6 bindR_simps prod.case ..
qed

section \<open>Decoding what was encoded\<close>

lemma take_bit_small: "unat w < 2 ^ n \<Longrightarrow> take_bit n w = w" for w :: "'a::len word"
  by (simp add: word_unat_eq_iff unsigned_take_bit_eq take_bit_nat_eq_self)

lemma verb_byte:
  fixes v :: byte
  assumes "v < 4" and "l < 64"
  shows "(push_bit 2 (word_of_nat l) OR v) AND 3 = v"
    and "unat (drop_bit 2 (push_bit 2 (word_of_nat l) OR v)) = l"
proof -
  let ?w = "word_of_nat l :: byte"
  have v: "take_bit 2 v = v" using assms(1) by (intro take_bit_small) (simp add: word_less_nat_alt)
  have l: "unat ?w = l" using assms(2) by (simp add: unat_of_nat)
  then have w: "take_bit 6 ?w = ?w" using assms(2) by (intro take_bit_small) simp
  have hi: "\<not> bit v i" if "2 \<le> i" for i using v that by (metis bit_take_bit_iff not_less)
  have "(3 :: byte) = mask 2" by (simp add: mask_eq_exp_minus_1)
  then have "(push_bit 2 ?w OR v) AND 3 = take_bit 2 (push_bit 2 ?w OR v)"
    by (simp only: take_bit_eq_mask)
  also have "\<dots> = v" by (rule bit_word_eqI) (use hi in \<open>auto simp: bit_simps\<close>)
  finally show "(push_bit 2 ?w OR v) AND 3 = v" .
  have "drop_bit 2 (push_bit 2 ?w OR v) = take_bit 6 ?w"
    by (rule bit_word_eqI) (use hi in \<open>auto simp: bit_simps dest: bit_imp_le_length\<close>)
  then show "unat (drop_bit 2 (push_bit 2 (word_of_nat l) OR v)) = l"
    using w l by simp
qed

text \<open>What a receiver recovers of a member: the same gossip about nodes of the same addresses.\<close>

definition same_member :: "heap \<Rightarrow> messageMember \<Rightarrow> heap \<Rightarrow> messageMember \<Rightarrow> bool" where
  "same_member h mm h' mm' \<longleftrightarrow> mm_status mm' = mm_status mm \<and> mm_heartbeat mm' = mm_heartbeat mm \<and>
     mm_node mm' < length h' \<and> addressOf h' (mm_node mm') = addressOf h (mm_node mm) \<and>
     (\<exists>q'. mm_source mm' = Some q' \<and> q' < length h' \<and>
       (\<forall>q. mm_source mm = Some q \<longrightarrow> addressOf h' q' = addressOf h q))"

lemma same_member_mono: "same_member h mm h' mm' \<Longrightarrow> extends h' h'' \<Longrightarrow> same_member h mm h'' mm'"
  by (auto simp: same_member_def extends_addressOf intro: less_length_mono)

text \<open>A member that can be sent: its nodes are well-formed, have a port and fit the address mode.\<close>

definition sendable :: "heap \<Rightarrow> nat \<Rightarrow> node_ref \<Rightarrow> bool" where
  "sendable h n r \<longleftrightarrow> wf_node (h ! r) \<and> port (h ! r) \<noteq> 0 \<and> length (member_ip n (ip (h ! r))) = n"

definition member_sendable :: "heap \<Rightarrow> nat \<Rightarrow> messageMember \<Rightarrow> bool" where
  "member_sendable h n mm \<longleftrightarrow> sendable h n (mm_node mm) \<and>
     (\<forall>q. mm_source mm = Some q \<longrightarrow> sendable h n q)"

lemma member_sendable_fits: "member_sendable h n mm \<Longrightarrow> member_fits h n mm"
  by (auto simp: member_sendable_def member_fits_def sendable_def)

lemma ip_of_wire_member:
  assumes "sendable h n r" and "n = IPv4len \<or> n = IPv6len"
  shows "ip_of_wire (member_ip n (ip (h ! r))) = To16 (ip (h ! r))"
proof (cases "n = IPv4len")
  case True
  then have "To4 (ip (h ! r)) \<noteq> []" using assms(1) by (auto simp: sendable_def member_ip_def ip_len_defs)
  then show ?thesis using True by (simp add: member_ip_def ip_of_wire_To4)
next
  case False
  then show ?thesis using assms by (simp add: member_ip_def sendable_def wf_node_def ip_of_wire_To16)
qed

definition source_ip :: "heap \<Rightarrow> nat \<Rightarrow> messageMember \<Rightarrow> IP" where
  "source_ip h n mm =
     (case mm_source mm of Some q \<Rightarrow> member_ip n (ip (h ! q)) | None \<Rightarrow> replicate n 0)"

definition source_port :: "heap \<Rightarrow> messageMember \<Rightarrow> uint16" where
  "source_port h mm = (case mm_source mm of Some q \<Rightarrow> port (h ! q) | None \<Rightarrow> 0)"

lemma replicate_two: "replicate (n + 2) x = replicate n x @ [x, x]"
  by (simp only: replicate_add) (simp add: numeral_2_eq_2)

lemma member_image_source:
  "member_image h n mm = [mm_status mm] @ member_ip n (ip (h ! mm_node mm)) @
     le16 (port (h ! mm_node mm)) @ le32 (mm_heartbeat mm) @ source_ip h n mm @ le16 (source_port h mm)"
  by (cases "mm_source mm")
    (simp_all add: member_image_def source_ip_def source_port_def replicate_two del: add_2_eq_Suc',
      simp add: le16_def)

lemma decode_member_at:
  assumes "member_sendable h (ipLen t) mm" and fam: "ipLen t = IPv4len \<or> ipLen t = IPv6len"
    and "resolve (To16 (ip (h ! mm_node mm))) (port (h ! mm_node mm)) t = (r, t1)" and "ipLen t1 = ipLen t"
    and "resolve (ip_of_wire (source_ip h (ipLen t) mm)) (source_port h mm) t1 = (q, u)"
    and "p = length xs"
  shows "decode_member \<lparr>live = xs @ member_image h (ipLen t) mm @ ys, spare = sp\<rparr> p t =
    Inr (\<lparr>mm_source = Some q, mm_heartbeat = mm_heartbeat mm, mm_node = r, mm_status = mm_status mm\<rparr>,
         p + (9 + ipLen t + ipLen t), u)"
proof -
  let ?n = "ipLen t" and ?b = "\<lparr>live = xs @ member_image h (ipLen t) mm @ ys, spare = sp\<rparr>"
  let ?a = "member_ip ?n (ip (h ! mm_node mm))" and ?c = "source_ip h ?n mm"
  let ?x1 = "xs @ [mm_status mm]" let ?x2 = "?x1 @ ?a" let ?x3 = "?x2 @ le16 (port (h ! mm_node mm))"
  let ?x4 = "?x3 @ le32 (mm_heartbeat mm)" let ?x5 = "?x4 @ ?c"
  have len: "length ?a = ?n" "length ?c = ?n"
    using member_sendable_fits [OF assms(1)] by (auto simp: member_fits_def source_ip_def split: option.splits)
  have wire: "ip_of_wire ?a = To16 (ip (h ! mm_node mm))"
    using assms(1) fam by (intro ip_of_wire_member) (simp_all add: member_sendable_def)
  note b = member_image_source [of h ?n mm]
  have 1: "sindex ?b p = Inr (mm_status mm)" by (simp add: sindex_def assms(6) b nth_append)
  have 2: "read_ip ?n ?b (p + 1) = Inr (To16 (ip (h ! mm_node mm)))"
    using read_ip_at [of ?x1 "p + 1" ?a ?n] fam len assms(6) by (simp add: b wire)
  have 3: "decodeUint16 ?b (p + 1 + ?n) = Inr (port (h ! mm_node mm), p + 1 + ?n + 2)"
    using codec16.dec_at [of ?x2 "p + 1 + ?n" "port (h ! mm_node mm)"] len assms(6) by (simp add: b)
  have 4: "decodeUint32 ?b (p + 1 + ?n + 2) = Inr (mm_heartbeat mm, p + 1 + ?n + 2 + 4)"
    using codec32.dec_at [of ?x3 "p + 1 + ?n + 2" "mm_heartbeat mm"] len assms(6) by (simp add: b)
  have 5: "read_ip ?n ?b (p + 1 + ?n + 2 + 4) = Inr (ip_of_wire ?c)"
    using read_ip_at [of ?x4 "p + 1 + ?n + 2 + 4" ?c ?n] fam len assms(6) by (simp add: b)
  have 6: "decodeUint16 ?b (p + 1 + ?n + 2 + 4 + ?n) = Inr (source_port h mm, p + 1 + ?n + 2 + 4 + ?n + 2)"
    using codec16.dec_at [of ?x5 "p + 1 + ?n + 2 + 4 + ?n" "source_port h mm"] len assms(6) by (simp add: b)
  show ?thesis
    unfolding decode_member_def Let_def 1 2 3 4 5 6 bindR_simps prod.case assms(3,4,5) by simp
qed

lemma sendable_addr:
  "sendable h n r \<Longrightarrow> nodeAddressString (To16 (ip (h ! r))) (port (h ! r)) = addressOf h r"
  by (simp add: sendable_def addressOf_wf nodeAddressString_To16 wf_node_def)

lemma decode_member_sent:
  assumes "wf_state t" and "member_sendable h (ipLen t) mm" and "p = length xs"
  shows "yields (decode_member \<lparr>live = xs @ member_image h (ipLen t) mm @ ys, spare = sp\<rparr> p t)
    (\<lambda>(mm', q, u). q = p + (9 + ipLen t + ipLen t) \<and> wf_state u \<and> grows t u \<and> same_member h mm (heap u) mm')"
proof -
  let ?n = "ipLen t" and ?a = "To16 (ip (h ! mm_node mm))" and ?ap = "port (h ! mm_node mm)"
  let ?c = "ip_of_wire (source_ip h (ipLen t) mm)" and ?cp = "source_port h mm"
  note fam = wf_stateD(10) [OF assms(1)]
  have node: "sendable h ?n (mm_node mm)" and src: "\<And>q. mm_source mm = Some q \<Longrightarrow> sendable h ?n q"
    using assms(2) by (simp_all add: member_sendable_def)
  have len: "length (source_ip h ?n mm) = ?n"
    using src by (auto simp: source_ip_def sendable_def split: option.splits)
  have good: "valid_ip ?a" "valid_ip ?c"
    using node fam len ip_of_wire_valid [of "source_ip h ?n mm"]
    by (auto simp: sendable_def wf_node_def valid_ip_16)
  obtain r t1 where r: "resolve ?a ?ap t = (r, t1)" by fastforce
  obtain q u where q: "resolve ?c ?cp t1 = (q, u)" by fastforce
  note pair = nodes.resolve_pair [of t "(?a, ?ap)" "(?c, ?cp)" r t1 q u, simplified, OF assms(1) good r q]
  note names = nodes.resolve_pair_names [of t "(?a, ?ap)" "(?c, ?cp)" r t1 q u, simplified, OF assms(1) good r q]
  have "ipLen t1 = ?n" using resolve_ok [OF assms(1) good(1) r] grows_same by blast
  note dec = decode_member_at [OF assms(2) fam r this q assms(3), of ys sp]
  have "addr u r = addressOf h (mm_node mm)"
    using names node sendable_addr [OF node] by (simp add: sendable_def)
  moreover have "addr u q = addressOf h q'" if "mm_source mm = Some q'" for q'
    using names src [OF that] sendable_addr [OF src [OF that]] ip_of_wire_member [OF src [OF that] fam] that
    by (simp add: source_ip_def source_port_def sendable_def)
  ultimately show ?thesis unfolding dec using pair by (simp add: same_member_def)
qed

lemma decode_members_sent:
  assumes "wf_state t" and "\<forall>mm \<in> set ms. member_sendable h (ipLen t) mm" and "p = length xs"
  shows "yields (decode_members \<lparr>live = xs @ concat (map (member_image h (ipLen t)) ms), spare = sp\<rparr> p acc t)
    (\<lambda>(ms', u). wf_state u \<and> grows t u \<and> (\<exists>new. ms' = acc @ new \<and>
       list_all2 (\<lambda>mm mm'. same_member h mm (heap u) mm') ms new))"
  using assms
proof (induction ms arbitrary: xs p acc t)
  case Nil
  then show ?case by (subst decode_members.simps) (simp add: nodes.grows_refl)
next
  case (Cons mm ms)
  let ?n = "ipLen t" and ?w = "9 + ipLen t + ipLen t"
  let ?b = "\<lparr>live = xs @ concat (map (member_image h ?n) (mm # ms)), spare = sp\<rparr>"
  have fits: "member_sendable h ?n mm" using Cons.prems(2) by simp
  have len: "length (member_image h ?n mm) = ?w"
    using member_sendable_fits [OF fits] by (rule length_member_image)
  have less: "p < length (live ?b)" using Cons.prems(3) len by simp
  have "yields (decode_member ?b p t) (\<lambda>(mm', q, u). q = p + ?w \<and> wf_state u \<and> grows t u \<and> same_member h mm (heap u) mm')"
    using decode_member_sent [OF Cons.prems(1) fits Cons.prems(3)] by simp
  then obtain mm' u where one: "decode_member ?b p t = Inr (mm', p + ?w, u)"
    and u: "wf_state u" "grows t u" "same_member h mm (heap u) mm'"
    by (auto elim!: yieldsE)
  have n: "ipLen u = ?n" using u(2) by (rule grows_same)
  have "yields (decode_members \<lparr>live = (xs @ member_image h ?n mm) @ concat (map (member_image h (ipLen u)) ms),
      spare = sp\<rparr> (p + ?w) (acc @ [mm']) u)
    (\<lambda>(ms', v). wf_state v \<and> grows u v \<and> (\<exists>new. ms' = (acc @ [mm']) @ new \<and>
       list_all2 (\<lambda>mm mm'. same_member h mm (heap v) mm') ms new))"
    using Cons.prems u n len by (intro Cons.IH) simp_all
  then have "yields (decode_members ?b (p + ?w) (acc @ [mm']) u)
    (\<lambda>(ms', v). wf_state v \<and> grows u v \<and> (\<exists>new. ms' = (acc @ [mm']) @ new \<and>
       list_all2 (\<lambda>mm mm'. same_member h mm (heap v) mm') ms new))"
    by (simp add: n)
  then have "yields (decode_members ?b (p + ?w) (acc @ [mm']) u)
    (\<lambda>(ms', v). wf_state v \<and> grows t v \<and> (\<exists>new. ms' = acc @ new \<and>
       list_all2 (\<lambda>mm mm'. same_member h mm (heap v) mm') (mm # ms) new))"
    by (rule yields_weaken)
      (use grows_trans [OF u(2)] same_member_mono [OF u(3) grows_extends] in fastforce)
  then show ?case by (subst decode_members.simps) (simp only: less if_True one bindR_simps fst_conv snd_conv)
qed

text \<open>
  The decoder after the header: a function of the verb byte, the sender and the position, so
  that its two loops can be reasoned about on their own.
\<close>

definition take_members :: "gslice \<Rightarrow> nat \<Rightarrow> nat \<Rightarrow> nat \<Rightarrow> message \<Rightarrow> smudge \<Rightarrow> (message \<times> smudge) outcome" where
  "take_members bytes p lst cnt m s =
     (if length (live bytes) > p
      then bindR (sslice bytes p lst) (\<lambda>mbytes.
           bindR (decodeMembers cnt mbytes s) (\<lambda>(ms, s). Inr (m\<lparr>members := ms\<rparr>, s)))
      else Inr (m, s))"

definition take_broadcast :: "gslice \<Rightarrow> nat \<Rightarrow> message \<Rightarrow> smudge \<Rightarrow> (message \<times> go_error option \<times> smudge) outcome" where
  "take_broadcast bytes lst m s =
     (if length (live bytes) > lst
      then bindR (sslice bytes lst (length (live bytes))) (\<lambda>bbytes.
           bindR (decodeBroadcast bbytes s) (\<lambda>(b, err, s). Inr (m\<lparr>broadcast := Some b\<rparr>, err, s)))
      else Inr (m, None, s))"

definition decode_body :: "gslice \<Rightarrow> nat \<Rightarrow> nat \<Rightarrow> message \<Rightarrow> smudge \<Rightarrow> (message \<times> go_error option \<times> smudge) outcome" where
  "decode_body bytes p cnt m s =
     (let lst = p + cnt * (9 + ipLen s + ipLen s) in
      bindR (take_members bytes p lst cnt m s) (\<lambda>(m, s). take_broadcast bytes lst m s))"

lemma decodeMessage_split:
  assumes "decodeUint32 bytes 0 = Inr (stated, 4)" and "4 \<le> length (live bytes)"
    and "decodeByte bytes 4 = Inr (v, 5)" and "decodeUint16 bytes 5 = Inr (prt, 7)"
    and "decodeUint32 bytes 7 = Inr (hb, 11)"
    and "adler32 (drop 4 (live bytes)) = stated" and "resolve src prt s = (r, t)"
  shows "decodeMessage src bytes s =
    decode_body bytes 11 (unat (drop_bit 2 v)) (newMessage (v AND 3) (Some r) hb) t"
proof -
  let ?pl = "\<lparr>live = drop 4 (live bytes), spare = spare bytes\<rparr>"
  have slice: "sslice bytes 4 (length (live bytes)) = Inr ?pl"
    using assms(2) by (simp add: sslice_within)
  have sum: "(adler32 (live ?pl) \<noteq> stated) = False" using assms(6) by simp
  show ?thesis
    unfolding decodeMessage_def decode_body_def take_members_def take_broadcast_def Let_def assms(1) bindR_simps prod.case slice sum if_False
      assms(3-5,7) ..
qed

text \<open>The two parts of the body, on a buffer that holds the image of what was sent.\<close>

lemma length_member_images:
  "\<forall>mm \<in> set ms. member_sendable h n mm \<Longrightarrow>
     length (concat (map (member_image h n) ms)) = length ms * (9 + n + n)"
  by (simp add: length_concat length_member_image member_sendable_fits comp_def sum_list_triv cong: map_cong)

lemma take_members_sent:
  assumes "wf_state t" and "\<forall>mm \<in> set ms. member_sendable h (ipLen t) mm" and "length pre = p"
    and "lst = p + length ms * (9 + ipLen t + ipLen t)" and "members m = []"
  shows "yields (take_members \<lparr>live = pre @ concat (map (member_image h (ipLen t)) ms) @ bc, spare = sp\<rparr>
      p lst (length ms) m t) (\<lambda>(m', u). wf_state u \<and> grows t u \<and>
        (\<exists>ms'. m' = m\<lparr>members := ms'\<rparr> \<and> list_all2 (\<lambda>mm mm'. same_member h mm (heap u) mm') ms ms'))"
proof -
  let ?ms = "concat (map (member_image h (ipLen t)) ms)"
  let ?b = "\<lparr>live = pre @ ?ms @ bc, spare = sp\<rparr>"
  note len = length_member_images [OF assms(2)]
  show ?thesis
  proof (cases "length (live ?b) > p")
    case True
    have slice: "sslice ?b p lst = Inr \<lparr>live = ?ms, spare = bc @ sp\<rparr>"
      using assms(3,4) len by (simp add: sslice_def)
    show ?thesis using True decode_members_sent [OF assms(1,2), of 0 "[]" "bc @ sp" "[]"]
      by (auto simp: take_members_def slice decodeMembers_def elim!: yieldsE)
  next
    case False
    then have "ms = []" using len assms(3) by auto
    moreover have "m\<lparr>members := []\<rparr> = m" using assms(5) by (cases m) simp
    ultimately show ?thesis using False assms(1)
      by (auto simp: take_members_def nodes.grows_refl intro!: exI [of _ "[]"])
  qed
qed

lemma take_broadcast_sent:
  assumes "wf_state u" and "\<forall>b. ob = Some b \<longrightarrow> bcast_sendable h u b" and "length pre = p" and "broadcast m = None"
  shows "yields (take_broadcast \<lparr>live = pre @ (case ob of None \<Rightarrow> [] | Some b \<Rightarrow> broadcast_image h b), spare = sp\<rparr> p m u)
      (\<lambda>(m', err, v). err = None \<and> wf_state v \<and> grows u v \<and>
        (\<exists>ob'. m' = m\<lparr>broadcast := ob'\<rparr> \<and> rel_option (\<lambda>b b'. same_broadcast h b (heap v) b') ob ob'))"
proof (cases ob)
  case None
  moreover have "m\<lparr>broadcast := None\<rparr> = m" using assms(4) by (cases m) simp
  ultimately show ?thesis using assms(1,3)
    by (auto simp: take_broadcast_def nodes.grows_refl intro!: exI [of _ None])
next
  case (Some b)
  have ne: "broadcast_image h b \<noteq> []" by (simp add: broadcast_image_def le16_def)
  have slice: "sslice \<lparr>live = pre @ broadcast_image h b, spare = sp\<rparr> p (p + length (broadcast_image h b)) =
      Inr \<lparr>live = broadcast_image h b, spare = sp\<rparr>"
    using assms(3) by (simp add: sslice_def)
  have "yields (decodeBroadcast \<lparr>live = broadcast_image h b, spare = sp\<rparr> u)
      (\<lambda>(b', err, v). err = None \<and> wf_state v \<and> grows u v \<and> same_broadcast h b (heap v) b')"
    using assms(1,2) Some by (intro decodeBroadcast_sent) simp_all
  then show ?thesis using ne Some assms(3)
    by (auto simp: take_broadcast_def slice option_rel_Some1 elim!: yieldsE) blast
qed

lemma decode_body_sent:
  assumes "wf_state t" and "\<forall>mm \<in> set ms. member_sendable h (ipLen t) mm"
    and "\<forall>b. ob = Some b \<longrightarrow> bcast_sendable h t b" and "length pre = p" and "members m = []" and "broadcast m = None"
  defines "bc \<equiv> (case ob of None \<Rightarrow> [] | Some b \<Rightarrow> broadcast_image h b)"
  shows "yields (decode_body \<lparr>live = pre @ concat (map (member_image h (ipLen t)) ms) @ bc, spare = sp\<rparr> p (length ms) m t)
    (\<lambda>(m', err, u). err = None \<and> wf_state u \<and> grows t u \<and> sender m' = sender m \<and> verb m' = verb m \<and>
      senderHeartbeat m' = senderHeartbeat m \<and>
      list_all2 (\<lambda>mm mm'. same_member h mm (heap u) mm') ms (members m') \<and>
      rel_option (\<lambda>b b'. same_broadcast h b (heap u) b') ob (broadcast m'))"
  unfolding decode_body_def Let_def
proof (rule yields_bind [OF take_members_sent [OF assms(1,2,4) refl assms(5)]], clarify)
  let ?ms = "concat (map (member_image h (ipLen t)) ms)"
  let ?last = "p + length ms * (9 + ipLen t + ipLen t)"
  fix u ms' assume u: "wf_state u" "grows t u" and ms': "list_all2 (\<lambda>mm mm'. same_member h mm (heap u) mm') ms ms'"
  have "\<forall>b. ob = Some b \<longrightarrow> bcast_sendable h u b"
    using assms(3) grows_same [OF u(2)] by (simp add: bcast_sendable_def)
  then have bcast: "yields (take_broadcast \<lparr>live = (pre @ ?ms) @ bc, spare = sp\<rparr> ?last (m\<lparr>members := ms'\<rparr>) u)
      (\<lambda>(m', err, v). err = None \<and> wf_state v \<and> grows u v \<and>
        (\<exists>ob'. m' = m\<lparr>members := ms', broadcast := ob'\<rparr> \<and> rel_option (\<lambda>b b'. same_broadcast h b (heap v) b') ob ob'))"
    unfolding bc_def using u(1) assms(4,6) length_member_images [OF assms(2)]
    by (intro take_broadcast_sent) simp_all
  have mono: "list_all2 (\<lambda>mm mm'. same_member h mm (heap v) mm') ms ms'" if "grows u v" for v
    using ms' grows_extends [OF that] by (auto elim!: list_all2_mono intro: same_member_mono)
  show "yields (take_broadcast \<lparr>live = pre @ ?ms @ bc, spare = sp\<rparr> ?last (m\<lparr>members := ms'\<rparr>) u)
    (\<lambda>(m', err, v). err = None \<and> wf_state v \<and> grows t v \<and>
        sender m' = sender m \<and> verb m' = verb m \<and> senderHeartbeat m' = senderHeartbeat m \<and>
        list_all2 (\<lambda>mm mm'. same_member h mm (heap v) mm') ms (members m') \<and>
        rel_option (\<lambda>b b'. same_broadcast h b (heap v) b') ob (broadcast m'))"
    by (rule yields_weaken [OF bcast [simplified append_assoc]]) (use mono grows_trans [OF u(2)] in auto)
qed

section \<open>Decoding arbitrary datagrams\<close>

definition member_alloc :: "heap \<Rightarrow> messageMember \<Rightarrow> bool" where
  "member_alloc h mm \<longleftrightarrow> mm_node mm < length h \<and> ref_ok h (mm_source mm)"

definition message_alloc :: "heap \<Rightarrow> message \<Rightarrow> bool" where
  "message_alloc h m \<longleftrightarrow> ref_ok h (sender m) \<and> (\<forall>mm \<in> set (members m). member_alloc h mm) \<and>
     (\<forall>b. broadcast m = Some b \<longrightarrow> fresh_broadcast h b)"

lemma member_alloc_mono: "member_alloc h mm \<Longrightarrow> extends h h' \<Longrightarrow> member_alloc h' mm"
  by (auto simp: member_alloc_def intro: less_length_mono ref_ok_mono)

lemma fresh_broadcast_mono: "fresh_broadcast h b \<Longrightarrow> extends h h' \<Longrightarrow> fresh_broadcast h' b"
  by (auto simp: fresh_broadcast_def intro: less_length_mono)

lemma decode_member_ok:
  assumes "wf_state s"
  shows "ensures (decode_member bytes p s) (\<lambda>(mm, q, t). wf_state t \<and> grows s t \<and> member_alloc (heap t) mm \<and>
    q = p + (9 + ipLen s + ipLen s) \<and> q \<le> length (live bytes))"
proof -
  have "wf_state u \<and> grows s u \<and> r < length (heap u) \<and> q < length (heap u) \<and> ipLen t = ipLen s"
    if "length a = 16" "length c = 16" "resolve a ap s = (r, t)" "resolve c cp t = (q, u)" for a ap c cp r t q u
    using nodes.resolve_pair [of s "(a, ap)" "(c, cp)" r t q u] that assms valid_ip_16
      resolve_ok [OF assms _ that(3)] grows_same(3) by fastforce
  note pair = this
  show ?thesis unfolding decode_member_def Let_def
    by (auto intro!: ensures_bind split: prod.splits simp: member_alloc_def
        dest!: codec16.dec_index codec32.dec_index read_ip_length) (use pair in blast)+
qed

lemma decode_members_ok:
  assumes "wf_state s" and "\<forall>mm \<in> set acc. member_alloc (heap s) mm"
    and "length (live bytes) = p + k * (9 + ipLen s + ipLen s)"
  shows "ensures (decode_members bytes p acc s) (\<lambda>(ms, t). wf_state t \<and> grows s t \<and>
    (\<forall>mm \<in> set ms. member_alloc (heap t) mm) \<and> length ms = length acc + k)"
  using assms
proof (induction k arbitrary: p acc s)
  case 0
  then show ?case by (subst decode_members.simps) (simp add: nodes.grows_refl)
next
  case (Suc k)
  have less: "p < length (live bytes)" using Suc.prems(3) by simp
  show ?case
    unfolding decode_members.simps [of bytes p acc s] if_P [OF less]
  proof (rule ensures_bind)
    fix r assume "decode_member bytes p s = Inr r"
    then obtain mm u where r: "r = (mm, p + (9 + ipLen s + ipLen s), u)"
      and u: "wf_state u" "grows s u" "member_alloc (heap u) mm"
      using ensuresD [OF decode_member_ok [OF Suc.prems(1)]] by fastforce
    have n: "ipLen u = ipLen s" using u(2) by (rule grows_same)
    have "\<forall>mm' \<in> set (acc @ [mm]). member_alloc (heap u) mm'"
      using Suc.prems(2) u by (auto dest: grows_extends intro: member_alloc_mono)
    then have "ensures (decode_members bytes (p + (9 + ipLen s + ipLen s)) (acc @ [mm]) u)
      (\<lambda>(ms, t). wf_state t \<and> grows u t \<and> (\<forall>mm \<in> set ms. member_alloc (heap t) mm) \<and>
        length ms = length (acc @ [mm]) + k)"
      using u(1) Suc.prems(3) n by (intro Suc.IH) simp_all
    then show "ensures (decode_members bytes (fst (snd r)) (acc @ [fst r]) (snd (snd r)))
      (\<lambda>(ms, t). wf_state t \<and> grows s t \<and> (\<forall>mm \<in> set ms. member_alloc (heap t) mm) \<and>
        length ms = length acc + Suc k)"
      unfolding r fst_conv snd_conv by (rule ensures_weaken) (use grows_trans [OF u(2)] in auto)
  qed
qed

lemma take_members_ok:
  assumes "wf_state s" and "lst = p + cnt * (9 + ipLen s + ipLen s)" and "members m = []"
  shows "ensures (take_members bytes p lst cnt m s) (\<lambda>(m', t). wf_state t \<and> grows s t \<and>
    (\<exists>ms. m' = m\<lparr>members := ms\<rparr> \<and> (\<forall>mm \<in> set ms. member_alloc (heap t) mm) \<and>
      (p < length (live bytes) \<longrightarrow> length ms = cnt)))"
proof (cases "length (live bytes) > p")
  case True
  have dec: "ensures (decodeMembers cnt mb s) (\<lambda>(ms, t). wf_state t \<and> grows s t \<and>
      (\<forall>mm \<in> set ms. member_alloc (heap t) mm) \<and> length ms = cnt)"
    if "sslice bytes p lst = Inr mb" for mb
  proof -
    have "length (live mb) = 0 + cnt * (9 + ipLen s + ipLen s)"
      using that assms(2) by (auto simp: sslice_def Let_def split: if_splits)
    then show ?thesis unfolding decodeMembers_def
      using decode_members_ok [OF assms(1), of "[]" mb 0 cnt] by simp
  qed
  show ?thesis unfolding take_members_def if_P [OF True]
  proof (intro ensures_bind, clarify)
    fix mb ms t assume "sslice bytes p lst = Inr mb" and "decodeMembers cnt mb s = Inr (ms, t)"
    from ensuresD [OF dec [OF this(1)] this(2)] show "ensures (Inr (m\<lparr>members := ms\<rparr>, t))
      (\<lambda>(m', t). wf_state t \<and> grows s t \<and> (\<exists>ms. m' = m\<lparr>members := ms\<rparr> \<and>
        (\<forall>mm \<in> set ms. member_alloc (heap t) mm) \<and> (p < length (live bytes) \<longrightarrow> length ms = cnt)))" by auto
  qed
next
  case False
  have "m\<lparr>members := []\<rparr> = m" using assms(3) by (cases m) simp
  with False show ?thesis using assms(1)
    by (auto simp: take_members_def nodes.grows_refl intro!: exI [of _ "[]"])
qed

lemma take_broadcast_ok:
  assumes "wf_state s" and "broadcast m = None"
  shows "ensures (take_broadcast bytes lst m s) (\<lambda>(m', err, t). wf_state t \<and> grows s t \<and>
    (\<exists>ob. m' = m\<lparr>broadcast := ob\<rparr> \<and> (\<forall>b. ob = Some b \<longrightarrow> fresh_broadcast (heap t) b)))"
proof (cases "length (live bytes) > lst")
  case True
  show ?thesis unfolding take_broadcast_def if_P [OF True]
  proof (intro ensures_bind, clarify)
    fix bb b err t assume "decodeBroadcast bb s = Inr (b, err, t)"
    from ensuresD [OF decodeBroadcast_ok [OF assms(1)] this] show "ensures (Inr (m\<lparr>broadcast := Some b\<rparr>, err, t))
      (\<lambda>(m', err, t). wf_state t \<and> grows s t \<and>
        (\<exists>ob. m' = m\<lparr>broadcast := ob\<rparr> \<and> (\<forall>b. ob = Some b \<longrightarrow> fresh_broadcast (heap t) b)))"
      by (auto simp: fresh_broadcast_def intro!: exI [of _ "Some b"])
  qed
next
  case False
  have "m\<lparr>broadcast := None\<rparr> = m" using assms(2) by (cases m) simp
  with False show ?thesis using assms(1)
    by (auto simp: take_broadcast_def nodes.grows_refl intro!: exI [of _ None])
qed

lemma decode_body_ok:
  assumes "wf_state s" and "ref_ok (heap s) (sender m)" and "members m = []" and "broadcast m = None"
  shows "ensures (decode_body bytes p cnt m s) (\<lambda>(m', err, t). wf_state t \<and> grows s t \<and>
    message_alloc (heap t) m' \<and> sender m' = sender m \<and> verb m' = verb m \<and>
    senderHeartbeat m' = senderHeartbeat m \<and> (p < length (live bytes) \<longrightarrow> length (members m') = cnt))"
  unfolding decode_body_def Let_def
proof (rule ensures_bind, clarify)
  let ?last = "p + cnt * (9 + ipLen s + ipLen s)"
  fix m' t assume "take_members bytes p ?last cnt m s = Inr (m', t)"
  from ensuresD [OF take_members_ok [OF assms(1) refl assms(3)] this]
  obtain ms where t: "wf_state t" "grows s t" and m': "m' = m\<lparr>members := ms\<rparr>"
    and ms: "\<forall>mm \<in> set ms. member_alloc (heap t) mm" "p < length (live bytes) \<longrightarrow> length ms = cnt" by auto
  have bc: "ensures (take_broadcast bytes ?last m' t) (\<lambda>(m', err, u). wf_state u \<and> grows t u \<and>
      (\<exists>ob. m' = m\<lparr>members := ms, broadcast := ob\<rparr> \<and> (\<forall>b. ob = Some b \<longrightarrow> fresh_broadcast (heap u) b)))"
    using take_broadcast_ok [OF t(1), of m'] assms(4) by (simp add: m')
  have "ref_ok (heap u) (sender m)" "\<forall>mm \<in> set ms. member_alloc (heap u) mm" if "grows t u" for u
    using ms(1) assms(2) grows_extends [OF that] grows_extends [OF grows_trans [OF t(2) that]]
    by (auto intro: ref_ok_mono member_alloc_mono)
  then show "ensures (take_broadcast bytes ?last m' t) (\<lambda>(m', err, t). wf_state t \<and> grows s t \<and>
      message_alloc (heap t) m' \<and> sender m' = sender m \<and> verb m' = verb m \<and>
      senderHeartbeat m' = senderHeartbeat m \<and> (p < length (live bytes) \<longrightarrow> length (members m') = cnt))"
    by (intro ensures_weaken [OF bc]) (use ms(2) grows_trans [OF t(2)] in \<open>auto simp: message_alloc_def\<close>)
qed

definition checksum_ok :: "byte list \<Rightarrow> bool" where
  "checksum_ok bs \<longleftrightarrow> 4 \<le> length bs \<and> take 4 bs = le32 (adler32 (drop 4 bs))"

lemma stated_checksum:
  assumes "4 \<le> length (live bytes)"
  shows "\<exists>c. decodeUint32 bytes 0 = Inr (c, 4) \<and> (adler32 (drop 4 (live bytes)) = c \<longleftrightarrow> checksum_ok (live bytes))"
proof -
  obtain c where c: "le32 c = take 4 (live bytes)" using codec32.image_onto [of "take 4 (live bytes)"] assms by auto
  then have "decodeUint32 bytes 0 = Inr (c, 0 + 4)" using assms by (intro codec32.dec_image) simp_all
  moreover have "adler32 (drop 4 (live bytes)) = c \<longleftrightarrow> checksum_ok (live bytes)"
    using assms codec32.image_inject [of c "adler32 (drop 4 (live bytes))"] by (auto simp: checksum_ok_def c)
  ultimately show ?thesis by auto
qed

lemma sslice_tail:
  "4 \<le> length (live b) \<Longrightarrow> sslice b 4 (length (live b)) = Inr \<lparr>live = drop 4 (live b), spare = spare b\<rparr>"
  by (simp add: sslice_within)

lemma decodeMessage_bad_checksum:
  assumes "4 \<le> length (live bytes)" and "\<not> checksum_ok (live bytes)"
  shows "decodeMessage src bytes s =
    Inr (newMessage 255 None 0, Some (ErrMsg (''checksum failure from '' @ IP_String src)), s)"
  using stated_checksum [OF assms(1)] assms(2) by (auto simp: decodeMessage_def sslice_tail [OF assms(1)])

lemma decodeMessage_short:
  assumes "length (live bytes) < 11" and "4 \<le> length (live bytes) \<longrightarrow> checksum_ok (live bytes)"
  shows "decodeMessage src bytes s = Inl IndexOutOfRange"
proof (cases "4 \<le> length (live bytes)")
  case False
  then show ?thesis by (simp add: decodeMessage_def codec32.dec_short)
next
  case True
  obtain c where c: "decodeUint32 bytes 0 = Inr (c, 4)" "adler32 (drop 4 (live bytes)) = c"
    using stated_checksum [OF True] assms(2) True by auto
  have "decodeByte bytes 4 = Inl IndexOutOfRange \<or> (\<exists>v. decodeByte bytes 4 = Inr (v, 5))"
    by (simp add: decodeByte_def sindex_def)
  moreover have "decodeUint16 bytes 5 = Inl IndexOutOfRange \<or> (\<exists>v. decodeUint16 bytes 5 = Inr (v, 7))"
    using codec16.dec_short [of bytes 5] codec16.dec_total [of bytes 5] by (cases "length (live bytes) < 7") auto
  moreover have "decodeUint32 bytes 7 = Inl IndexOutOfRange" using assms(1) by (simp add: codec32.dec_short)
  ultimately show ?thesis using c by (auto simp: decodeMessage_def sslice_tail [OF True])
qed

lemma header_decodes:
  assumes "11 \<le> length (live bytes)"
  shows "\<exists>prt hb. decodeByte bytes 4 = Inr (live bytes ! 4, 5) \<and> decodeUint16 bytes 5 = Inr (prt, 7) \<and>
    decodeUint32 bytes 7 = Inr (hb, 11)"
  using assms codec16.dec_total [of bytes 5] codec32.dec_total [of bytes 7]
  by (simp add: decodeByte_def sindex_def)

lemma decodeMessage_body:
  assumes "11 \<le> length (live bytes)" and "checksum_ok (live bytes)"
  shows "\<exists>prt hb. decodeMessage src bytes s = (let (r, t) = resolve src prt s in
    decode_body bytes 11 (unat (drop_bit 2 (live bytes ! 4))) (newMessage (live bytes ! 4 AND 3) (Some r) hb) t)"
proof -
  obtain c where c: "decodeUint32 bytes 0 = Inr (c, 4)" "adler32 (drop 4 (live bytes)) = c"
    using stated_checksum [of bytes] assms by auto
  obtain prt hb where h: "decodeByte bytes 4 = Inr (live bytes ! 4, 5)" "decodeUint16 bytes 5 = Inr (prt, 7)"
    "decodeUint32 bytes 7 = Inr (hb, 11)" using header_decodes [OF assms(1)] by blast
  obtain r t where r: "resolve src prt s = (r, t)" by fastforce
  show ?thesis using decodeMessage_split [OF c(1) _ h c(2) r] assms(1) r
    by (intro exI [of _ prt] exI [of _ hb]) simp
qed

text \<open>What every decoded message satisfies, whatever the datagram was.\<close>

lemma decodeMessage_ok:
  assumes "wf_state s" and "valid_ip src"
  shows "ensures (decodeMessage src bytes s) (\<lambda>(m, err, t). wf_state t \<and> grows s t \<and>
    message_alloc (heap t) m \<and> (err = None \<longrightarrow> sender m \<noteq> None))"
proof -
  consider "4 \<le> length (live bytes)" "\<not> checksum_ok (live bytes)"
    | "length (live bytes) < 11" "4 \<le> length (live bytes) \<longrightarrow> checksum_ok (live bytes)"
    | "11 \<le> length (live bytes)" "checksum_ok (live bytes)" by linarith
  then show ?thesis
  proof cases
    case 1
    then show ?thesis using assms(1)
      by (simp add: decodeMessage_bad_checksum nodes.grows_refl message_alloc_def newMessage_def)
  next
    case 2
    then show ?thesis by (simp add: decodeMessage_short)
  next
    case 3
    then obtain prt hb where eq: "decodeMessage src bytes s = (let (r, t) = resolve src prt s in
        decode_body bytes 11 (unat (drop_bit 2 (live bytes ! 4))) (newMessage (live bytes ! 4 AND 3) (Some r) hb) t)"
      using decodeMessage_body by blast
    obtain r t where r: "resolve src prt s = (r, t)" by fastforce
    note t = resolve_ok [OF assms r]
    have "ensures (decode_body bytes 11 cnt (newMessage v (Some r) hb) t) (\<lambda>(m, err, u). wf_state u \<and> grows s u \<and>
        message_alloc (heap u) m \<and> (err = None \<longrightarrow> sender m \<noteq> None))" for cnt v
      by (rule ensures_weaken [OF decode_body_ok])
        (use t grows_trans in \<open>auto simp: newMessage_def\<close>)
    then show ?thesis unfolding eq r by simp
  qed
qed

section \<open>When decoding cannot panic\<close>

lemma resolve_grows: "resolve a p s = (r, t) \<Longrightarrow> ipLen t = ipLen s"
  by (auto simp: resolve_def CreateNodeByIP_def Let_def split: option.splits)

lemma yields_read_ip:
  "p + n \<le> length (live b) \<Longrightarrow> n = IPv4len \<or> n = IPv6len \<Longrightarrow> yields (read_ip n b p) (\<lambda>a. length a = 16)"
  using read_ip_total by (auto simp: yields_def)

lemma yields_dec16: "p + 2 \<le> length (live b) \<Longrightarrow> yields (decodeUint16 b p) (\<lambda>(w, q). q = p + 2)"
  using codec16.dec_total [of b p] by (auto simp: yields_def)

lemma yields_dec32: "p + 4 \<le> length (live b) \<Longrightarrow> yields (decodeUint32 b p) (\<lambda>(w, q). q = p + 4)"
  using codec32.dec_total [of b p] by (auto simp: yields_def)

lemma yields_pair: "(\<And>x y. a = (x, y) \<Longrightarrow> yields (f x y) P) \<Longrightarrow> yields (case a of (x, y) \<Rightarrow> f x y) P"
  by (cases a) simp

lemma decode_member_total:
  assumes "ipLen s = IPv4len \<or> ipLen s = IPv6len" and "p + (9 + ipLen s + ipLen s) \<le> length (live b)"
  shows "yields (decode_member b p s) (\<lambda>(mm, q, t). q = p + (9 + ipLen s + ipLen s) \<and> ipLen t = ipLen s)"
  unfolding decode_member_def Let_def
  apply (rule yields_bind [where Q = "\<lambda>_. True"], use assms(2) in \<open>simp add: sindex_def\<close>)
  apply (rule yields_bind [OF yields_read_ip], use assms in simp, use assms in simp)
  apply (rule yields_bind [OF yields_dec16], use assms(2) in simp, rule yields_pair)
  apply (rule yields_bind [OF yields_dec32], use assms(2) in simp, rule yields_pair)
  apply (rule yields_pair, drule resolve_grows)
  apply (rule yields_bind [OF yields_read_ip], use assms in simp, use assms in simp)
  apply (rule yields_bind [OF yields_dec16], use assms(2) in simp, rule yields_pair)
  apply (rule yields_pair, drule resolve_grows, simp)
  done

lemma decode_members_total:
  assumes "ipLen s = IPv4len \<or> ipLen s = IPv6len" and "length (live b) = p + k * (9 + ipLen s + ipLen s)"
  shows "yields (decode_members b p acc s) (\<lambda>(ms, t). ipLen t = ipLen s)"
  using assms
proof (induction k arbitrary: p acc s)
  case 0
  then show ?case by (subst decode_members.simps) simp
next
  case (Suc k)
  have less: "p < length (live b)" using Suc.prems(2) by simp
  have "yields (decode_member b p s) (\<lambda>(mm, q, t). q = p + (9 + ipLen s + ipLen s) \<and> ipLen t = ipLen s)"
    using Suc.prems by (intro decode_member_total) simp_all
  then obtain mm t where one: "decode_member b p s = Inr (mm, p + (9 + ipLen s + ipLen s), t)"
    and n: "ipLen t = ipLen s" by (auto elim!: yieldsE)
  have "yields (decode_members b (p + (9 + ipLen s + ipLen s)) (acc @ [mm]) t) (\<lambda>(ms, u). ipLen u = ipLen t)"
    using Suc.prems n by (intro Suc.IH) simp_all
  then show ?case unfolding decode_members.simps [of b p acc s] if_P [OF less] one by (simp add: n)
qed

text \<open>
  A datagram with enough bytes: its header is complete, the buffer holds the stated number of
  members, and a broadcast, if there are bytes left for one, has a complete header and a payload
  inside the buffer.
\<close>

definition bcast_enough :: "nat \<Rightarrow> gslice \<Rightarrow> bool" where
  "bcast_enough n b \<longleftrightarrow> n + 8 \<le> length (live b) \<and>
     (case decodeUint16 b (n + 6) of
        Inl e \<Rightarrow> False
      | Inr (len, q) \<Rightarrow> n + 8 + unat len \<le> length (live b) + length (spare b))"

definition enough :: "nat \<Rightarrow> gslice \<Rightarrow> bool" where
  "enough n b \<longleftrightarrow> 11 \<le> length (live b) \<and>
     (let lst = 11 + unat (drop_bit 2 (live b ! 4)) * (9 + n + n) in
      lst \<le> length (live b) + length (spare b) \<and>
      (lst < length (live b) \<longrightarrow> bcast_enough n \<lparr>live = drop lst (live b), spare = spare b\<rparr>))"

lemma decodeBroadcast_total:
  assumes "wf_state s" and "bcast_enough (ipLen s) b"
  shows "yields (decodeBroadcast b s) (\<lambda>_. True)"
proof -
  let ?n = "ipLen s"
  have len: "?n + 8 \<le> length (live b)" and fam: "?n = IPv4len \<or> ?n = IPv6len"
    using assms wf_stateD(10) by (auto simp: bcast_enough_def)
  obtain a where a: "read_ip ?n b 0 = Inr a" "length a = 16"
    using yields_read_ip [of 0 ?n b] len fam by (auto elim!: yieldsE)
  obtain prt where p: "decodeUint16 b ?n = Inr (prt, ?n + 2)"
    using yields_dec16 [of ?n b] len by (auto elim!: yieldsE)
  obtain i where i: "decodeUint32 b (?n + 2) = Inr (i, ?n + 6)"
    using yields_dec32 [of "?n + 2" b] len by (auto elim!: yieldsE)
  obtain l where l: "decodeUint16 b (?n + 6) = Inr (l, ?n + 8)"
    using yields_dec16 [of "?n + 6" b] len by (auto elim!: yieldsE)
  have "?n + 8 + unat l \<le> length (live b) + length (spare b)" using assms(2) by (simp add: bcast_enough_def l)
  then obtain pl where pl: "sslice b (?n + 8) (?n + 8 + unat l) = Inr pl" by (auto simp: sslice_def)
  obtain r t where r: "resolve a prt s = (r, t)" by fastforce
  note t = resolve_ok [OF assms(1) valid_ip_16 [OF a(2)] r]
  then have "valid_ip (ip (node t r))" using wf_heap_nth [OF wf_stateD(1)] by (simp add: wf_node_def)
  then show ?thesis
    unfolding decodeBroadcast_def Let_def add_0 a(1) bindR_simps p i l prod.case r pl
    by (simp add: checkOrigin_eq split: option.splits)
qed

lemma decode_body_total:
  assumes "wf_state s" and "enough (ipLen s) b" and "members m = []" and "broadcast m = None"
  shows "yields (decode_body b 11 (unat (drop_bit 2 (live b ! 4))) m s) (\<lambda>_. True)"
proof -
  let ?n = "ipLen s" and ?c = "unat (drop_bit 2 (live b ! 4))"
  let ?lst = "11 + ?c * (9 + ?n + ?n)"
  note fam = wf_stateD(10) [OF assms(1)]
  have fit: "?lst \<le> length (live b) + length (spare b)" using assms(2) by (auto simp: enough_def Let_def)
  then obtain mb where mb: "sslice b 11 ?lst = Inr mb" "length (live mb) = 0 + ?c * (9 + ?n + ?n)"
    by (auto simp: sslice_def)
  have "yields (take_members b 11 ?lst ?c m s) (\<lambda>_. True)"
    using decode_members_total [OF fam mb(2), of "[]"]
    unfolding take_members_def mb(1) bindR_simps decodeMembers_def by (auto elim!: yieldsE)
  then show ?thesis unfolding decode_body_def Let_def
  proof (rule yields_bind, clarify)
    fix m' t assume "take_members b 11 ?lst ?c m s = Inr (m', t)"
    from ensuresD [OF take_members_ok [OF assms(1) refl assms(3)] this] have t: "wf_state t" "ipLen t = ?n"
      using grows_same(3) by auto
    have "sslice b ?lst (length (live b)) = Inr \<lparr>live = drop ?lst (live b), spare = spare b\<rparr>" if "?lst < length (live b)"
      using that by (simp add: sslice_within)
    moreover have "yields (decodeBroadcast \<lparr>live = drop ?lst (live b), spare = spare b\<rparr> t) (\<lambda>_. True)" if "?lst < length (live b)"
      using assms(2) that t by (intro decodeBroadcast_total) (auto simp: enough_def Let_def)
    ultimately show "yields (take_broadcast b ?lst m' t) (\<lambda>_. True)"
      by (cases "?lst < length (live b)") (auto simp: take_broadcast_def elim!: yieldsE)
  qed
qed

lemma decodeMessage_total:
  assumes "wf_state s" and "valid_ip src" and "enough (ipLen s) b"
  shows "yields (decodeMessage src b s) (\<lambda>(m, err, t). wf_state t \<and> grows s t \<and>
    message_alloc (heap t) m \<and> (err = None \<longrightarrow> sender m \<noteq> None))"
proof -
  have len: "11 \<le> length (live b)" using assms(3) by (simp add: enough_def)
  have "yields (decodeMessage src b s) (\<lambda>_. True)"
  proof (cases "checksum_ok (live b)")
    case True
    obtain prt hb where eq: "decodeMessage src b s = (let (r, t) = resolve src prt s in
        decode_body b 11 (unat (drop_bit 2 (live b ! 4))) (newMessage (live b ! 4 AND 3) (Some r) hb) t)"
      using decodeMessage_body [OF len True] by blast
    obtain r t where r: "resolve src prt s = (r, t)" by fastforce
    have "wf_state t" "ipLen t = ipLen s" using resolve_ok [OF assms(1,2) r] grows_same(3) by blast+
    then show ?thesis using decode_body_total [of t b] assms(3) by (simp add: eq r newMessage_def)
  next
    case False
    then show ?thesis using len by (simp add: decodeMessage_bad_checksum)
  qed
  then show ?thesis using decodeMessage_ok [OF assms(1,2), of b] by (auto simp: yields_def ensures_def)
qed

section \<open>Properties\<close>

definition sample_message :: message where
  "sample_message = \<lparr>sender = Some 0, senderHeartbeat = 7, verb = verbPing,
     members = [\<lparr>mm_source = Some 0, mm_heartbeat = 5, mm_node = 1, mm_status = StatusSuspected\<rparr>],
     broadcast = Some (sample_broadcast [65])\<rparr>"

lemma sample_sendable [simp]:
  "member_sendable [host_node 1, host_node 2] IPv4len
     \<lparr>mm_source = Some 0, mm_heartbeat = 5, mm_node = Suc 0, mm_status = st\<rparr>"
  by (simp add: member_sendable_def sendable_def member_ip_def ip_len_defs)

lemma sample_bcast_sendable [simp]: "bcast_sendable [host_node 1, host_node 2] two_hosts (sample_broadcast [65])"
proof -
  have "fits (ipLen two_hosts) (IPv4 10 0 0 2)" by (simp add: fits_iff)
  moreover have "has_origin [host_node 1, host_node 2] 1" by (simp add: has_origin_def norm_ip_def)
  moreover have "1 \<le> maxBroadcastBytesOf two_hosts" by code_simp
  ultimately show ?thesis by (simp add: bcast_sendable_def)
qed

text \<open>
  C24. The encoder produces the documented layout: the index arithmetic, the loops and the
  element writes of \<open>encode\<close> amount to the checksum of the payload followed by the payload,
  which is the header, one fixed-size record per member and the broadcast. No write is out of
  range and no byte is left over.
\<close>

theorem message_encode_layout:
  assumes "message_fits h n m" and "sender m = Some r"
  shows "message_encode h n m = Inr (le32 (adler32 (payload_image h n (port (h ! r)) m)) @
    payload_image h n (port (h ! r)) m)"
  using message_encode_eq [OF assms] by (simp add: message_image_def)

theorem message_encode_layout_witness:
  "message_fits [host_node 1, host_node 2] IPv4len sample_message \<and>
   (\<exists>bs. message_encode [host_node 1, host_node 2] IPv4len sample_message = Inr bs \<and> length bs = 41)"
proof -
  have fits: "message_fits [host_node 1, host_node 2] IPv4len sample_message"
    using sample_bcast_sendable member_sendable_fits [OF sample_sendable]
    by (simp add: message_fits_def sample_message_def bcast_sendable_def del: sample_bcast_sendable)
  have "length (payload_image [host_node 1, host_node 2] IPv4len 9999 sample_message) = 37"
    by (simp add: payload_image_def header_image_def sample_message_def member_image_def member_ip_def
        broadcast_image_def norm_ip_def)
  then show ?thesis using fits message_encode_layout [OF fits, of 0] by (simp add: sample_message_def)
qed

lemma decodeMessage_header:
  assumes "verb m < 4" and "length (members m) < 64" and "resolve src prt t = (q, t1)"
  shows "decodeMessage src \<lparr>live = message_image h n prt m, spare = sp\<rparr> t =
    decode_body \<lparr>live = message_image h n prt m, spare = sp\<rparr> 11 (length (members m))
      (newMessage (verb m) (Some q) (senderHeartbeat m)) t1"
proof -
  let ?pay = "payload_image h n prt m" and ?b = "\<lparr>live = message_image h n prt m, spare = sp\<rparr>"
  let ?v = "push_bit 2 (word_of_nat (length (members m))) OR verb m"
  have dec: "decodeUint32 ?b 0 = Inr (adler32 ?pay, 4)" "4 \<le> length (live ?b)" "decodeByte ?b 4 = Inr (?v, 5)"
      "adler32 (drop 4 (live ?b)) = adler32 ?pay"
    using codec32.dec_at [of "[]" 0 "adler32 ?pay" ?pay]
    by (simp_all add: message_image_def decodeByte_def sindex_def payload_image_def header_image_def nth_append)
  have prt: "decodeUint16 ?b 5 = Inr (prt, 7)"
    using codec16.dec_at [of "le32 (adler32 ?pay) @ [?v]" 5 prt]
    by (simp add: message_image_def payload_image_def header_image_def)
  have hb: "decodeUint32 ?b 7 = Inr (senderHeartbeat m, 11)"
    using codec32.dec_at [of "le32 (adler32 ?pay) @ [?v] @ le16 prt" 7 "senderHeartbeat m"]
    by (simp add: message_image_def payload_image_def header_image_def)
  show ?thesis using decodeMessage_split [OF dec(1-3) prt hb dec(4) assms(3)] verb_byte [OF assms(1,2)] by simp
qed

lemma message_sent:
  assumes "wf_state t" and "valid_ip src" and "sender m = Some r" and "port (h ! r) \<noteq> 0"
    and "verb m < 4" and "length (members m) < 64"
    and "\<forall>mm \<in> set (members m). member_sendable h (ipLen t) mm"
    and "\<forall>b. broadcast m = Some b \<longrightarrow> bcast_sendable h t b"
  shows "\<exists>bs m' u q. message_encode h (ipLen t) m = Inr bs \<and>
    decodeMessage src \<lparr>live = bs, spare = sp\<rparr> t = Inr (m', None, u) \<and> wf_state u \<and> grows t u \<and>
    verb m' = verb m \<and> senderHeartbeat m' = senderHeartbeat m \<and>
    sender m' = Some q \<and> addr u q = nodeAddressString src (port (h ! r)) \<and>
    list_all2 (\<lambda>mm mm'. same_member h mm (heap u) mm') (members m) (members m') \<and>
    rel_option (\<lambda>b b'. same_broadcast h b (heap u) b') (broadcast m) (broadcast m')"
proof -
  let ?p = "port (h ! r)" and ?b = "\<lparr>live = message_image h (ipLen t) (port (h ! r)) m, spare = sp\<rparr>"
  have fits: "message_fits h (ipLen t) m"
    using assms(7,8) member_sendable_fits by (auto simp: message_fits_def bcast_sendable_def)
  obtain q t1 where q: "resolve src ?p t = (q, t1)" by fastforce
  have t1: "wf_state t1" "grows t t1" "q < length (heap t1)" using resolve_ok [OF assms(1,2) q] by auto
  have n: "ipLen t1 = ipLen t" "maxBroadcastBytesOf t1 = maxBroadcastBytesOf t" using grows_same [OF t1(2)] by auto
  have "yields (decode_body ?b 11 (length (members m)) (newMessage (verb m) (Some q) (senderHeartbeat m)) t1)
    (\<lambda>(m', err, u). err = None \<and> wf_state u \<and> grows t1 u \<and>
      sender m' = Some q \<and> verb m' = verb m \<and> senderHeartbeat m' = senderHeartbeat m \<and>
      list_all2 (\<lambda>mm mm'. same_member h mm (heap u) mm') (members m) (members m') \<and>
      rel_option (\<lambda>b b'. same_broadcast h b (heap u) b') (broadcast m) (broadcast m'))"
    using decode_body_sent [OF t1(1), of "members m" h "broadcast m"
        "le32 (adler32 (payload_image h (ipLen t) ?p m)) @ header_image ?p m" 11
        "newMessage (verb m) (Some q) (senderHeartbeat m)" sp] assms(7,8) n
    by (simp add: message_image_def payload_image_def header_image_def newMessage_def bcast_sendable_def)
  moreover have "addr u q = nodeAddressString src ?p" if "grows t1 u" for u
    using extends_addressOf [OF grows_extends [OF that] t1(3)] resolve_addr [OF assms(1,2,4) q] by simp
  ultimately show ?thesis
    using message_encode_eq [OF fits assms(3)] decodeMessage_header [OF assms(5,6) q] grows_trans [OF t1(2)]
    by (fastforce elim!: yieldsE)
qed

text \<open>
  C4. A message survives the wire: what one host encodes, a host in the same address mode
  decodes without error from a datagram in a buffer of any capacity. The verb, the heartbeat and
  all members (status, heartbeat, node address, source address) arrive unchanged and in order,
  the sender is the node of the datagram's source address and stated port, and the broadcast
  arrives with its payload, index and label.
\<close>

theorem message_roundtrip:
  assumes "wf_state t" and "valid_ip src" and "sender m = Some r" and "port (h ! r) \<noteq> 0"
    and "verb m < 4" and "length (members m) < 64"
    and "\<forall>mm \<in> set (members m). member_sendable h (ipLen t) mm"
    and "\<forall>b. broadcast m = Some b \<longrightarrow> bcast_sendable h t b"
  shows "\<exists>bs m' u q. message_encode h (ipLen t) m = Inr bs \<and>
    decodeMessage src \<lparr>live = bs, spare = sp\<rparr> t = Inr (m', None, u) \<and> wf_state u \<and> grows t u \<and>
    verb m' = verb m \<and> senderHeartbeat m' = senderHeartbeat m \<and>
    sender m' = Some q \<and> addr u q = nodeAddressString src (port (h ! r)) \<and>
    list_all2 (\<lambda>mm mm'. same_member h mm (heap u) mm') (members m) (members m') \<and>
    rel_option (\<lambda>b b'. same_broadcast h b (heap u) b') (broadcast m) (broadcast m')"
  using assms by (rule message_sent)

theorem message_roundtrip_witness:
  "\<exists>bs m' u. message_encode [host_node 1, host_node 2] IPv4len sample_message = Inr bs \<and>
    decodeMessage [10, 0, 0, 1] \<lparr>live = bs, spare = [0, 0]\<rparr> two_hosts = Inr (m', None, u) \<and>
    verb m' = verbPing \<and> length (members m') = 1"
proof -
  have "valid_ip [10, 0, 0, 1]" by (simp add: valid_ip_def ip_len_defs)
  then show ?thesis
    using message_roundtrip [of two_hosts "[10, 0, 0, 1]" sample_message 0 "[host_node 1, host_node 2]" "[0, 0]"]
    by (auto simp: sample_message_def dest: list_all2_lengthD)
qed

lemma checksum_ok_single_byte:
  assumes "checksum_ok bs" and "i < length bs" and "v \<noteq> bs ! i"
  shows "\<not> checksum_ok (bs[i := v])"
proof (cases "i < 4")
  case True
  then have "drop 4 (bs[i := v]) = drop 4 bs" by simp
  moreover have "take 4 (bs[i := v]) ! i \<noteq> take 4 bs ! i" using True assms(2,3) by simp
  ultimately show ?thesis using assms(1) by (auto simp: checksum_ok_def)
next
  case False
  then have "drop 4 (bs[i := v]) = (drop 4 bs)[i - 4 := v]" "take 4 (bs[i := v]) = take 4 bs"
    by (simp_all add: drop_update_swap)
  moreover have "adler32 ((drop 4 bs)[i - 4 := v]) \<noteq> adler32 (drop 4 bs)"
    using False assms(2,3) by (intro adler32_single_byte) simp_all
  ultimately show ?thesis using assms(1) by (simp add: checksum_ok_def codec32.image_inject)
qed

text \<open>
  C23. A damaged datagram is refused: if any one byte of a datagram with a correct checksum is
  changed to a different value, in the checksum or in the payload, decoding returns the checksum
  error and leaves the state as it was.
\<close>

theorem corrupted_byte_refused:
  assumes "checksum_ok bs" and "i < length bs" and "v \<noteq> bs ! i"
  shows "decodeMessage src \<lparr>live = bs[i := v], spare = sp\<rparr> s =
    Inr (newMessage 255 None 0, Some (ErrMsg (''checksum failure from '' @ IP_String src)), s)"
  using checksum_ok_single_byte [OF assms] assms(1)
  by (intro decodeMessage_bad_checksum) (simp_all add: checksum_ok_def)

lemma checksum_ok_small: "checksum_ok [1, 0, 1, 0, 0]"
  by (simp add: checksum_ok_def adler32_def adler_step_def le32_def)

theorem corrupted_byte_refused_witness:
  "checksum_ok [1, 0, 1, 0, 0] \<and> fst (snd (projr
     (decodeMessage [10, 0, 0, 1] \<lparr>live = [1, 0, 1, 0, 9], spare = []\<rparr> two_hosts))) \<noteq> None"
  using corrupted_byte_refused [OF checksum_ok_small, of 4 9 "[10, 0, 0, 1]" "[]" two_hosts] checksum_ok_small
  by simp

text \<open>
  C35. The decoder does not check that a datagram is long enough: fewer than eleven bytes with
  a correct checksum, or fewer than four bytes at all, panic with an index out of range.
\<close>

theorem short_datagram_panics:
  assumes "length (live b) < 11" and "4 \<le> length (live b) \<longrightarrow> checksum_ok (live b)"
  shows "decodeMessage src b s = Inl IndexOutOfRange"
  using assms by (rule decodeMessage_short)

theorem short_datagram_panics_witness:
  "decodeMessage [10, 0, 0, 1] (full_slice []) two_hosts = Inl IndexOutOfRange \<and>
   decodeMessage [10, 0, 0, 1] (full_slice [1, 0, 1, 0, 0]) two_hosts = Inl IndexOutOfRange"
  using short_datagram_panics [of "full_slice []" "[10, 0, 0, 1]" two_hosts]
    short_datagram_panics [of "full_slice [1, 0, 1, 0, 0]" "[10, 0, 0, 1]" two_hosts] checksum_ok_small
  by simp

text \<open>
  The number of members comes from the header alone: whenever a datagram of more than
  eleven bytes with a correct checksum decodes, the message has exactly as many members as its
  verb byte states, however short the datagram is. The missing bytes are taken from the receive
  buffer beyond the end of the datagram.
\<close>

theorem member_count_from_header:
  assumes "wf_state s" and "valid_ip src" and "11 < length (live b)" and "checksum_ok (live b)"
    and "decodeMessage src b s = Inr (m, err, t)"
  shows "length (members m) = unat (drop_bit 2 (live b ! 4)) \<and> verb m = live b ! 4 AND 3"
proof -
  obtain prt hb where eq: "decodeMessage src b s = (let (r, t) = resolve src prt s in
      decode_body b 11 (unat (drop_bit 2 (live b ! 4))) (newMessage (live b ! 4 AND 3) (Some r) hb) t)"
    using decodeMessage_body [of b src s] assms(3,4) by auto
  obtain r u where r: "resolve src prt s = (r, u)" by fastforce
  have "ensures (decode_body b 11 (unat (drop_bit 2 (live b ! 4))) (newMessage (live b ! 4 AND 3) (Some r) hb) u)
    (\<lambda>(m, err, t). length (members m) = unat (drop_bit 2 (live b ! 4)) \<and> verb m = live b ! 4 AND 3)"
    by (rule ensures_weaken [OF decode_body_ok])
      (use resolve_ok [OF assms(1,2) r] assms(3) in \<open>auto simp: newMessage_def\<close>)
  then show ?thesis using assms(5) unfolding eq r by (auto dest: ensuresD)
qed

text \<open>A datagram of twelve bytes that claims one member, in a buffer of zeros.\<close>

definition short_gossip :: gslice where
  "short_gossip = \<lparr>live = [13, 0, 88, 0, 4, 4, 0, 4, 0, 0, 0, 0], spare = replicate 20 0\<rparr>"

lemma short_gossip_checksum: "checksum_ok (live short_gossip)"
  by (simp add: short_gossip_def checksum_ok_def adler32_def adler_step_def le32_def)

theorem member_count_from_header_witness:
  "length (live short_gossip) = 12 \<and> (\<exists>m err t.
    decodeMessage [10, 0, 0, 1] short_gossip two_hosts = Inr (m, err, t) \<and> length (members m) = 1)"
proof -
  have ip: "valid_ip [10, 0, 0, 1]" by (simp add: valid_ip_def ip_len_defs)
  have "enough 4 short_gossip" by (simp add: enough_def short_gossip_def)
  then obtain m err t where d: "decodeMessage [10, 0, 0, 1] short_gossip two_hosts = Inr (m, err, t)"
    using decodeMessage_total [OF wf_two_hosts ip, of short_gossip] by (auto simp: ip_len_defs yields_def)
  from member_count_from_header [OF wf_two_hosts ip _ short_gossip_checksum d] d
  show ?thesis by (simp add: short_gossip_def)
qed

text \<open>Additions one after the other, with their errors ignored.\<close>

definition add_members :: "(node_ref \<times> NodeStatus \<times> uint32 \<times> node_ref option) list \<Rightarrow> message \<Rightarrow> message" where
  "add_members xs m = fold (\<lambda>(r, st, hb, src) m. snd (addMember r st hb src m)) xs m"

lemma add_members_eq:
  "length (members m) \<le> 63 \<Longrightarrow> add_members xs m = m\<lparr>members := take 63 (members m @
     map (\<lambda>(r, st, hb, src). \<lparr>mm_source = src, mm_heartbeat = hb, mm_node = r, mm_status = st\<rparr>) xs)\<rparr>"
proof (induction xs arbitrary: m)
  case Nil
  then show ?case by (simp add: add_members_def)
next
  case (Cons x xs)
  obtain r st hb src where x: "x = (r, st, hb, src)" by (cases x)
  let ?m = "snd (addMember r st hb src m)"
  have "add_members (x # xs) m = add_members xs ?m" by (simp add: add_members_def x)
  moreover have "length (members ?m) \<le> 63" using Cons.prems by (simp add: addMember_def)
  ultimately show ?case using Cons.IH [of ?m] Cons.prems by (auto simp: addMember_def x take_Cons')
qed

text \<open>
  C34. \<open>addMember\<close> keeps a message within the six bits of its count field: starting from a
  new message, any sequence of additions leaves the first 63 of the added members, in order, and nothing else of the
  message changes; the next addition returns an error exactly when there are 63 members already.
\<close>

theorem addMember_bounded:
  "add_members xs (newMessage vb sdr code) = (newMessage vb sdr code)\<lparr>members :=
     take 63 (map (\<lambda>(r, st, hb, src). \<lparr>mm_source = src, mm_heartbeat = hb, mm_node = r, mm_status = st\<rparr>) xs)\<rparr> \<and>
   (fst (addMember r st hb src (add_members xs (newMessage vb sdr code))) = None \<longleftrightarrow> length xs < 63)"
  by (simp add: add_members_eq newMessage_def addMember_def)

text \<open>
  A datagram with enough bytes never makes the decoder panic: if the header is complete,
  the buffer holds the stated members and a broadcast part is complete, decoding returns, with an
  error or with a message whose sender, members and broadcast are allocated nodes; the state
  changes at most by new nodes and stays well-formed.
\<close>

theorem decodeMessage_safe:
  assumes "wf_state s" and "valid_ip src" and "enough (ipLen s) b"
  shows "\<exists>m err t. decodeMessage src b s = Inr (m, err, t) \<and> wf_state t \<and> grows s t \<and>
    message_alloc (heap t) m \<and> (err = None \<longrightarrow> sender m \<noteq> None)"
  using decodeMessage_total [OF assms] by (auto simp: yields_def)

theorem decodeMessage_safe_witness:
  "enough IPv4len short_gossip \<and> (\<exists>m err t. decodeMessage [10, 0, 0, 1] short_gossip two_hosts = Inr (m, err, t))"
proof -
  have "valid_ip [10, 0, 0, 1]" by (simp add: valid_ip_def ip_len_defs)
  moreover have "enough IPv4len short_gossip" by (simp add: enough_def short_gossip_def IPv4len_def)
  ultimately show ?thesis using decodeMessage_safe [of two_hosts "[10, 0, 0, 1]" short_gossip] by auto
qed

end
