(* ===== verification/Transmit.thy ===== *)
theory Transmit
  imports Message
begin

text \<open>
  The sending half of \<open>src/membership.go\<close>: choosing targets, piggybacking gossip and a
  broadcast on a message, and the four verbs. What a call may meet outside the program is an
  argument: whether the socket opens, whether the write succeeds, and the orders and random
  numbers of the map traversals inside. A datagram that is written is appended to \<open>sent\<close>
  with the address it goes to. \<open>net.ResolveUDPAddr\<close> only parses what \<open>Address\<close>
  printed; its error is overwritten by that of \<open>net.DialUDP\<close>.
\<close>

section \<open>The operations\<close>

record choices =
  dial_ok :: bool
  write_ok :: bool
  ord_updated :: "string list"
  ord_copy :: "string list"
  ord_known :: "string list"
  rand_known :: "nat list"
  ord_broadcasts :: "string list"

text \<open>The loop of \<open>getTargetNodes\<close>: stop at \<open>count\<close> nodes, skip the dead ones.\<close>

fun pick_targets :: "heap \<Rightarrow> int \<Rightarrow> node_ref list \<Rightarrow> node_ref list \<Rightarrow> node_ref list" where
  "pick_targets h cnt [] filtered = filtered"
| "pick_targets h cnt (n # ns) filtered =
     (if int (length filtered) \<ge> cnt then filtered
      else if status (h ! n) = StatusDead then pick_targets h cnt ns filtered
      else pick_targets h cnt ns (filtered @ [n]))"

definition getTargetNodes ::
  "string list \<Rightarrow> nat list \<Rightarrow> int \<Rightarrow> node_ref list \<Rightarrow> smudge \<Rightarrow> node_ref list outcome" where
  "getTargetNodes ord js cnt exclude s =
     (let randomNodes = getRandomNodes ord js (heap s) (knownNodes s) 0 exclude in
      if cnt < 0 then Inl MakeLenOutOfRange
      else Inr (pick_targets (heap s) cnt randomNodes []))"

definition spend_node :: "node_ref \<Rightarrow> smudge \<Rightarrow> smudge" where
  "spend_node r s = modify_node r (\<lambda>n. n\<lparr>emitCounter := emitCounter n - 1\<rparr>) s"

text \<open>The loop that adds gossip to the message; it ends early when the message is full.\<close>

fun add_gossip :: "node_ref list \<Rightarrow> message \<Rightarrow> smudge \<Rightarrow> go_error option \<times> message \<times> smudge" where
  "add_gossip [] msg s = (None, msg, s)"
| "add_gossip (n # ns) msg s =
     (let (err, msg) = addMember n (status (node s n)) (heartbeat (node s n)) (statusSource (node s n)) msg in
      case err of
        Some e \<Rightarrow> (Some e, msg, s)
      | None \<Rightarrow> add_gossip ns msg (spend_node n s))"

definition attach_broadcast :: "string list \<Rightarrow> message \<Rightarrow> smudge \<Rightarrow> message \<times> smudge" where
  "attach_broadcast ord msg s =
     (let (ob, s) = getBroadcastToEmit ord s in
      case ob of
        None \<Rightarrow> (msg, s)
      | Some b \<Rightarrow>
          let msg = (if sint (b_emitCounter b) > 0 then addBroadcast b msg else msg)
          in (msg, spend_broadcast b s))"

definition transmitVerbGenericUDP ::
  "choices \<Rightarrow> node_ref \<Rightarrow> node_ref option \<Rightarrow> messageVerb \<Rightarrow> uint32 \<Rightarrow> smudge \<Rightarrow>
   (go_error option \<times> smudge) outcome" where
  "transmitVerbGenericUDP ch nd forwardTo vb code s =
     (if \<not> dial_ok ch then Inr (Some ErrNet, s)
      else
        let msg = newMessage vb (thisHost s) code;
            msg = (case forwardTo of
                     None \<Rightarrow> msg
                   | Some f \<Rightarrow> snd (addMember f StatusForwardTo code (statusSource (node s f)) msg))
        in case thisHost s of
          None \<Rightarrow> Inl NilDereference
        | Some this \<Rightarrow>
            bindR (getRandomUpdatedNodes (ord_updated ch) (ord_copy ch) (pingRequestCount s) [nd, this] s) (\<lambda>(ns, s).
            let ns = (if length ns = 0
                      then getRandomNodes (ord_known ch) (rand_known ch) (heap s) (knownNodes s)
                             (pingRequestCount s) [nd, this]
                      else ns);
                (err, msg, s) = add_gossip ns msg s
            in case err of
              Some e \<Rightarrow> Inr (Some e, s)
            | None \<Rightarrow>
                let (msg, s) = attach_broadcast (ord_broadcasts ch) msg s in
                bindR (message_encode (heap s) (ipLen s) msg) (\<lambda>bytes.
                if \<not> write_ok ch then Inr (Some ErrNet, s)
                else
                  let s = s\<lparr>sent := sent s @ [(addr s nd, bytes)]\<rparr>;
                      s = fold (\<lambda>m s. spend_node (mm_node m) s) (members msg) s
                  in Inr (None, s))))"

definition pack_key :: "smudge \<Rightarrow> node_ref \<Rightarrow> uint32 \<Rightarrow> string" where
  "pack_key s r code = addr s r @ '':'' @ decimal (unat code)"

definition transmitVerbForwardUDP ::
  "choices \<Rightarrow> node_ref \<Rightarrow> node_ref \<Rightarrow> uint32 \<Rightarrow> smudge \<Rightarrow> (go_error option \<times> smudge) outcome" where
  "transmitVerbForwardUDP ch nd downstream code s =
     (let key = pack_key s nd code;
          pack = \<lparr>startTime = now s, p_node = nd, callback = Some downstream, callbackCode = 0,
                  packType = packPingReq\<rparr>;
          s = s\<lparr>pendingAcks := AList.update key pack (pendingAcks s)\<rparr>
      in transmitVerbGenericUDP ch nd (Some downstream) verbPingRequest code s)"

definition transmitVerbAckUDP ::
  "choices \<Rightarrow> node_ref \<Rightarrow> uint32 \<Rightarrow> smudge \<Rightarrow> (go_error option \<times> smudge) outcome" where
  "transmitVerbAckUDP ch nd code s = transmitVerbGenericUDP ch nd None verbAck code s"

definition transmitVerbPingUDP ::
  "choices \<Rightarrow> node_ref \<Rightarrow> uint32 \<Rightarrow> smudge \<Rightarrow> (go_error option \<times> smudge) outcome" where
  "transmitVerbPingUDP ch nd code s =
     (let key = pack_key s nd code;
          pack = \<lparr>startTime = now s, p_node = nd, callback = None, callbackCode = 0, packType = packPing\<rparr>;
          s = s\<lparr>pendingAcks := AList.update key pack (pendingAcks s)\<rparr>
      in transmitVerbGenericUDP ch nd None verbPing code s)"

definition PingNode :: "choices \<Rightarrow> node_ref \<Rightarrow> smudge \<Rightarrow> (go_error option \<times> smudge) outcome" where
  "PingNode ch nd s = transmitVerbPingUDP ch nd (currentHeartbeat s) s"

text \<open>Every target of an indirect ping is sent with its own choices, by position.\<close>

definition doForwardOnTimeout ::
  "string list \<Rightarrow> nat list \<Rightarrow> (nat \<Rightarrow> choices) \<Rightarrow> pendingAck \<Rightarrow> smudge \<Rightarrow> smudge outcome" where
  "doForwardOnTimeout ord js chs pack s =
     (case thisHost s of
        None \<Rightarrow> Inl (if nodeMap_length (knownNodes s) = 0 then MakeLenOutOfRange else NilDereference)
      | Some this \<Rightarrow>
          bindR (getTargetNodes ord js (pingRequestCount s) [this, p_node pack] s) (\<lambda>filteredNodes.
          if length filteredNodes = 0
          then Inr (updateNodeStatus (p_node pack) StatusDead (currentHeartbeat s) (Some this) s)
          else foldR (\<lambda>(i, n) s.
                 bindR (transmitVerbForwardUDP (chs i) n (p_node pack) (currentHeartbeat s) s) (\<lambda>(err, s). Inr s))
               (enumerate 0 filteredNodes) s))"

section \<open>What sending may change\<close>

definition hide_counter :: "Node \<Rightarrow> Node" where
  "hide_counter n = n\<lparr>emitCounter := 0\<rparr>"

definition counters_only :: "heap \<Rightarrow> heap \<Rightarrow> bool" where
  "counters_only h h' \<longleftrightarrow> map hide_counter h' = map hide_counter h"

definition origins :: "smudge \<Rightarrow> node_ref set" where
  "origins s = (\<lambda>(k, b). b_origin b) ` set (broadcasts s)"

text \<open>
  Sending touches the emission counters, the two gossip pools and the network, nothing else, and adds no
  broadcast.
\<close>

definition tx_frame :: "smudge \<Rightarrow> smudge \<Rightarrow> bool" where
  "tx_frame s t \<longleftrightarrow> counters_only (heap s) (heap t) \<and> origins t \<subseteq> origins s \<and>
     (\<exists>h upd bs ds. t = s\<lparr>heap := h, updatedNodes := upd, broadcasts := bs, sent := ds\<rparr>)"

lemma counters_only_refl [simp, intro]: "counters_only h h"
  by (simp add: counters_only_def)

lemma counters_only_trans: "counters_only a b \<Longrightarrow> counters_only b c \<Longrightarrow> counters_only a c"
  by (simp add: counters_only_def)

lemma counters_only_length: "counters_only h h' \<Longrightarrow> length h' = length h"
  unfolding counters_only_def by (rule map_eq_imp_length_eq)

lemma counters_only_node:
  assumes "counters_only h h'" and "r < length h"
  shows "status (h' ! r) = status (h ! r)" "heartbeat (h' ! r) = heartbeat (h ! r)"
    "ip (h' ! r) = ip (h ! r)" "port (h' ! r) = port (h ! r)" "address (h' ! r) = address (h ! r)"
    "statusSource (h' ! r) = statusSource (h ! r)"
proof -
  have "map hide_counter h' ! r = map hide_counter h ! r" using assms(1) by (simp add: counters_only_def)
  then have eq: "hide_counter (h' ! r) = hide_counter (h ! r)"
    using assms(2) counters_only_length [OF assms(1)] by simp
  show "status (h' ! r) = status (h ! r)" "heartbeat (h' ! r) = heartbeat (h ! r)"
    "ip (h' ! r) = ip (h ! r)" "port (h' ! r) = port (h ! r)" "address (h' ! r) = address (h ! r)"
    "statusSource (h' ! r) = statusSource (h ! r)"
    using arg_cong [OF eq, of status] arg_cong [OF eq, of heartbeat] arg_cong [OF eq, of ip]
      arg_cong [OF eq, of port] arg_cong [OF eq, of address] arg_cong [OF eq, of statusSource]
    by (simp_all add: hide_counter_def)
qed

lemma counters_only_extends: "counters_only h h' \<Longrightarrow> extends h h'"
  by (simp add: extends_def counters_only_length same_id_def counters_only_node)

lemma counters_only_wf:
  assumes "counters_only h h'" and "wf_heap h" shows "wf_heap h'"
proof -
  have "wf_node (h' ! r) \<and> ref_ok h' (statusSource (h' ! r))" if "r < length h" for r
    using assms that ref_ok_mono [OF counters_only_extends [OF assms(1)]]
    by (simp add: wf_node_def counters_only_node wf_heap_def all_set_conv_all_nth)
  then show ?thesis by (simp add: wf_heap_def all_set_conv_all_nth counters_only_length [OF assms(1)])
qed

lemma counters_only_modify: "counters_only h (modify r (\<lambda>n. n\<lparr>emitCounter := f n\<rparr>) h)"
  by (cases "r < length h")
    (auto simp: counters_only_def modify_def map_update hide_counter_def list_update_beyond intro!: list_update_same_conv [THEN iffD2])

lemma tx_frame_counters: "tx_frame s t \<Longrightarrow> counters_only (heap s) (heap t)"
  unfolding tx_frame_def by blast

lemma tx_frame_refl [simp, intro]: "tx_frame s s"
  by (auto simp: tx_frame_def intro!: exI [of _ "heap s"] exI [of _ "updatedNodes s"]
      exI [of _ "broadcasts s"] exI [of _ "sent s"])

lemma tx_frame_trans [trans]:
  assumes "tx_frame s t" and "tx_frame t u" shows "tx_frame s u"
proof -
  have "counters_only (heap s) (heap u)" "origins u \<subseteq> origins s"
    using assms counters_only_trans unfolding tx_frame_def by blast+
  moreover have "\<exists>h upd bs ds. u = s\<lparr>heap := h, updatedNodes := upd, broadcasts := bs, sent := ds\<rparr>"
    using assms unfolding tx_frame_def by fastforce
  ultimately show ?thesis unfolding tx_frame_def by blast
qed

lemma tx_frame_same:
  assumes "tx_frame s t"
  shows "knownNodes t = knownNodes s" "thisHost t = thisHost s" "ipLen t = ipLen s"
    "currentHeartbeat t = currentHeartbeat s" "pendingAcks t = pendingAcks s" "notified t = notified s"
    "spawned t = spawned s" "deadNodeRetries t = deadNodeRetries s" "pingdata t = pingdata s"
    "knownNodesModifiedFlag t = knownNodesModifiedFlag s" "length (heap t) = length (heap s)"
    "pingRequestCount t = pingRequestCount s" "extends (heap s) (heap t)" "indexCounter t = indexCounter s"
    "clock t = clock s" "environ t = environ s" "config t = config s" "origins t \<subseteq> origins s"
  using assms
  by (auto simp: tx_frame_def pingRequestCount_def counters_only_extends counters_only_length)

lemma spend_node_frame [simp]: "tx_frame s (spend_node r s)"
  by (auto simp: tx_frame_def spend_node_def modify_node_def counters_only_modify origins_def
      intro!: exI [of _ "updatedNodes s"] exI [of _ "broadcasts s"] exI [of _ "sent s"])

lemma wf_state_spend_node: "wf_state s \<Longrightarrow> wf_state (spend_node r s)"
  unfolding spend_node_def
  by (rule wf_state_modify_node) (simp_all add: same_id_def wf_node_def)

lemma spend_all:
  "wf_state s \<Longrightarrow> wf_state (fold (\<lambda>m s. spend_node (f m) s) ms s) \<and>
     tx_frame s (fold (\<lambda>m s. spend_node (f m) s) ms s) \<and>
     sent (fold (\<lambda>m s. spend_node (f m) s) ms s) = sent s"
proof (induction ms arbitrary: s)
  case (Cons m ms)
  have "wf_state (spend_node (f m) s)" using Cons.prems by (rule wf_state_spend_node)
  from Cons.IH [OF this] show ?case
    using tx_frame_trans [OF spend_node_frame [of s "f m"]] by (simp add: spend_node_def)
qed simp

section \<open>Gossip\<close>

text \<open>What a message says about a node.\<close>

definition gossip_of :: "smudge \<Rightarrow> node_ref \<Rightarrow> messageMember" where
  "gossip_of s n = \<lparr>mm_source = statusSource (node s n), mm_heartbeat = heartbeat (node s n), mm_node = n,
     mm_status = status (node s n)\<rparr>"

lemma gossip_of_spend [simp]: "gossip_of (spend_node r s) n = gossip_of s n"
proof (cases "n = r \<and> r < length (heap s)")
  case True
  then show ?thesis by (simp add: gossip_of_def spend_node_def modify_def)
next
  case False
  then have "node (spend_node r s) n = node s n"
    by (cases "r < length (heap s)") (auto simp: spend_node_def modify_def list_update_beyond)
  then show ?thesis by (simp add: gossip_of_def)
qed

lemma add_gossip_eq:
  assumes "length (members msg) \<le> 63" and "k = 63 - length (members msg)"
  shows "add_gossip ns msg s =
    ((if length ns \<le> k then None else Some (ErrMsg ''member list overflow'')),
     msg\<lparr>members := members msg @ map (gossip_of s) (take k ns)\<rparr>, fold spend_node (take k ns) s)"
  using assms
proof (induction ns arbitrary: msg s k)
  case Nil
  then show ?case by simp
next
  case (Cons n ns)
  show ?case
  proof (cases "length (members msg) = 63")
    case True
    then show ?thesis using Cons.prems(2) by (simp add: addMember_def)
  next
    case False
    let ?msg = "msg\<lparr>members := members msg @ [gossip_of s n]\<rparr>"
    have lt: "length (members msg) < 63" using False Cons.prems(1) by simp
    then have "add_gossip (n # ns) msg s = add_gossip ns ?msg (spend_node n s)"
      by (simp add: addMember_def gossip_of_def)
    moreover have "63 - length (members msg) = Suc (63 - length (members ?msg))"
      using lt by simp
    ultimately show ?thesis using Cons.IH [of ?msg "63 - length (members ?msg)" "spend_node n s"] lt
      by (simp add: Cons.prems(2))
  qed
qed

lemma wf_state_spend_broadcast:
  assumes "wf_state s" and "map_of (broadcasts s) (b_label b) = Some b"
  shows "wf_state (spend_broadcast b s)"
proof -
  have "b_origin b < length (heap s)" "b_label b \<noteq> []"
    using wf_stateD(6) [OF assms(1)] map_of_SomeD [OF assms(2)] by (auto simp: broadcasts_ok_def)
  then show ?thesis unfolding spend_broadcast_def
    using assms(1) by (intro wf_state_updates broadcasts_ok_update wf_stateD) simp_all
qed

lemma spend_origins:
  assumes "wf_map bs" and "set bs \<subseteq> set bs'" and "(b_label b, b) \<in> set bs'"
  shows "b_origin ` snd ` set (AList.update (b_label b) (b\<lparr>b_emitCounter := c\<rparr>) bs) \<subseteq> b_origin ` snd ` set bs'"
proof -
  let ?c = "b\<lparr>b_emitCounter := c\<rparr>"
  have "set (AList.update (b_label b) ?c bs) \<subseteq> insert (b_label b, ?c) (set bs')"
    using assms(2) by (auto simp: set_update_wf [OF assms(1)] split: if_splits)
  then have "b_origin ` snd ` set (AList.update (b_label b) ?c bs) \<subseteq> b_origin ` snd ` insert (b_label b, ?c) (set bs')"
    by (intro image_mono)
  also have "\<dots> = b_origin ` snd ` insert (b_label b, b) (set bs')" by simp
  finally show ?thesis using insert_absorb [OF assms(3)] by simp
qed

lemma attach_broadcast_ok:
  assumes "wf_state s" and "attach_broadcast ord msg s = (msg', t)"
  shows "wf_state t \<and> tx_frame s t \<and> sent t = sent s \<and> heap t = heap s \<and>
    (msg' = msg \<or> (\<exists>b. msg' = addBroadcast b msg \<and> map_of (broadcasts s) (b_label b) = Some b))"
proof -
  obtain ob u where g: "getBroadcastToEmit ord s = (ob, u)" by fastforce
  note best = getBroadcastToEmit_ok [OF wf_stateD(6) [OF assms(1)] g]
  have "wf_state (s\<lparr>broadcasts := broadcasts u\<rparr>)"
    by (rule wf_state_updates) (use assms(1) best in blast)+
  with best have u: "wf_state u" by metis
  obtain bs where bs: "u = s\<lparr>broadcasts := bs\<rparr>" using best by metis
  have fr: "tx_frame s (s\<lparr>broadcasts := bs'\<rparr>)" if "b_origin ` snd ` set bs' \<subseteq> b_origin ` snd ` set (broadcasts s)" for bs'
    using that by (auto simp: tx_frame_def origins_def split_beta image_image
        intro!: exI [of _ "heap s"] exI [of _ "updatedNodes s"] exI [of _ bs'] exI [of _ "sent s"])
  have "wf_map bs" using best bs by (auto simp: broadcasts_ok_def)
  then have sub: "set bs \<subseteq> set (broadcasts s)"
    using best by (auto simp: bs simp flip: wf_map_of_iff dest: map_of_SomeD)
  show ?thesis
  proof (cases ob)
    case None
    then show ?thesis using assms(2) g u fr [of bs] sub by (auto simp: attach_broadcast_def bs)
  next
    case (Some b)
    then have b: "map_of (broadcasts u) (b_label b) = Some b" "map_of (broadcasts s) (b_label b) = Some b"
      using best by auto
    have "t = spend_broadcast b u" "msg' = msg \<or> msg' = addBroadcast b msg"
      using assms(2) g Some by (auto simp: attach_broadcast_def Let_def split: if_splits)
    moreover have "tx_frame s (spend_broadcast b u)"
      using fr [OF spend_origins [OF \<open>wf_map bs\<close> sub map_of_SomeD [OF b(2)]]] by (simp add: bs spend_broadcast_def)
    ultimately show ?thesis using wf_state_spend_broadcast [OF u b(1)] b(2)
      by (auto simp: bs spend_broadcast_def)
  qed
qed

section \<open>Sending\<close>

lemma getRandomUpdatedNodes_ok:
  assumes "wf_state s"
  shows "ensures (getRandomUpdatedNodes ord1 ord2 sz ex s) (\<lambda>(ns, t). wf_state t \<and> tx_frame s t \<and>
    sent t = sent s \<and> heap t = heap s \<and> broadcasts t = broadcasts s \<and>
    set ns \<subseteq> gossip_pool s ex \<and> distinct ns \<and> length ns \<le> nat sz \<and>
    (\<forall>n \<in> set ns. n < length (heap s) \<and> \<not> excluded (heap s) ex n))"
proof (cases "sz < 0")
  case True
  then show ?thesis by (simp add: getRandomUpdatedNodes_negative)
next
  case False
  note upd = wf_stateD(3) [OF assms]
  obtain vs m where g: "getRandomUpdatedNodes ord1 ord2 sz ex s =
      Inr (take (nat sz) (byNodeEmitCounter (heap s) (filter (\<lambda>n. 0 < node_counter (heap s) n) vs)), s\<lparr>updatedNodes := m\<rparr>)"
    and vs: "set vs = gossip_pool s ex" "distinct vs" and m: "map_ok (heap s) m"
    using getRandomUpdatedNodes_eq [OF upd, of sz ord1 ord2 ex] False by auto
  let ?ns = "take (nat sz) (byNodeEmitCounter (heap s) (filter (\<lambda>n. 0 < node_counter (heap s) n) vs))"
  have sub: "set ?ns \<subseteq> gossip_pool s ex"
    using set_take_subset [of "nat sz"] vs(1) by (force simp: byNodeEmitCounter_def)
  have "n < length (heap s) \<and> \<not> excluded (heap s) ex n" if "n \<in> gossip_pool s ex" for n
    using that map_ok_lookup [OF upd] by (auto simp: gossip_pool_def)
  with sub have "\<forall>n \<in> set ?ns. n < length (heap s) \<and> \<not> excluded (heap s) ex n" by blast
  moreover have "tx_frame s (s\<lparr>updatedNodes := m\<rparr>)"
    by (auto simp: tx_frame_def origins_def intro!: exI [of _ "heap s"] exI [of _ m] exI [of _ "broadcasts s"] exI [of _ "sent s"])
  ultimately show ?thesis unfolding g using assms m sub vs(2)
    by (simp add: byNodeEmitCounter_def)
qed

lemma getRandomNodes_ok:
  assumes "map_ok h m" and "n \<in> set (getRandomNodes ord js h m sz ex)"
  shows "n < length h \<and> \<not> excluded h ex n \<and> getByAddress m (addressOf h n) = Some n"
proof -
  note k = map_ok_keys [OF assms(1)]
  let ?vs = "filter (\<lambda>n. \<not> excluded h ex n) (shuffle js (nodeMap_values ord m))"
  have "n \<in> set ?vs"
    using assms(2) in_set_takeD [of n _ ?vs] by (simp only: getRandomNodes_eq [OF k])
  then have "n \<in> set (nodeMap_values ord m)" "\<not> excluded h ex n" by auto
  moreover from this(1) have "getByAddress m (addressOf h n) = Some n" by (simp only: values_iff [OF k])
  ultimately show ?thesis using map_ok_lookup [OF assms(1)] by blast
qed

lemma distinct_getRandomNodes: "map_ok h m \<Longrightarrow> distinct (getRandomNodes ord js h m sz ex)"
  using eligible_filter(2) [OF map_ok_keys] by (simp add: getRandomNodes_eq [OF map_ok_keys])

text \<open>The steps of \<open>transmitVerbGenericUDP\<close> once the nodes to gossip about are chosen.\<close>

definition finish_send ::
  "choices \<Rightarrow> node_ref \<Rightarrow> message \<Rightarrow> node_ref list \<Rightarrow> smudge \<Rightarrow> (go_error option \<times> smudge) outcome" where
  "finish_send ch nd msg ns s =
     (let (err, msg, s) = add_gossip ns msg s in
      case err of
        Some e \<Rightarrow> Inr (Some e, s)
      | None \<Rightarrow>
          let (msg, s) = attach_broadcast (ord_broadcasts ch) msg s in
          bindR (message_encode (heap s) (ipLen s) msg) (\<lambda>bytes.
          if \<not> write_ok ch then Inr (Some ErrNet, s)
          else
            let s = s\<lparr>sent := sent s @ [(addr s nd, bytes)]\<rparr>;
                s = fold (\<lambda>m s. spend_node (mm_node m) s) (members msg) s
            in Inr (None, s)))"

definition start_message :: "node_ref option \<Rightarrow> messageVerb \<Rightarrow> uint32 \<Rightarrow> smudge \<Rightarrow> message" where
  "start_message forwardTo vb code s =
     (case forwardTo of
        None \<Rightarrow> newMessage vb (thisHost s) code
      | Some f \<Rightarrow> (newMessage vb (thisHost s) code)\<lparr>members :=
          [\<lparr>mm_source = statusSource (node s f), mm_heartbeat = code, mm_node = f, mm_status = StatusForwardTo\<rparr>]\<rparr>)"

definition gossip_choice :: "choices \<Rightarrow> node_ref list \<Rightarrow> node_ref list \<Rightarrow> smudge \<Rightarrow> node_ref list" where
  "gossip_choice ch ns ex s =
     (if length ns = 0
      then getRandomNodes (ord_known ch) (rand_known ch) (heap s) (knownNodes s) (pingRequestCount s) ex
      else ns)"

lemma transmit_stages:
  assumes "dial_ok ch" and "thisHost s = Some this"
  shows "transmitVerbGenericUDP ch nd fwd vb code s =
    bindR (getRandomUpdatedNodes (ord_updated ch) (ord_copy ch) (pingRequestCount s) [nd, this] s)
      (\<lambda>(ns, t). finish_send ch nd (start_message fwd vb code s) (gossip_choice ch ns [nd, this] t) t)"
proof -
  have "(case fwd of None \<Rightarrow> newMessage vb (Some this) code
      | Some f \<Rightarrow> snd (addMember f StatusForwardTo code (statusSource (node s f)) (newMessage vb (Some this) code))) =
      start_message fwd vb code s"
    by (simp add: start_message_def addMember_def newMessage_def assms(2) split: option.splits)
  then show ?thesis
    using assms by (simp add: transmitVerbGenericUDP_def finish_send_def gossip_choice_def Let_def del: status_defs)
qed

lemma spend_nodes:
  "wf_state s \<Longrightarrow> wf_state (fold spend_node ns s) \<and> tx_frame s (fold spend_node ns s) \<and> sent (fold spend_node ns s) = sent s"
  using spend_all [of s "\<lambda>m. m" ns] by simp

lemma spend_nodes_same: "broadcasts (fold spend_node ns s) = broadcasts s" "updatedNodes (fold spend_node ns s) = updatedNodes s"
  by (induction ns arbitrary: s) (simp_all add: spend_node_def)

lemma sent_frame: "tx_frame s (s\<lparr>sent := ds\<rparr>)"
  by (auto simp: tx_frame_def origins_def intro!: exI [of _ "heap s"] exI [of _ "updatedNodes s"] exI [of _ "broadcasts s"])

lemma finish_send_ok:
  assumes "wf_state s" and "length (members msg) \<le> 63" and "nd < length (heap s)"
  shows "ensures (finish_send ch nd msg ns s) (\<lambda>(err, t). wf_state t \<and> tx_frame s t \<and>
    (if err = None then \<exists>bytes. sent t = sent s @ [(addr s nd, bytes)] else sent t = sent s))"
proof -
  obtain err msg1 s1 where g: "add_gossip ns msg s = (err, msg1, s1)" by (cases "add_gossip ns msg s") auto
  then obtain k where "s1 = fold spend_node (take k ns) s" using add_gossip_eq [OF assms(2) refl, of ns s] by auto
  then have s1: "wf_state s1" "tx_frame s s1" "sent s1 = sent s" using spend_nodes [OF assms(1)] by auto
  obtain msg2 s2 where a: "attach_broadcast (ord_broadcasts ch) msg1 s1 = (msg2, s2)" by fastforce
  have s2: "wf_state s2" "tx_frame s s2" "sent s2 = sent s"
    using attach_broadcast_ok [OF s1(1) a] s1 tx_frame_trans by auto
  have addr: "addr s2 nd = addr s nd" using extends_addressOf [OF tx_frame_same(13) [OF s2(2)] assms(3)] .
  have fin: "wf_state (fold (\<lambda>m s. spend_node (mm_node m) s) ms (s2\<lparr>sent := ds\<rparr>)) \<and>
      tx_frame s (fold (\<lambda>m s. spend_node (mm_node m) s) ms (s2\<lparr>sent := ds\<rparr>)) \<and>
      sent (fold (\<lambda>m s. spend_node (mm_node m) s) ms (s2\<lparr>sent := ds\<rparr>)) = ds" for ms ds
    using spend_all [of "s2\<lparr>sent := ds\<rparr>" mm_node ms] s2 tx_frame_trans [OF tx_frame_trans [OF s2(2) sent_frame]] by auto
  show ?thesis
    unfolding finish_send_def g Let_def prod.case
    using s1 s2 by (auto simp: a addr fin intro!: ensures_bind split: option.splits)
qed

lemma start_members: "length (members (start_message fwd vb code s)) \<le> 1" "sender (start_message fwd vb code s) = thisHost s"
    "broadcast (start_message fwd vb code s) = None" "verb (start_message fwd vb code s) = vb"
    "senderHeartbeat (start_message fwd vb code s) = code"
  by (simp_all add: start_message_def newMessage_def split: option.splits)

lemma transmit_ok:
  assumes "wf_state s" and "nd < length (heap s)"
  shows "ensures (transmitVerbGenericUDP ch nd fwd vb code s) (\<lambda>(err, t). wf_state t \<and> tx_frame s t \<and>
    (if err = None then \<exists>bytes. sent t = sent s @ [(addr s nd, bytes)] else sent t = sent s))"
proof (cases "dial_ok ch")
  case False
  then show ?thesis using assms(1) by (simp add: transmitVerbGenericUDP_def)
next
  case dial: True
  show ?thesis
  proof (cases "thisHost s")
    case None
    then show ?thesis using dial by (simp add: transmitVerbGenericUDP_def)
  next
    case (Some this)
    show ?thesis unfolding transmit_stages [OF dial Some]
    proof (rule ensures_bind, clarify)
      fix ns t assume "getRandomUpdatedNodes (ord_updated ch) (ord_copy ch) (pingRequestCount s) [nd, this] s = Inr (ns, t)"
      from ensuresD [OF getRandomUpdatedNodes_ok [OF assms(1)] this]
      have t: "wf_state t" "tx_frame s t" "sent t = sent s" "heap t = heap s" by auto
      have "length (members (start_message fwd vb code s)) \<le> 63" using start_members(1) [of fwd vb code s] by linarith
      from finish_send_ok [OF t(1) this, of nd ch]
      show "ensures (finish_send ch nd (start_message fwd vb code s) (gossip_choice ch ns [nd, this] t) t)
        (\<lambda>(err, t). wf_state t \<and> tx_frame s t \<and>
          (if err = None then \<exists>bytes. sent t = sent s @ [(addr s nd, bytes)] else sent t = sent s))"
        by (rule ensures_weaken) (use t assms(2) tx_frame_trans [OF t(2)] in auto)
    qed
  qed
qed

section \<open>When sending cannot panic\<close>

text \<open>
  Every node can be written in the current address mode, and so can the origin of every
  broadcast that may be emitted.
\<close>

definition enc_ok :: "smudge \<Rightarrow> bool" where
  "enc_ok s \<longleftrightarrow> (\<forall>n \<in> set (heap s). length (member_ip (ipLen s) (ip n)) = ipLen s) \<and>
     (\<forall>(k, b) \<in> set (broadcasts s). fits (ipLen s) (ip (node s (b_origin b))))"

lemma gossip_alloc: "wf_state s \<Longrightarrow> n < length (heap s) \<Longrightarrow> member_alloc (heap s) (gossip_of s n)"
  using wf_stateD(1) [of s] by (simp add: member_alloc_def gossip_of_def wf_heap_def)

lemma enc_ok_member:
  assumes "enc_ok s" and "member_alloc (heap s) mm" and "tx_frame s t"
  shows "member_fits (heap t) (ipLen t) mm"
proof -
  have "length (member_ip (ipLen s) (ip (node s r))) = ipLen s" if "r < length (heap s)" for r
    using assms(1) that by (simp add: enc_ok_def)
  moreover have "ip (node t r) = ip (node s r)" if "r < length (heap s)" for r
    using assms(3) that by (simp add: tx_frame_def counters_only_node)
  ultimately show ?thesis
    using assms(2) tx_frame_same(3) [OF assms(3)] by (auto simp: member_fits_def member_alloc_def)
qed

lemma finish_send_total:
  assumes "wf_state s" and "enc_ok s" and "length (members msg) \<le> 63" and "sender msg \<noteq> None"
    and "broadcast msg = None" and "\<forall>mm \<in> set (members msg). member_alloc (heap s) mm"
    and "\<forall>n \<in> set ns. n < length (heap s)"
  shows "yields (finish_send ch nd msg ns s) (\<lambda>_. True)"
proof -
  let ?k = "63 - length (members msg)"
  let ?msg = "msg\<lparr>members := members msg @ map (gossip_of s) (take ?k ns)\<rparr>" and ?s = "fold spend_node (take ?k ns) s"
  have s1: "wf_state ?s" "tx_frame s ?s" using spend_nodes [OF assms(1)] by auto
  obtain msg2 s2 where a: "attach_broadcast (ord_broadcasts ch) ?msg ?s = (msg2, s2)" by fastforce
  note ab = attach_broadcast_ok [OF s1(1) a]
  have s2: "tx_frame s s2" using ab s1(2) tx_frame_trans by blast
  have mem: "member_fits (heap s2) (ipLen s2) mm" if "mm \<in> set (members ?msg)" for mm
  proof (rule enc_ok_member [OF assms(2) _ s2])
    show "member_alloc (heap s) mm"
      using that assms(6,7) gossip_alloc [OF assms(1)] by (auto dest: in_set_takeD)
  qed
  have bc: "fits (ipLen s2) (ip (node s2 (b_origin b)))" if "map_of (broadcasts ?s) (b_label b) = Some b" for b
  proof -
    have b: "(b_label b, b) \<in> set (broadcasts s)" using that by (simp add: spend_nodes_same map_of_SomeD)
    then have "b_origin b < length (heap s)" using wf_stateD(6) [OF assms(1)] by (auto simp: broadcasts_ok_def)
    then have "ip (node s2 (b_origin b)) = ip (node s (b_origin b))"
      using s2 by (simp add: tx_frame_def counters_only_node)
    then show ?thesis using b assms(2) tx_frame_same(3) [OF s2] by (auto simp: enc_ok_def)
  qed
  have "members msg2 = members ?msg" "sender msg2 = sender msg" "\<And>b. broadcast msg2 = Some b \<Longrightarrow> map_of (broadcasts ?s) (b_label b) = Some b"
    using ab assms(5) by (auto simp: addBroadcast_def)
  then have fits: "message_fits (heap s2) (ipLen s2) msg2" and "sender msg2 \<noteq> None"
    using mem bc assms(4) by (auto simp: message_fits_def)
  then obtain bytes where "message_encode (heap s2) (ipLen s2) msg2 = Inr bytes"
    using message_encode_eq [OF fits] by auto
  then show ?thesis
    unfolding finish_send_def add_gossip_eq [OF assms(3) refl] Let_def prod.case a
    by (simp split: option.splits)
qed

lemma known_nonempty: "getByAddress (knownNodes s) k \<noteq> None \<Longrightarrow> 0 \<le> pingRequestCount s"
  unfolding pingRequestCount_def nodeMap_length_def getByAddress_def
  by (cases "nodes (knownNodes s)") (auto intro!: log_count_nonneg)

lemma known_some:
  assumes "0 < nodeMap_length m" shows "\<exists>k. getByAddress m k \<noteq> None"
proof -
  obtain k v where "(k, v) \<in> set (nodes m)" using assms by (cases "nodes m") (auto simp: nodeMap_length_def)
  then show ?thesis by (auto simp: getByAddress_def map_of_eq_None_iff intro: rev_image_eqI)
qed

lemma getRandomUpdatedNodes_total:
  "map_ok (heap s) (updatedNodes s) \<Longrightarrow> 0 \<le> sz \<Longrightarrow> yields (getRandomUpdatedNodes ord1 ord2 sz ex s) (\<lambda>_. True)"
  using getRandomUpdatedNodes_eq [of s sz ord1 ord2 ex] by (auto simp: yields_def)

lemma enc_ok_updated: "enc_ok (s\<lparr>updatedNodes := m\<rparr>) = enc_ok s"
  by (simp add: enc_ok_def)

lemma transmit_total:
  assumes "wf_state s" and "enc_ok s" and "thisHost s = Some this"
    and "getByAddress (knownNodes s) k \<noteq> None" and "\<And>f. fwd = Some f \<Longrightarrow> f < length (heap s)"
  shows "yields (transmitVerbGenericUDP ch nd fwd vb code s) (\<lambda>_. True)"
proof (cases "dial_ok ch")
  case False
  then show ?thesis by (simp add: transmitVerbGenericUDP_def)
next
  case True
  have "yields (getRandomUpdatedNodes (ord_updated ch) (ord_copy ch) (pingRequestCount s) [nd, this] s) (\<lambda>_. True)"
    using wf_stateD(3) [OF assms(1)] known_nonempty [OF assms(4)] by (rule getRandomUpdatedNodes_total)
  then show ?thesis unfolding transmit_stages [OF True assms(3)]
  proof (rule yields_bind, clarify)
    fix ns t assume g: "getRandomUpdatedNodes (ord_updated ch) (ord_copy ch) (pingRequestCount s) [nd, this] s = Inr (ns, t)"
    note t = ensuresD [OF getRandomUpdatedNodes_ok [OF assms(1)] g, unfolded prod.case]
    have "enc_ok t" using assms(2) t tx_frame_same(3) [of s t] by (auto simp: enc_ok_def)
    moreover have "\<forall>mm \<in> set (members (start_message fwd vb code s)). member_alloc (heap t) mm"
      using assms(1,5) t wf_stateD(1) [OF assms(1)]
      by (auto simp: start_message_def newMessage_def member_alloc_def wf_heap_def split: option.splits)
    moreover have "\<forall>n \<in> set (gossip_choice ch ns [nd, this] t). n < length (heap t)"
      using t getRandomNodes_ok [OF wf_stateD(2) [of t], of _ "ord_known ch" "rand_known ch"]
      by (auto simp: gossip_choice_def)
    ultimately show "yields (finish_send ch nd (start_message fwd vb code s) (gossip_choice ch ns [nd, this] t) t) (\<lambda>_. True)"
      using t start_members [of fwd vb code s] assms(3) by (intro finish_send_total) auto
  qed
qed

section \<open>What is sent\<close>

lemma spend_counter:
  assumes "r < length (heap s)"
  shows "emitCounter (node (fold spend_node ns s) r) = emitCounter (node s r) - word_of_nat (count_list ns r)"
  using assms
proof (induction ns arbitrary: s)
  case (Cons n ns)
  have "r < length (heap (spend_node n s))" using Cons.prems by (simp add: spend_node_def)
  from Cons.IH [OF this] have "emitCounter (node (fold spend_node (n # ns) s) r) =
      emitCounter (node (spend_node n s) r) - word_of_nat (count_list ns r)" by simp
  also have "emitCounter (node (spend_node n s) r) = emitCounter (node s r) - (if n = r then 1 else 0)"
    using Cons.prems by (cases "n < length (heap s)") (auto simp: spend_node_def modify_nth, simp add: modify_def list_update_beyond)
  finally show ?case by (auto simp: algebra_simps)
qed simp

lemma fold_spend_members: "fold (\<lambda>m s. spend_node (f m) s) ms s = fold spend_node (map f ms) s"
  by (induction ms arbitrary: s) simp_all

text \<open>The contents of one transmission, when it succeeds.\<close>

definition transmission ::
  "node_ref \<Rightarrow> message \<Rightarrow> node_ref list \<Rightarrow> message \<Rightarrow> heap \<Rightarrow> byte list \<Rightarrow> smudge \<Rightarrow> smudge \<Rightarrow> bool" where
  "transmission nd start ns msg h bytes s t \<longleftrightarrow>
     sent t = sent s @ [(addr s nd, bytes)] \<and> counters_only (heap s) h \<and>
     message_encode h (ipLen s) msg = Inr bytes \<and>
     sender msg = sender start \<and> verb msg = verb start \<and> senderHeartbeat msg = senderHeartbeat start \<and>
     members msg = members start @ map (gossip_of s) ns \<and> length (members start) + length ns \<le> 63 \<and>
     (\<forall>b. broadcast msg = Some b \<longrightarrow> broadcast start = Some b \<or> (\<exists>k. (k, b) \<in> set (broadcasts s))) \<and>
     (\<forall>r < length (heap s). emitCounter (node t r) =
        emitCounter (node s r) - word_of_nat (count_list (ns @ map mm_node (members msg)) r))"

lemma finish_send_trace:
  assumes "length (members start) \<le> 63" and "finish_send ch nd start ns s = Inr (None, t)"
  obtains msg u bytes where "length (members start) + length ns \<le> 63"
    and "attach_broadcast (ord_broadcasts ch) (start\<lparr>members := members start @ map (gossip_of s) ns\<rparr>) (fold spend_node ns s) = (msg, u)"
    and "message_encode (heap u) (ipLen u) msg = Inr bytes"
    and "t = fold spend_node (map mm_node (members msg)) (u\<lparr>sent := sent u @ [(addr u nd, bytes)]\<rparr>)"
proof -
  let ?k = "63 - length (members start)"
  let ?msg = "start\<lparr>members := members start @ map (gossip_of s) ns\<rparr>" and ?s = "fold spend_node ns s"
  have fit: "length ns \<le> ?k"
  proof (rule ccontr)
    assume "\<not> length ns \<le> ?k"
    then have "fst (add_gossip ns start s) = Some (ErrMsg ''member list overflow'')"
      using add_gossip_eq [OF assms(1) refl, of ns s] by simp
    then show False using assms(2) by (cases "add_gossip ns start s") (simp add: finish_send_def)
  qed
  then have g: "add_gossip ns start s = (None, ?msg, ?s)" using add_gossip_eq [OF assms(1) refl, of ns s] by simp
  obtain msg u where a: "attach_broadcast (ord_broadcasts ch) ?msg ?s = (msg, u)" by fastforce
  from assms(2) obtain bytes where enc: "message_encode (heap u) (ipLen u) msg = Inr bytes"
    and fin: "(if \<not> write_ok ch then Inr (Some ErrNet, u)
      else Inr (None, fold (\<lambda>m s. spend_node (mm_node m) s) (members msg)
        (u\<lparr>sent := sent u @ [(addr u nd, bytes)]\<rparr>))) = (Inr (None, t) :: (go_error option \<times> smudge) outcome)"
    unfolding finish_send_def g Let_def prod.case option.case a by (elim bindR_InrE) (rule that)
  have "t = fold spend_node (map mm_node (members msg)) (u\<lparr>sent := sent u @ [(addr u nd, bytes)]\<rparr>)"
    using fin by (cases "write_ok ch") (simp_all add: fold_spend_members [of mm_node])
  then show ?thesis using that [OF _ a enc] fit assms(1) by simp
qed

lemma finish_send_spec:
  assumes "wf_state s" and "length (members start) \<le> 63" and "nd < length (heap s)"
    and "finish_send ch nd start ns s = Inr (None, t)"
  shows "\<exists>msg h bytes. transmission nd start ns msg h bytes s t"
proof -
  let ?msg = "start\<lparr>members := members start @ map (gossip_of s) ns\<rparr>" and ?s = "fold spend_node ns s"
  obtain msg u bytes where fit: "length (members start) + length ns \<le> 63"
    and a: "attach_broadcast (ord_broadcasts ch) ?msg ?s = (msg, u)"
    and enc: "message_encode (heap u) (ipLen u) msg = Inr bytes"
    and t: "t = fold spend_node (map mm_node (members msg)) (u\<lparr>sent := sent u @ [(addr u nd, bytes)]\<rparr>)"
    using assms(2,4) by (rule finish_send_trace)
  have s1: "wf_state ?s" "tx_frame s ?s" "sent ?s = sent s" using spend_nodes [OF assms(1)] by auto
  note ab = attach_broadcast_ok [OF s1(1) a]
  have u: "tx_frame s u" "heap u = heap ?s" "sent u = sent s" using ab s1 tx_frame_trans by auto
  have cnt: "emitCounter (node t r) = emitCounter (node s r) - word_of_nat (count_list (ns @ map mm_node (members msg)) r)"
    if "r < length (heap s)" for r
  proof -
    have "r < length (heap (u\<lparr>sent := sent u @ [(addr u nd, bytes)]\<rparr>))" using that tx_frame_same(11) [OF u(1)] by simp
    then show ?thesis using spend_counter [OF that, of ns] u(2) by (simp add: t spend_counter)
  qed
  have "wf_state (u\<lparr>sent := sent u @ [(addr u nd, bytes)]\<rparr>)" using ab by simp
  from spend_nodes [OF this] have "sent t = sent u @ [(addr u nd, bytes)]" unfolding t by simp
  moreover have "addr u nd = addr s nd" using extends_addressOf [OF tx_frame_same(13) [OF u(1)] assms(3)] .
  moreover have "members msg = members ?msg" "sender msg = sender start" "verb msg = verb start"
      "senderHeartbeat msg = senderHeartbeat start"
    using ab by (auto simp: addBroadcast_def)
  moreover have "broadcast start = Some b \<or> (\<exists>k. (k, b) \<in> set (broadcasts s))" if "broadcast msg = Some b" for b
    using that ab spend_nodes_same(1) by (auto simp: addBroadcast_def dest: map_of_SomeD)
  ultimately show ?thesis
    using enc cnt u(3) fit tx_frame_same(3) [OF u(1)] tx_frame_counters [OF u(1)] unfolding transmission_def
    by (intro exI [of _ msg] exI [of _ "heap u"] exI [of _ bytes]) simp
qed

lemma gossip_pool_inj: "inj_on (addr s) (gossip_pool s ex)"
proof (rule inj_onI)
  fix x y assume x: "x \<in> gossip_pool s ex" and y: "y \<in> gossip_pool s ex" and eq: "addr s x = addr s y"
  have "getByAddress (updatedNodes s) (addr s x) = Some x" using x unfolding gossip_pool_def by blast
  moreover have "getByAddress (updatedNodes s) (addr s y) = Some y" using y unfolding gossip_pool_def by blast
  ultimately show "x = y" unfolding eq by (metis option.inject)
qed

lemma known_choice_inj:
  assumes "map_ok h m" shows "inj_on (addressOf h) (set (getRandomNodes ord js h m sz ex))"
proof (rule inj_on_subset)
  show "inj_on (addressOf h) (set (nodeMap_values ord m))"
    by (rule inj_onI) (rule reg.same_address_same_node [OF map_ok_keys [OF assms]])
  show "set (getRandomNodes ord js h m sz ex) \<subseteq> set (nodeMap_values ord m)"
    unfolding getRandomNodes_eq [OF map_ok_keys [OF assms]] by (auto dest: in_set_takeD)
qed

lemma transmit_spec:
  assumes "wf_state s" and "nd < length (heap s)" and "transmitVerbGenericUDP ch nd fwd vb code s = Inr (None, t)"
  shows "\<exists>this ns msg h bytes. thisHost s = Some this \<and> distinct ns \<and> distinct (map (addr s) ns) \<and>
    (\<forall>n \<in> set ns. n < length (heap s) \<and> \<not> excluded (heap s) [nd, this] n) \<and>
    transmission nd (start_message fwd vb code s) ns msg h bytes s t"
proof -
  have dial: "dial_ok ch" using assms(3) by (auto simp: transmitVerbGenericUDP_def split: if_splits)
  then obtain this where host: "thisHost s = Some this"
    using assms(3) by (cases "thisHost s") (auto simp: transmitVerbGenericUDP_def Let_def)
  from assms(3) obtain ns u
    where g: "getRandomUpdatedNodes (ord_updated ch) (ord_copy ch) (pingRequestCount s) [nd, this] s = Inr (ns, u)"
      and f: "finish_send ch nd (start_message fwd vb code s) (gossip_choice ch ns [nd, this] u) u = Inr (None, t)"
    unfolding transmit_stages [OF dial host] by (auto elim!: bindR_InrE)
  note u = ensuresD [OF getRandomUpdatedNodes_ok [OF assms(1)] g, unfolded prod.case]
  let ?ns = "gossip_choice ch ns [nd, this] u"
  have known: "map_ok (heap u) (knownNodes u)" using u wf_stateD(2) by blast
  have pool: "inj_on (addr s) (set ns)"
    by (rule inj_on_subset [OF gossip_pool_inj]) (use u in blast)
  have ns: "distinct ?ns" "\<forall>n \<in> set ?ns. n < length (heap s) \<and> \<not> excluded (heap s) [nd, this] n"
    using u getRandomNodes_ok [OF known] distinct_getRandomNodes [OF known] by (auto simp: gossip_choice_def)
  have "heap u = heap s" using u by simp
  then have "inj_on (addr s) (set ?ns)" using pool known_choice_inj [OF known] by (simp add: gossip_choice_def)
  with ns have ns': "distinct ?ns" "distinct (map (addr s) ?ns)" "\<forall>n \<in> set ?ns. n < length (heap s) \<and> \<not> excluded (heap s) [nd, this] n"
    by (simp_all add: distinct_map)
  have "length (members (start_message fwd vb code s)) \<le> 63" using start_members(1) [of fwd vb code s] by linarith
  then obtain msg h bytes where "transmission nd (start_message fwd vb code s) ?ns msg h bytes u t"
    using finish_send_spec [OF _ _ _ f] u assms(2) by auto
  then have "transmission nd (start_message fwd vb code s) ?ns msg h bytes s t"
    using u tx_frame_same(3) [of s u] by (simp add: transmission_def gossip_of_def [abs_def])
  with host ns' show ?thesis by blast
qed

section \<open>The verbs\<close>

text \<open>What every handler keeps: nodes and their addresses, this host, the mode and the known nodes.\<close>

definition keeps :: "smudge \<Rightarrow> smudge \<Rightarrow> bool" where
  "keeps s t \<longleftrightarrow> extends (heap s) (heap t) \<and> thisHost t = thisHost s \<and> ipLen t = ipLen s \<and>
     (\<forall>k. getByAddress (knownNodes s) k \<noteq> None \<longrightarrow> getByAddress (knownNodes t) k \<noteq> None)"

lemma keeps_refl [simp, intro]: "keeps s s"
  by (simp add: keeps_def)

lemma keeps_trans [trans]: "keeps s t \<Longrightarrow> keeps t u \<Longrightarrow> keeps s u"
  by (auto simp: keeps_def intro: extends_trans)

lemma keeps_tx: "tx_frame s t \<Longrightarrow> keeps s t"
  by (simp add: keeps_def tx_frame_same)

lemma keeps_grows: "grows s t \<Longrightarrow> keeps s t"
  by (simp add: keeps_def grows_same grows_extends)

lemma keeps_updates [simp]:
  "keeps s (s\<lparr>pendingAcks := ps\<rparr>)" "keeps s (s\<lparr>currentHeartbeat := c\<rparr>)" "keeps s (s\<lparr>spawned := gs\<rparr>)"
  "keeps s (s\<lparr>pingdata := pd\<rparr>)" "keeps s (s\<lparr>notified := ns\<rparr>)" "keeps s (s\<lparr>broadcasts := bs\<rparr>)"
  "keeps s (s\<lparr>deadNodeRetries := d\<rparr>)" "keeps s (s\<lparr>knownNodesModifiedFlag := b\<rparr>)"
  by (simp_all add: keeps_def)

lemma keeps_length: "keeps s t \<Longrightarrow> r < length (heap s) \<Longrightarrow> r < length (heap t)"
  by (auto simp: keeps_def intro: less_length_mono)

lemma keeps_addr: "keeps s t \<Longrightarrow> r < length (heap s) \<Longrightarrow> addr t r = addr s r"
  by (simp add: keeps_def extends_addressOf)

lemma BroadcastBytes_ok:
  assumes "wf_state s"
  shows "ensures (BroadcastBytes bs s) (\<lambda>(err, t). wf_state t \<and> keeps s t)"
proof (cases "int (length bs) > maxBroadcastBytesOf s \<or> thisHost s = None")
  case True
  then show ?thesis using assms by (auto simp: BroadcastBytes_def)
next
  case False
  then obtain h where h: "thisHost s = Some h" by auto
  let ?b = "\<lparr>b_bytes = bs, b_origin = h, b_index = indexCounter s, b_label = [], b_emitCounter = word_of_int (emitCount s)\<rparr>"
  let ?l = "label_of (heap s) h (indexCounter s)"
  have "h < length (heap s)" using wf_stateD(7) [OF assms] h by simp
  then have "broadcasts_ok (heap s) (AList.update ?l (?b\<lparr>b_label := ?l\<rparr>) (broadcasts s))"
    using wf_stateD(6) [OF assms] by (intro broadcasts_ok_update) simp_all
  then show ?thesis using False h assms
    by (simp add: BroadcastBytes_def Broadcast_Label_new keeps_def wf_state_updates)
qed

lemma wf_state_new_pack:
  assumes "wf_state s" and "pack_ok (heap s) p"
  shows "wf_state (s\<lparr>pendingAcks := AList.update k p (pendingAcks s)\<rparr>)"
  using assms by (intro wf_state_updates packs_ok_update wf_stateD)

lemma transmit_keeps:
  assumes "wf_state s" and "nd < length (heap s)"
  shows "ensures (transmitVerbGenericUDP ch nd fwd vb code s) (\<lambda>(err, t). wf_state t \<and> keeps s t)"
  by (rule ensures_weaken [OF transmit_ok [OF assms]]) (auto simp: keeps_tx)

lemma send_with_pack:
  assumes "wf_state s" and "nd < length (heap s)" and "pack_ok (heap s) p"
  shows "ensures (transmitVerbGenericUDP ch nd fwd vb code (s\<lparr>pendingAcks := AList.update k p (pendingAcks s)\<rparr>))
    (\<lambda>(err, t). wf_state t \<and> keeps s t \<and> map_of (pendingAcks t) k = Some p)"
proof -
  let ?s = "s\<lparr>pendingAcks := AList.update k p (pendingAcks s)\<rparr>"
  have "ensures (transmitVerbGenericUDP ch nd fwd vb code ?s) (\<lambda>(err, t). wf_state t \<and> tx_frame ?s t)"
    by (rule ensures_weaken [OF transmit_ok]) (use assms wf_state_new_pack in auto)
  then show ?thesis
    by (rule ensures_weaken) (auto simp: tx_frame_same map_of_update intro: keeps_trans [OF keeps_updates(1) keeps_tx])
qed

lemma forward_ok:
  assumes "wf_state s" and "nd < length (heap s)" and "dn < length (heap s)"
  shows "ensures (transmitVerbForwardUDP ch nd dn code s) (\<lambda>(err, t). wf_state t \<and> keeps s t)"
  unfolding transmitVerbForwardUDP_def Let_def
  by (rule ensures_weaken [OF send_with_pack]) (use assms in \<open>auto simp: pack_ok_def\<close>)

lemma ack_ok:
  assumes "wf_state s" and "nd < length (heap s)"
  shows "ensures (transmitVerbAckUDP ch nd code s) (\<lambda>(err, t). wf_state t \<and> keeps s t)"
  unfolding transmitVerbAckUDP_def using assms by (rule transmit_keeps)

lemma ping_ok:
  assumes "wf_state s" and "nd < length (heap s)"
  shows "ensures (PingNode ch nd s) (\<lambda>(err, t). wf_state t \<and> keeps s t \<and>
    map_of (pendingAcks t) (pack_key s nd (currentHeartbeat s)) =
      Some \<lparr>startTime = now s, p_node = nd, callback = None, callbackCode = 0, packType = packPing\<rparr>)"
  unfolding PingNode_def transmitVerbPingUDP_def Let_def
  by (rule ensures_weaken [OF send_with_pack]) (use assms in \<open>auto simp: pack_ok_def\<close>)

section \<open>Indirect pings\<close>

lemma pick_targets_eq:
  "pick_targets h cnt ns acc =
     (if int (length acc) \<ge> cnt then acc
      else acc @ take (nat cnt - length acc) (filter (\<lambda>n. status (h ! n) \<noteq> StatusDead) ns))"
proof (induction ns arbitrary: acc)
  case Nil
  then show ?case by simp
next
  case (Cons n ns)
  show ?case
  proof (cases "int (length acc) \<ge> cnt \<or> status (h ! n) = StatusDead")
    case True
    then show ?thesis using Cons.IH [of acc] by auto
  next
    case False
    then have "nat cnt - length acc = Suc (nat cnt - length (acc @ [n]))" by auto
    then show ?thesis using False Cons.IH [of "acc @ [n]"] by auto
  qed
qed

lemma getTargetNodes_eq:
  assumes "0 \<le> cnt"
  shows "getTargetNodes ord js cnt ex s = Inr (take (nat cnt) (filter (\<lambda>n. status (node s n) \<noteq> StatusDead)
    (getRandomNodes ord js (heap s) (knownNodes s) 0 ex)))"
  using assms by (auto simp: getTargetNodes_def pick_targets_eq)

lemma forward_all_ok:
  assumes "wf_state s" and "dn < length (heap s)" and "\<forall>(i, n) \<in> set ns. n < length (heap s)"
  shows "ensures (foldR (\<lambda>(i, n) s. bindR (transmitVerbForwardUDP (chs i) n dn (hb s) s) (\<lambda>(err, s). Inr s)) ns s)
    (\<lambda>t. wf_state t \<and> keeps s t)"
proof (rule ensures_foldR)
  show "wf_state s \<and> keeps s s" using assms(1) by simp
  fix x t assume "x \<in> set ns" and t: "wf_state t \<and> keeps s t"
  then obtain i n where x: "x = (i, n)" and n: "n < length (heap s)" using assms(3) by auto
  have fwd: "ensures (transmitVerbForwardUDP (chs i) n dn (hb t) t) (\<lambda>(err, u). wf_state u \<and> keeps t u)"
    using t n assms(2) keeps_length by (intro forward_ok) auto
  show "ensures ((case x of (i, n) \<Rightarrow> \<lambda>s. bindR (transmitVerbForwardUDP (chs i) n dn (hb s) s) (\<lambda>(err, s). Inr s)) t)
      (\<lambda>t. wf_state t \<and> keeps s t)"
    using ensuresD [OF fwd] t keeps_trans by (fastforce simp: x intro!: ensures_bind)
qed

lemma keeps_updateNodeStatus [simp]: "keeps s (updateNodeStatus r st hb src s)"
  by (simp add: keeps_def)

lemma doForwardOnTimeout_ok:
  assumes "wf_state s" and "pack_ok (heap s) pack"
  shows "ensures (doForwardOnTimeout ord js chs pack s) (\<lambda>t. wf_state t \<and> keeps s t)"
proof (cases "thisHost s")
  case None
  then show ?thesis by (simp add: doForwardOnTimeout_def)
next
  case (Some this)
  have host: "this < length (heap s)" using wf_stateD(7) [OF assms(1)] Some by simp
  have nd: "p_node pack < length (heap s)" using assms(2) by (simp add: pack_ok_def)
  show ?thesis
  proof (cases "pingRequestCount s < 0")
    case True
    then show ?thesis using Some by (simp add: doForwardOnTimeout_def getTargetNodes_def)
  next
    case False
    let ?ns = "take (nat (pingRequestCount s)) (filter (\<lambda>n. status (node s n) \<noteq> StatusDead)
      (getRandomNodes ord js (heap s) (knownNodes s) 0 [this, p_node pack]))"
    have tgt: "getTargetNodes ord js (pingRequestCount s) [this, p_node pack] s = Inr ?ns"
      using False by (simp only: getTargetNodes_eq not_less)
    have "\<forall>n \<in> set ?ns. n < length (heap s)"
      using getRandomNodes_ok [OF wf_stateD(2) [OF assms(1)]] by (auto dest!: in_set_takeD)
    then have "\<forall>(i, n) \<in> set (enumerate 0 ?ns). n < length (heap s)"
      unfolding enumerate_eq_zip by (blast dest: set_zip_rightD)
    then have "ensures (foldR (\<lambda>(i, n) s. bindR (transmitVerbForwardUDP (chs i) n (p_node pack) (currentHeartbeat s) s)
        (\<lambda>(err, s). Inr s)) (enumerate 0 ?ns) s) (\<lambda>t. wf_state t \<and> keeps s t)"
      by (rule forward_all_ok [OF assms(1) nd])
    moreover have "wf_state (updateNodeStatus (p_node pack) StatusDead (currentHeartbeat s) (Some this) s)"
      using host by (intro wf_state_updateNodeStatus assms(1) nd) simp_all
    ultimately show ?thesis
      unfolding doForwardOnTimeout_def Some option.case tgt bindR_simps
      by (cases "length ?ns = 0") (simp_all only: simp_thms if_True if_False ensures_simps keeps_updateNodeStatus)
  qed
qed

section \<open>Properties\<close>

text \<open>The nodes a ping request may go through: known, not excluded and not dead.\<close>

definition targets :: "smudge \<Rightarrow> node_ref list \<Rightarrow> node_ref set" where
  "targets s ex = {n \<in> eligible (heap s) (knownNodes s) ex. status (node s n) \<noteq> StatusDead}"

text \<open>
  \<open>getTargetNodes\<close> returns as many different targets as asked for, or all there are:
  every one is known, none is dead or excluded by address. This holds for every order in which
  the map is traversed and every shuffle. A negative count panics.
\<close>

theorem getTargetNodes_spec:
  assumes "wf_state s"
  shows "if cnt < 0 then getTargetNodes ord js cnt ex s = Inl MakeLenOutOfRange
    else \<exists>ns. getTargetNodes ord js cnt ex s = Inr ns \<and> distinct ns \<and> set ns \<subseteq> targets s ex \<and>
      length ns = min (nat cnt) (card (targets s ex))"
proof (cases "cnt < 0")
  case True
  then show ?thesis by (simp add: getTargetNodes_def)
next
  case False
  note k = map_ok_keys [OF wf_stateD(2) [OF assms]]
  let ?all = "filter (\<lambda>n. \<not> excluded (heap s) ex n) (shuffle js (nodeMap_values ord (knownNodes s)))"
  let ?ns = "filter (\<lambda>n. status (node s n) \<noteq> StatusDead) ?all"
  have "length ?all \<le> nodeMap_length (knownNodes s)"
    by (rule order_trans [OF length_filter_le]) (simp add: length_values [OF k])
  then have "getRandomNodes ord js (heap s) (knownNodes s) 0 ex = ?all"
    by (simp only: getRandomNodes_eq [OF k] wanted_def) simp
  then have "getTargetNodes ord js cnt ex s = Inr (take (nat cnt) ?ns)"
    using False by (simp only: getTargetNodes_eq not_less)
  moreover have set: "set ?ns = targets s ex" "distinct ?ns"
    using eligible_filter [OF k, of ex js ord] by (auto simp: targets_def distinct_filter simp del: filter_filter)
  moreover have "card (targets s ex) = length ?ns" using set distinct_card by metis
  ultimately show ?thesis
    using False set_take_subset [of "nat cnt" ?ns] by (auto simp only: if_False length_take min.commute distinct_take)
qed

theorem getTargetNodes_spec_witness:
  "\<exists>ns. getTargetNodes [] [] 2 [0] two_hosts = Inr ns \<and> length ns = 1"
proof -
  have "targets two_hosts [0] = {1}"
    by (auto simp: targets_def eligible_def excluded_def)
  then show ?thesis using getTargetNodes_spec [of two_hosts 2 "[]" "[]" "[0]"] by auto
qed

text \<open>
  C28. A transmission that returns no error has written exactly one datagram, to the printed
  address of the target. It is the encoding of a message from this host with the given verb and
  heartbeat code, whose members are the forwarding request, if there is one, followed by the
  current status, heartbeat and status source of different nodes other than this host and the target.
\<close>

theorem transmission_contents:
  assumes "wf_state s" and "nd < length (heap s)" and "transmitVerbGenericUDP ch nd fwd vb code s = Inr (None, t)"
  shows "\<exists>this ns msg bytes. thisHost s = Some this \<and> sent t = sent s @ [(addr s nd, bytes)] \<and>
    (\<exists>h. counters_only (heap s) h \<and> message_encode h (ipLen s) msg = Inr bytes) \<and>
    sender msg = Some this \<and> verb msg = vb \<and> senderHeartbeat msg = code \<and>
    members msg = members (start_message fwd vb code s) @ map (gossip_of s) ns \<and> distinct ns \<and>
    (\<forall>n \<in> set ns. n < length (heap s) \<and> addr s n \<noteq> addr s nd \<and> addr s n \<noteq> addr s this)"
proof -
  obtain this ns msg h bytes where "thisHost s = Some this" "distinct ns"
    "\<forall>n \<in> set ns. n < length (heap s) \<and> \<not> excluded (heap s) [nd, this] n"
    "transmission nd (start_message fwd vb code s) ns msg h bytes s t"
    using transmit_spec [OF assms] by blast
  then show ?thesis using start_members [of fwd vb code s]
    by (intro exI [of _ this] exI [of _ ns] exI [of _ msg] exI [of _ bytes])
      (auto simp: transmission_def excluded_iff)
qed

text \<open>A network that works, with the traversal orders of the empty order lists.\<close>

definition calm :: choices where
  "calm = \<lparr>dial_ok = True, write_ok = True, ord_updated = [], ord_copy = [], ord_known = [],
     rand_known = [], ord_broadcasts = []\<rparr>"

lemma two_hosts_enc: "enc_ok two_hosts"
  by (simp add: enc_ok_def member_ip_def ip_len_defs)

lemma wanted_le:
  assumes "log_count (nodeMap_length m) \<le> 62"
  shows "wanted m (log_count (nodeMap_length m)) \<le> 62"
proof (cases "nodeMap_length m \<le> 1")
  case True
  then have "nodeMap_length m = 0 \<or> nodeMap_length m = 1" by linarith
  then show ?thesis by (auto simp: wanted_def)
next
  case False
  then have "2 \<le> log_count (nodeMap_length m)" using log_count_mono [of 2 "nodeMap_length m"] by simp
  then show ?thesis using assms by (simp add: wanted_def)
qed

lemma finish_send_error:
  assumes "length (members msg) \<le> 63" and "length (members msg) + length ns \<le> 63" and "write_ok ch"
    and "finish_send ch nd msg ns s = Inr (err, t)"
  shows "err = None"
proof -
  have "add_gossip ns msg s = (None, msg\<lparr>members := members msg @ map (gossip_of s) ns\<rparr>, fold spend_node ns s)"
    using add_gossip_eq [OF assms(1) refl, of ns s] assms(2) by simp
  with assms(3,4) show ?thesis
    by (auto simp: finish_send_def Let_def split: prod.splits elim!: bindR_InrE)
qed

lemma transmit_error:
  assumes "wf_state s" and "dial_ok ch" and "write_ok ch" and "pingRequestCount s \<le> 62"
    and "transmitVerbGenericUDP ch nd fwd vb code s = Inr (err, t)"
  shows "err = None"
proof -
  obtain this where host: "thisHost s = Some this"
    using assms(2,5) by (cases "thisHost s") (auto simp: transmitVerbGenericUDP_def Let_def)
  from assms(5) obtain ns u
    where g: "getRandomUpdatedNodes (ord_updated ch) (ord_copy ch) (pingRequestCount s) [nd, this] s = Inr (ns, u)"
      and f: "finish_send ch nd (start_message fwd vb code s) (gossip_choice ch ns [nd, this] u) u = Inr (err, t)"
    unfolding transmit_stages [OF assms(2) host] by (auto elim!: bindR_InrE)
  note u = ensuresD [OF getRandomUpdatedNodes_ok [OF assms(1)] g, unfolded prod.case]
  have "wf_state u" and cnt: "pingRequestCount u = pingRequestCount s" using u tx_frame_same(12) by auto
  then have "length (getRandomNodes (ord_known ch) (rand_known ch) (heap u) (knownNodes u) (pingRequestCount u) [nd, this]) \<le> 62"
    using wanted_le [of "knownNodes u"] assms(4)
    by (simp add: getRandomNodes_eq [OF map_ok_keys [OF wf_stateD(2)]] pingRequestCount_def)
  then have "length (gossip_choice ch ns [nd, this] u) \<le> 62"
    using u assms(4) by (auto simp: gossip_choice_def)
  then show ?thesis using start_members(1) [of fwd vb code s]
    by (intro finish_send_error [OF _ _ assms(3) f]) linarith+
qed

text \<open>
  C27. On a working network sending succeeds: when this host is set up, some node is known, every
  node and every broadcast origin can be written in the address mode, and the cluster is small
  enough for its gossip limit to stay under the 63 members of a message, a transmission of any verb
  returns no error and writes exactly one datagram to the target, whatever the traversal orders
  and random numbers.
\<close>

theorem transmit_succeeds:
  assumes "wf_state s" and "enc_ok s" and "thisHost s \<noteq> None" and "nd < length (heap s)"
    and "nodeMap_length (knownNodes s) > 0" and "pingRequestCount s \<le> 62" and "ref_ok (heap s) fwd"
    and "dial_ok ch" and "write_ok ch"
  shows "\<exists>t bytes. transmitVerbGenericUDP ch nd fwd vb code s = Inr (None, t) \<and> wf_state t \<and>
    sent t = sent s @ [(addr s nd, bytes)]"
proof -
  obtain k where "getByAddress (knownNodes s) k \<noteq> None" using known_some [OF assms(5)] by blast
  then have "yields (transmitVerbGenericUDP ch nd fwd vb code s) (\<lambda>_. True)"
    using assms by (auto intro!: transmit_total)
  then obtain err t where t: "transmitVerbGenericUDP ch nd fwd vb code s = Inr (err, t)" by (auto elim!: yieldsE)
  moreover have "err = None" using assms(1,8,9,6) t by (rule transmit_error)
  ultimately show ?thesis
    using ensuresD [OF transmit_ok [OF assms(1,4)] t] by auto
qed

lemma two_hosts_count [simp]: "pingRequestCount two_hosts = 2" "nodeMap_length (knownNodes two_hosts) = 2"
  using log_count_table(4) by (simp_all add: pingRequestCount_def nodeMap_length_def numeral_2_eq_2)

theorem transmit_succeeds_witness:
  "\<exists>t bytes. transmitVerbGenericUDP calm 1 None verbPing 7 two_hosts = Inr (None, t) \<and>
     sent t = [(''10.0.0.2:9999'', bytes)]"
  using transmit_succeeds [OF wf_two_hosts two_hosts_enc, of 1 None calm verbPing 7]
  by (auto simp: calm_def nodeMap_length_def)

lemma calm_ping: "\<exists>t. transmitVerbGenericUDP calm 1 None verbPing 7 two_hosts = Inr (None, t)"
proof -
  have "yields (transmitVerbGenericUDP calm 1 None verbPing 7 two_hosts) (\<lambda>_. True)"
    by (rule transmit_total [of _ 0 "''10.0.0.1:9999''"]) (simp_all add: two_hosts_enc getByAddress_def)
  then obtain err t where t: "transmitVerbGenericUDP calm 1 None verbPing 7 two_hosts = Inr (err, t)"
    by (auto elim!: yieldsE)
  moreover have "err = None" by (rule transmit_error [OF wf_two_hosts _ _ _ t]) (simp_all add: calm_def)
  ultimately show ?thesis by auto
qed

theorem transmission_contents_witness:
  "\<exists>t. transmitVerbGenericUDP calm 1 None verbPing 7 two_hosts = Inr (None, t) \<and> length (sent t) = 1"
proof -
  obtain t where t: "transmitVerbGenericUDP calm 1 None verbPing 7 two_hosts = Inr (None, t)"
    using calm_ping by blast
  show ?thesis using transmission_contents [OF wf_two_hosts _ t] t by auto
qed

lemma count_list_distinct: "distinct xs \<Longrightarrow> count_list xs x = (if x \<in> set xs then 1 else 0)"
  by (induction xs) auto

text \<open>
  C33. What a transmission costs: every node it gossips about loses two emissions, one while
  the message is built and one after it is written, and the node of a forwarding request loses
  one. No other node's counter changes. Counters wrap around at the ends of \<open>int8\<close>.
\<close>

theorem gossip_spends_twice:
  assumes "wf_state s" and "nd < length (heap s)" and "transmitVerbGenericUDP ch nd fwd vb code s = Inr (None, t)"
  shows "\<exists>ns msg h bytes. sent t = sent s @ [(addr s nd, bytes)] \<and> counters_only (heap s) h \<and> message_encode h (ipLen s) msg = Inr bytes \<and>
    map mm_node (members msg) = (case fwd of None \<Rightarrow> [] | Some f \<Rightarrow> [f]) @ ns \<and>
    (\<forall>r < length (heap s). emitCounter (node t r) = emitCounter (node s r)
      - (if r \<in> set ns then 2 else 0) - (if fwd = Some r then 1 else 0))"
proof -
  obtain this ns msg h bytes where d: "distinct ns" and tr: "transmission nd (start_message fwd vb code s) ns msg h bytes s t"
    using transmit_spec [OF assms] by blast
  have "map mm_node (map (gossip_of s) ns) = ns" by (simp add: gossip_of_def comp_def)
  then have ms: "map mm_node (members msg) = (case fwd of None \<Rightarrow> [] | Some f \<Rightarrow> [f]) @ ns"
    using tr by (auto simp: transmission_def start_message_def newMessage_def split: option.splits)
  have "count_list (ns @ map mm_node (members msg)) r = 2 * count_list ns r + (if fwd = Some r then 1 else 0)" for r
    by (auto simp: ms count_list_append split: option.splits)
  moreover have "count_list ns r = (if r \<in> set ns then 1 else 0)" for r using d by (rule count_list_distinct)
  ultimately show ?thesis using tr ms unfolding transmission_def
    by (intro exI [of _ ns] exI [of _ msg] exI [of _ h] exI [of _ bytes]) (auto simp: algebra_simps)
qed

theorem gossip_spends_twice_witness:
  "\<exists>t. transmitVerbGenericUDP calm 1 None verbPing 7 two_hosts = Inr (None, t) \<and>
     emitCounter (node t 1) \<in> {0, - 2}"
proof -
  obtain t where t: "transmitVerbGenericUDP calm 1 None verbPing 7 two_hosts = Inr (None, t)"
    using calm_ping by blast
  have len: "1 < length (heap two_hosts)" by simp
  from gossip_spends_twice [OF wf_two_hosts len t] obtain ns where
    "\<forall>r < length (heap two_hosts). emitCounter (node t r) = emitCounter (node two_hosts r)
      - (if r \<in> set ns then 2 else 0) - (if None = Some r then 1 else 0)"
    by (elim exE conjE)
  then have "emitCounter (node t 1) \<in> {0, - 2}" using len by simp
  with t show ?thesis by blast
qed

lemma encode_member_v6:
  assumes "To4 (ip (h ! mm_node mm)) = []" and "p + 1 \<le> length bytes"
  shows "encode_member h IPv4len mm (bytes, p) = Inl IndexOutOfRange"
proof -
  have "write_ip IPv4len [] (bytes[p := mm_status mm]) (p + 1) = Inl IndexOutOfRange"
    using assms(2) by (intro write_ip_short) (simp_all add: ip_len_defs)
  then show ?thesis using assms by (simp add: encode_member_def member_ip_def setIdx_def)
qed

text \<open>
  In IPv4 mode a message whose first member is a node with a proper IPv6 address cannot
  be encoded: \<open>To4\<close> gives \<open>nil\<close> and reading its first byte panics.
\<close>

theorem ipv6_member_in_ipv4_mode_panics:
  assumes "sender m \<noteq> None" and "members m = mm # ms" and "To4 (ip (h ! mm_node mm)) = []"
  shows "message_encode h IPv4len m = Inl IndexOutOfRange"
proof -
  let ?v = "push_bit 2 (word_of_nat (length (members m))) OR verb m :: byte"
  obtain frm where frm: "sender m = Some frm" using assms(1) by auto
  obtain k where k: "(case broadcast m of None \<Rightarrow> 11 + length (members m) * (9 + IPv4len + IPv4len)
      | Some b \<Rightarrow> 11 + length (members m) * (9 + IPv4len + IPv4len) + (8 + IPv4len + length (b_bytes b))) = 12 + k"
    using assms(2) by (cases "broadcast m") (auto simp: ip_len_defs numeral_eq_Suc)
  obtain b1 where 1: "encodeByte ?v (replicate (12 + k) 0) 4 = Inr (b1, 1)" and "length b1 = 12 + k"
    using codec8.enc_fits [of 4 "replicate (12 + k) 0" ?v] by (simp add: encodeUint8_def)
  then obtain b2 where 2: "encodeUint16 (port (h ! frm)) b1 (4 + 1) = Inr (b2, 2)" and "length b2 = 12 + k"
    using codec16.enc_fits [of 5 b1 "port (h ! frm)"] by simp
  then obtain b3 where 3: "encodeUint32 (senderHeartbeat m) b2 (4 + 1 + 2) = Inr (b3, 4)" and "length b3 = 12 + k"
    using codec32.enc_fits [of 7 b2 "senderHeartbeat m"] by simp
  then have "encode_member h IPv4len mm (b3, 4 + 1 + 2 + 4) = Inl IndexOutOfRange"
    using assms(3) by (intro encode_member_v6) simp_all
  then have 4: "foldR (encode_member h IPv4len) (members m) (b3, 4 + 1 + 2 + 4) = Inl IndexOutOfRange"
    by (simp add: assms(2))
  show ?thesis
    unfolding message_encode_def Let_def k frm option.case 1 2 3 4 bindR_simps prod.case ..
qed

definition v6_peer :: Node where
  "v6_peer = (host_node 3)\<lparr>ip := [0x20, 1, 0, 0, 0, 0, 0, 0, 0, 0, 0, 0, 0, 0, 0, 1]\<rparr>"

theorem ipv6_member_in_ipv4_mode_panics_witness:
  "message_encode [host_node 1, v6_peer] IPv4len
     (snd (addMember 1 StatusAlive 5 None (newMessage verbPing (Some 0) 7))) = Inl IndexOutOfRange"
  by (rule ipv6_member_in_ipv4_mode_panics
      [of _ "\<lparr>mm_source = None, mm_heartbeat = 5, mm_node = 1, mm_status = StatusAlive\<rparr>" "[]"])
    (simp_all add: addMember_def newMessage_def v6_peer_def To4_def v4InV6Prefix_def ip_len_defs numeral_eq_Suc)

end
