(* ===== verification/Receive.thy ===== *)
theory Receive
  imports Transmit
begin

text \<open>
  The receiving half of \<open>src/membership.go\<close>: merging the gossip of a message, matching
  acknowledgements with pending pings, and the handlers of the four verbs. A handler runs as one
  step. A goroutine that a handler starts is recorded in \<open>spawned\<close>.
\<close>

section \<open>The operations\<close>

definition timeoutToleranceSigmas :: real where "timeoutToleranceSigmas = 3"

text \<open>The body of the loop over the members of a message.\<close>

definition learn_status :: "messageMember \<Rightarrow> smudge \<Rightarrow> smudge outcome" where
  "learn_status m s =
     bindR (AddNode (mm_node m) (updateNodeStatus (mm_node m) (mm_status m) (mm_heartbeat m) (mm_source m) s))
       (\<lambda>(r, s). Inr s)"

definition update_from_member :: "messageMember \<Rightarrow> smudge \<Rightarrow> smudge outcome" where
  "update_from_member m s =
     (if mm_heartbeat m < heartbeat (node s (mm_node m)) then Inr s
      else if mm_status m = StatusForwardTo then Inr s
      else if mm_status m = StatusDead then
        (case thisHost s of
           None \<Rightarrow> Inl NilDereference
         | Some this \<Rightarrow> if addr s (mm_node m) \<noteq> addr s this then learn_status m s else Inr s)
      else learn_status m s)"

definition updateStatusesFromMessage :: "message \<Rightarrow> smudge \<Rightarrow> smudge outcome" where
  "updateStatusesFromMessage msg s =
     bindR (foldR update_from_member (members msg) s) (\<lambda>s.
     case sender msg of
       None \<Rightarrow> Inl NilDereference
     | Some from \<Rightarrow>
         let s = (if senderHeartbeat msg > heartbeat (node s from)
                  then updateNodeStatus from StatusAlive (senderHeartbeat msg) (thisHost s) s else s)
         in if \<not> nodeMap_contains (heap s) (knownNodes s) from
            then bindR (AddNode from s) (\<lambda>(r, s). Inr s) else Inr s)"

definition pack_elapsed :: "smudge \<Rightarrow> pendingAck \<Rightarrow> uint32" where
  "pack_elapsed s a = now s - startTime a"

definition notePingResponseTime :: "pendingAck \<Rightarrow> smudge \<Rightarrow> smudge outcome" where
  "notePingResponseTime pack s =
     (let elapsedMillis = pack_elapsed s pack;
          s = modify_node (p_node pack) (\<lambda>n. n\<lparr>pingMillis := uint elapsedMillis\<rparr>) s;
          minMillis = word_of_int (minPingTimeOf s);
          elapsedMillis = (if elapsedMillis < minMillis then minMillis else elapsedMillis)
      in bindR (pingData_add (pingdata s) elapsedMillis) (\<lambda>pd.
         let (mean, stddev, pd) = pingData_data pd;
             (sigmas, pd) = nSigma timeoutToleranceSigmas pd
         in Inr (s\<lparr>pingdata := pd\<rparr>)))"

text \<open>What an acknowledgement does with the pending ping it answers.\<close>

definition settle_pack :: "pendingAck \<Rightarrow> smudge \<Rightarrow> smudge outcome" where
  "settle_pack pack s =
     (case callback pack of
        Some cb \<Rightarrow> Inr (s\<lparr>spawned := spawned s @ [TransmitVerbAck cb (callbackCode pack)]\<rparr>)
      | None \<Rightarrow> notePingResponseTime pack s)"

definition receiveVerbAckUDP :: "message \<Rightarrow> smudge \<Rightarrow> (go_error option \<times> smudge) outcome" where
  "receiveVerbAckUDP msg s =
     (case sender msg of
        None \<Rightarrow> Inl NilDereference
      | Some from \<Rightarrow>
          let key = pack_key s from (senderHeartbeat msg) in
          if has_key (pendingAcks s) key then
            let s = modify_node from (Touch (now s)) s in
            bindR (case map_of (pendingAcks s) key of
                     None \<Rightarrow> Inr s
                   | Some pack \<Rightarrow> settle_pack pack s)
              (\<lambda>s. Inr (None, s\<lparr>pendingAcks := AList.delete key (pendingAcks s)\<rparr>))
          else Inr (None, s))"

text \<open>The condition \<open>len(msg.members) >= 0\<close> always holds, so the first member is read.\<close>

definition receiveVerbForwardUDP :: "choices \<Rightarrow> message \<Rightarrow> smudge \<Rightarrow> (go_error option \<times> smudge) outcome" where
  "receiveVerbForwardUDP ch msg s =
     bindR (getIdx (members msg) 0) (\<lambda>member.
     if mm_status member = StatusForwardTo then
       let nd = mm_node member;
           code = mm_heartbeat member;
           key = pack_key s nd code;
           pack = \<lparr>startTime = now s, p_node = nd, callback = sender msg, callbackCode = code,
                   packType = packNFP\<rparr>;
           s = s\<lparr>pendingAcks := AList.update key pack (pendingAcks s)\<rparr>
       in transmitVerbGenericUDP ch nd None verbNonForwardingPing code s
     else Inr (None, s))"

definition receiveVerbPingUDP :: "choices \<Rightarrow> message \<Rightarrow> smudge \<Rightarrow> (go_error option \<times> smudge) outcome" where
  "receiveVerbPingUDP ch msg s =
     (case sender msg of
        None \<Rightarrow> Inl NilDereference
      | Some from \<Rightarrow> transmitVerbAckUDP ch from (senderHeartbeat msg) s)"

definition receiveVerbNonForwardPingUDP ::
  "choices \<Rightarrow> message \<Rightarrow> smudge \<Rightarrow> (go_error option \<times> smudge) outcome" where
  "receiveVerbNonForwardPingUDP ch msg s =
     (case sender msg of
        None \<Rightarrow> Inl NilDereference
      | Some from \<Rightarrow> transmitVerbAckUDP ch from (senderHeartbeat msg) s)"

definition receive_verb :: "choices \<Rightarrow> message \<Rightarrow> smudge \<Rightarrow> (go_error option \<times> smudge) outcome" where
  "receive_verb ch msg s =
     (if verb msg = verbPing then receiveVerbPingUDP ch msg s
      else if verb msg = verbAck then receiveVerbAckUDP msg s
      else if verb msg = verbPingRequest then receiveVerbForwardUDP ch msg s
      else if verb msg = verbNonForwardingPing then receiveVerbNonForwardPingUDP ch msg s
      else Inr (None, s))"

definition sync_heartbeat :: "message \<Rightarrow> smudge \<Rightarrow> smudge" where
  "sync_heartbeat msg s =
     (if senderHeartbeat msg > 0 \<and> senderHeartbeat msg - 1 > currentHeartbeat s
      then s\<lparr>currentHeartbeat := senderHeartbeat msg - 1\<rparr> else s)"

definition receiveMessageUDP ::
  "choices \<Rightarrow> IP \<Rightarrow> gslice \<Rightarrow> smudge \<Rightarrow> (go_error option \<times> smudge) outcome" where
  "receiveMessageUDP ch addrIP msgBytes s =
     bindR (decodeMessage addrIP msgBytes s) (\<lambda>(msg, err, s).
     case err of
       Some e \<Rightarrow> Inr (Some e, s)
     | None \<Rightarrow>
         bindR (updateStatusesFromMessage msg (sync_heartbeat msg s)) (\<lambda>s.
         bindR (receiveBroadcast (broadcast msg) s) (\<lambda>s.
         receive_verb ch msg s)))"

section \<open>Well-formedness\<close>

lemma AddNode_keeps:
  assumes "wf_state s" and "r < length (heap s)"
  shows "yields (AddNode r s) (\<lambda>(q, t). q = r \<and> wf_state t \<and> keeps s t \<and>
    nodeMap_contains (heap t) (knownNodes t) r)"
proof (cases "nodeMap_contains (heap s) (knownNodes s) r")
  case True
  then show ?thesis using assms by (simp add: AddNode_known)
next
  case False
  let ?p = "prepared r s"
  have "status (node s r) \<noteq> StatusForwardTo"
    using wf_heap_nth [OF wf_stateD(1)] assms by (auto simp: wf_node_def)
  note eq = AddNode_new [OF False this]
  have "thisHost ?p = thisHost s" "ipLen ?p = ipLen s"
    by (simp_all add: prepared_def Let_def UpdateNodeStatus_def)
  then have "keeps s (?p\<lparr>knownNodes := ins_node (heap ?p) (knownNodes s) r, knownNodesModifiedFlag := True\<rparr>)"
    by (simp add: keeps_def reg.look_ins)
  then show ?thesis using AddNode_ok [OF assms] by (auto simp: eq)
qed

lemma learn_status_ok:
  assumes "wf_state s" and "member_alloc (heap s) m" and "mm_status m \<noteq> StatusForwardTo"
  shows "yields (learn_status m s) (\<lambda>t. wf_state t \<and> keeps s t)"
proof -
  let ?u = "updateNodeStatus (mm_node m) (mm_status m) (mm_heartbeat m) (mm_source m) s"
  have "wf_state ?u" "mm_node m < length (heap ?u)"
    using assms by (simp_all add: wf_state_updateNodeStatus member_alloc_def)
  note add = AddNode_keeps [OF this]
  show ?thesis unfolding learn_status_def
    by (rule yields_bind [OF add]) (auto intro: keeps_trans [OF keeps_updateNodeStatus])
qed

lemma update_from_member_ok:
  assumes "wf_state s" and "member_alloc (heap s) m" and "thisHost s \<noteq> None"
  shows "yields (update_from_member m s) (\<lambda>t. wf_state t \<and> keeps s t)"
  using assms learn_status_ok [OF assms(1,2)] by (auto simp: update_from_member_def)

lemma member_alloc_keeps: "keeps s t \<Longrightarrow> member_alloc (heap s) m \<Longrightarrow> member_alloc (heap t) m"
  by (simp add: keeps_def member_alloc_mono)

lemma update_members_ok:
  assumes "wf_state s" and "\<forall>m \<in> set ms. member_alloc (heap s) m" and "thisHost s \<noteq> None"
  shows "yields (foldR update_from_member ms s) (\<lambda>t. wf_state t \<and> keeps s t)"
proof (rule yields_foldR)
  show "wf_state s \<and> keeps s s" using assms(1) by simp
  fix m t assume "m \<in> set ms" and t: "wf_state t \<and> keeps s t"
  then have "yields (update_from_member m t) (\<lambda>u. wf_state u \<and> keeps t u)"
    using assms(2,3) member_alloc_keeps [of s t] by (intro update_from_member_ok) (auto simp: keeps_def)
  then show "yields (update_from_member m t) (\<lambda>u. wf_state u \<and> keeps s u)"
    by (rule yields_weaken) (use t keeps_trans in blast)
qed

definition hear_sender :: "message \<Rightarrow> node_ref \<Rightarrow> smudge \<Rightarrow> smudge" where
  "hear_sender msg r s =
     (if senderHeartbeat msg > heartbeat (node s r)
      then updateNodeStatus r StatusAlive (senderHeartbeat msg) (thisHost s) s else s)"

lemma updateStatuses_stages:
  assumes "sender msg = Some r"
  shows "updateStatusesFromMessage msg s =
    bindR (foldR update_from_member (members msg) s) (\<lambda>s. bindR (AddNode r (hear_sender msg r s)) (\<lambda>(q, s). Inr s))"
proof -
  have "(if \<not> nodeMap_contains (heap t) (knownNodes t) r then bindR (AddNode r t) (\<lambda>(q, s). Inr s) else Inr t) =
      bindR (AddNode r t) (\<lambda>(q, s). Inr s)" for t
    by (simp add: AddNode_known)
  then show ?thesis
    unfolding updateStatusesFromMessage_def assms option.case Let_def hear_sender_def [symmetric] by simp
qed

lemma hear_sender_ok:
  assumes "wf_state s" and "r < length (heap s)"
  shows "wf_state (hear_sender msg r s) \<and> keeps s (hear_sender msg r s)"
  using assms wf_stateD(7) [OF assms(1)] by (simp add: hear_sender_def wf_state_updateNodeStatus)

lemma updateStatuses_ok:
  assumes "wf_state s" and "message_alloc (heap s) msg" and "sender msg = Some r" and "thisHost s \<noteq> None"
  shows "yields (updateStatusesFromMessage msg s) (\<lambda>t. wf_state t \<and> keeps s t \<and>
    nodeMap_contains (heap t) (knownNodes t) r)"
proof -
  have ms: "yields (foldR update_from_member (members msg) s) (\<lambda>t. wf_state t \<and> keeps s t)"
    using assms by (intro update_members_ok) (auto simp: message_alloc_def)
  show ?thesis unfolding updateStatuses_stages [OF assms(3)]
  proof (rule yields_bind [OF ms])
    fix t assume t: "wf_state t \<and> keeps s t"
    then have "r < length (heap t)" using assms(2,3) keeps_length by (auto simp: message_alloc_def)
    then have u: "wf_state (hear_sender msg r t)" "keeps t (hear_sender msg r t)" "r < length (heap (hear_sender msg r t))"
      using hear_sender_ok [of t r msg] t by (auto dest: keeps_length)
    have k: "keeps s (hear_sender msg r t)" using keeps_trans [OF conjunct2 [OF t] u(2)] .
    show "yields (bindR (AddNode r (hear_sender msg r t)) (\<lambda>(q, s). Inr s))
      (\<lambda>t. wf_state t \<and> keeps s t \<and> nodeMap_contains (heap t) (knownNodes t) r)"
      by (rule yields_bind [OF AddNode_keeps [OF u(1,3)]]) (use keeps_trans [OF k] in auto)
  qed
qed

lemma pd_ok_nSigma: "pd_ok pd \<Longrightarrow> pd_ok (snd (nSigma k pd))"
  using pd_ok_data [of pd] by (simp add: nSigma_def split_beta)

lemma notePing_ok:
  assumes "wf_state s"
  shows "yields (notePingResponseTime pack s) (\<lambda>t. wf_state t \<and> keeps s t \<and> pendingAcks t = pendingAcks s)"
proof -
  let ?s = "modify_node (p_node pack) (\<lambda>n. n\<lparr>pingMillis := uint (pack_elapsed s pack)\<rparr>) s"
  have s: "wf_state ?s" by (rule wf_state_modify_node [OF assms]) (simp_all add: same_id_def wf_node_def)
  have keep: "keeps s ?s" by (simp add: keeps_def extends_modify same_id_def)
  have add: "yields (pingData_add (pingdata ?s) d) pd_ok" for d
    using pingData_add_total [OF wf_stateD(9) [OF s], of d] by (auto simp: yields_def)
  have pd: "wf_state (?s\<lparr>pingdata := snd (nSigma k (snd (snd (pingData_data pd))))\<rparr>)" if "pd_ok pd" for pd k
    using s pd_ok_nSigma [OF pd_ok_data [OF that]] by (rule wf_state_updates)
  show ?thesis unfolding notePingResponseTime_def Let_def
    by (rule yields_bind [OF add])
      (use pd keeps_trans [OF keep keeps_updates(4)] in \<open>auto simp: split_beta\<close>)
qed

lemma touch_keeps [simp]: "keeps s (modify_node r (Touch t) s)"
  by (simp add: keeps_def extends_modify)

lemma settle_pack_ok:
  assumes "wf_state s" and "pack_ok (heap s) pack"
  shows "yields (settle_pack pack s) (\<lambda>t. wf_state t \<and> keeps s t \<and> pendingAcks t = pendingAcks s)"
proof (cases "callback pack")
  case None
  then show ?thesis using notePing_ok [OF assms(1), of pack] by (simp add: settle_pack_def)
next
  case (Some cb)
  then have "wf_state (s\<lparr>spawned := spawned s @ [TransmitVerbAck cb (callbackCode pack)]\<rparr>)"
    using assms(2) by (intro wf_state_spawn [OF assms(1)]) (simp add: goroutine_ok_def pack_ok_def)
  then show ?thesis using Some by (simp add: settle_pack_def)
qed

lemma receiveVerbAck_matched:
  assumes "sender msg = Some r" and "map_of (pendingAcks s) (pack_key s r (senderHeartbeat msg)) = Some pack"
  shows "receiveVerbAckUDP msg s =
    bindR (settle_pack pack (modify_node r (Touch (now s)) s)) (\<lambda>t. Inr (None,
      t\<lparr>pendingAcks := AList.delete (pack_key s r (senderHeartbeat msg)) (pendingAcks t)\<rparr>))"
  using assms by (simp add: receiveVerbAckUDP_def Let_def has_key_iff)

lemma receiveVerbAck_unmatched:
  assumes "sender msg = Some r" and "map_of (pendingAcks s) (pack_key s r (senderHeartbeat msg)) = None"
  shows "receiveVerbAckUDP msg s = Inr (None, s)"
  using assms by (simp add: receiveVerbAckUDP_def Let_def has_key_iff)

lemma receiveVerbAck_ok:
  assumes "wf_state s" and "sender msg = Some r"
  shows "yields (receiveVerbAckUDP msg s) (\<lambda>(err, t). err = None \<and> wf_state t \<and> keeps s t \<and>
    map_of (pendingAcks t) (pack_key s r (senderHeartbeat msg)) = None)"
proof (cases "map_of (pendingAcks s) (pack_key s r (senderHeartbeat msg))")
  case None
  then show ?thesis using assms by (simp add: receiveVerbAck_unmatched)
next
  case (Some pack)
  let ?s = "modify_node r (Touch (now s)) s"
  have s: "wf_state ?s" using assms(1) by (rule wf_state_touch)
  have "map_of (pendingAcks ?s) (pack_key s r (senderHeartbeat msg)) = Some pack" using Some by simp
  then have "pack_ok (heap ?s) pack" using packs_ok_lookup wf_stateD(5) [OF s] by blast
  note settle = settle_pack_ok [OF s this]
  have del: "wf_state (t\<lparr>pendingAcks := AList.delete k (pendingAcks s)\<rparr>)"
    if "wf_state t" "pendingAcks t = pendingAcks s" for t k
    using wf_state_updates(9) [OF that(1) packs_ok_delete [OF wf_stateD(5) [OF that(1)]]] that(2) by simp
  show ?thesis unfolding receiveVerbAck_matched [OF assms(2) Some]
    by (rule yields_bind [OF settle])
      (use del keeps_trans [OF touch_keeps keeps_trans [OF _ keeps_updates(1)]] in \<open>auto simp: map_of_delete\<close>)
qed

lemma receiveVerbForward_ok:
  assumes "wf_state s" and "message_alloc (heap s) msg" and "sender msg \<noteq> None"
  shows "ensures (receiveVerbForwardUDP ch msg s) (\<lambda>(err, t). wf_state t \<and> keeps s t)"
  unfolding receiveVerbForwardUDP_def
proof (rule ensures_bind)
  fix m assume "getIdx (members msg) 0 = Inr m"
  then have m: "m \<in> set (members msg)" by (auto simp: getIdx_def split: if_splits)
  then have nd: "mm_node m < length (heap s)" using assms(2) by (auto simp: message_alloc_def member_alloc_def)
  have ok: "pack_ok (heap s) \<lparr>startTime = now s, p_node = mm_node m, callback = sender msg,
      callbackCode = mm_heartbeat m, packType = packNFP\<rparr>"
    using nd assms(2,3) by (simp add: pack_ok_def message_alloc_def)
  show "ensures (if mm_status m = StatusForwardTo then
       let nd = mm_node m; code = mm_heartbeat m; key = pack_key s nd code;
           pack = \<lparr>startTime = now s, p_node = nd, callback = sender msg, callbackCode = code, packType = packNFP\<rparr>;
           s = s\<lparr>pendingAcks := AList.update key pack (pendingAcks s)\<rparr>
       in transmitVerbGenericUDP ch nd None verbNonForwardingPing code s
     else Inr (None, s)) (\<lambda>(err, t). wf_state t \<and> keeps s t)"
    using ensures_weaken [OF send_with_pack [OF assms(1) nd ok], of _ _ _ _ _ "\<lambda>(err, t). wf_state t \<and> keeps s t"]
    by (auto simp: Let_def assms(1))
qed

lemma receive_verb_ok:
  assumes "wf_state s" and "message_alloc (heap s) msg" and "sender msg = Some r"
  shows "ensures (receive_verb ch msg s) (\<lambda>(err, t). wf_state t \<and> keeps s t)"
proof -
  have "r < length (heap s)" using assms(2,3) by (simp add: message_alloc_def)
  moreover have "ensures (receiveVerbAckUDP msg s) (\<lambda>(err, t). wf_state t \<and> keeps s t)"
    by (rule ensures_weaken [OF yields_ensures [OF receiveVerbAck_ok [OF assms(1,3)]]]) auto
  moreover have "ensures (receiveVerbForwardUDP ch msg s) (\<lambda>(err, t). wf_state t \<and> keeps s t)"
    using assms by (intro receiveVerbForward_ok) simp_all
  ultimately show ?thesis using assms(1) ack_ok [OF assms(1), of r ch "senderHeartbeat msg"]
    by (simp add: receive_verb_def receiveVerbPingUDP_def receiveVerbNonForwardPingUDP_def assms(3) del: verb_defs)
qed

lemma sync_heartbeat_ok: "wf_state s \<Longrightarrow> wf_state (sync_heartbeat msg s)" "keeps s (sync_heartbeat msg s)"
  "heap (sync_heartbeat msg s) = heap s" "thisHost (sync_heartbeat msg s) = thisHost s"
  by (simp_all add: sync_heartbeat_def)

lemma message_alloc_keeps: "keeps s t \<Longrightarrow> message_alloc (heap s) m \<Longrightarrow> message_alloc (heap t) m"
  unfolding keeps_def message_alloc_def
  by (auto intro: ref_ok_mono member_alloc_mono fresh_broadcast_mono)

lemma receive_frame_keeps: "receive_frame s t \<Longrightarrow> keeps s t"
  by (auto simp: receive_frame_def keeps_def)

text \<open>The part of the handler before the verb: it cannot panic.\<close>

definition absorb :: "message \<Rightarrow> smudge \<Rightarrow> smudge outcome" where
  "absorb msg s = bindR (updateStatusesFromMessage msg (sync_heartbeat msg s)) (receiveBroadcast (broadcast msg))"

lemma absorb_ok:
  assumes "wf_state s" and "message_alloc (heap s) msg" and "sender msg = Some r" and "thisHost s \<noteq> None"
  shows "yields (absorb msg s) (\<lambda>t. wf_state t \<and> keeps s t \<and> nodeMap_contains (heap t) (knownNodes t) r)"
proof -
  let ?s = "sync_heartbeat msg s"
  have "yields (updateStatusesFromMessage msg ?s) (\<lambda>t. wf_state t \<and> keeps ?s t \<and> nodeMap_contains (heap t) (knownNodes t) r)"
    using assms by (intro updateStatuses_ok) (simp_all add: sync_heartbeat_ok)
  then show ?thesis unfolding absorb_def
  proof (rule yields_bind, elim conjE)
    fix t assume t: "wf_state t" "keeps ?s t" "nodeMap_contains (heap t) (knownNodes t) r"
    then have k: "keeps s t" using keeps_trans [OF sync_heartbeat_ok(2)] by blast
    then have "yields (receiveBroadcast (broadcast msg) t) (\<lambda>u. wf_state u \<and> receive_frame t u)"
      using t(1) message_alloc_keeps [OF k assms(2)] by (intro receiveBroadcast_ok) (auto simp: message_alloc_def)
    then show "yields (receiveBroadcast (broadcast msg) t) (\<lambda>t. wf_state t \<and> keeps s t \<and> nodeMap_contains (heap t) (knownNodes t) r)"
      by (rule yields_weaken) (use k t(3) keeps_trans receive_frame_keeps in \<open>auto simp: receive_frame_def\<close>)
  qed
qed

lemma receiveMessage_stages:
  "receiveMessageUDP ch src b s = bindR (decodeMessage src b s) (\<lambda>(msg, err, s).
     case err of Some e \<Rightarrow> Inr (Some e, s) | None \<Rightarrow> bindR (absorb msg s) (receive_verb ch msg))"
  unfolding receiveMessageUDP_def absorb_def bindR_assoc by (rule refl)

lemma receiveMessage_ok:
  assumes "wf_state s" and "valid_ip src" and "thisHost s \<noteq> None"
  shows "ensures (receiveMessageUDP ch src b s) (\<lambda>(err, t). wf_state t \<and> keeps s t)"
  unfolding receiveMessage_stages
proof (rule ensures_bind, clarify)
  fix msg err t assume dec: "decodeMessage src b s = Inr (msg, err, t)"
  note t = ensuresD [OF decodeMessage_ok [OF assms(1,2)] dec, unfolded prod.case]
  have k: "keeps s t" using t keeps_grows by blast
  show "ensures (case err of Some e \<Rightarrow> Inr (Some e, t) | None \<Rightarrow> bindR (absorb msg t) (receive_verb ch msg))
      (\<lambda>(err, t). wf_state t \<and> keeps s t)"
  proof (cases err)
    case (Some e)
    then show ?thesis using t k by simp
  next
    case None
    then obtain r where r: "sender msg = Some r" using t by auto
    have "ensures (bindR (absorb msg t) (receive_verb ch msg)) (\<lambda>(err, t). wf_state t \<and> keeps s t)"
    proof (rule ensures_bind)
      fix u assume "absorb msg t = Inr u"
      moreover have "thisHost t \<noteq> None" using k assms(3) by (simp add: keeps_def)
      ultimately have u: "wf_state u" "keeps t u"
        using ensuresD [OF yields_ensures [OF absorb_ok [OF _ _ r]]] t by auto
      have "ensures (receive_verb ch msg u) (\<lambda>(err, v). wf_state v \<and> keeps u v)"
        using u t message_alloc_keeps r by (intro receive_verb_ok) auto
      then show "ensures (receive_verb ch msg u) (\<lambda>(err, t). wf_state t \<and> keeps s t)"
        by (rule ensures_weaken) (use k u(2) keeps_trans in blast)
    qed
    then show ?thesis using None by simp
  qed
qed

section \<open>What a message can do to the nodes\<close>

text \<open>A step that leaves the status and the heartbeat of every node alone.\<close>

definition quiet :: "smudge \<Rightarrow> smudge \<Rightarrow> bool" where
  "quiet s t \<longleftrightarrow> extends (heap s) (heap t) \<and> currentHeartbeat s \<le> currentHeartbeat t \<and>
     (\<forall>r < length (heap s). status (node t r) = status (node s r) \<and> heartbeat (node t r) = heartbeat (node s r))"

lemma quiet_refl [simp]: "quiet s s"
  by (simp add: quiet_def)

lemma quiet_modify:
  assumes "\<And>n. same_id n (f n)" and "\<And>n. status (f n) = status n" and "\<And>n. heartbeat (f n) = heartbeat n"
  shows "quiet s (modify_node r f s)"
proof (cases "r < length (heap s)")
  case True
  then show ?thesis using assms by (simp add: quiet_def extends_modify modify_nth)
next
  case False
  then show ?thesis by (simp add: quiet_def modify_def list_update_beyond)
qed

lemma quiet_same: "heap t = heap s \<Longrightarrow> currentHeartbeat s \<le> currentHeartbeat t \<Longrightarrow> quiet s t"
  by (simp add: quiet_def)

lemma quiet_grows: "grows s t \<Longrightarrow> quiet s t"
  by (simp add: quiet_def grows_extends grows_node grows_same)

lemma quiet_tx: "tx_frame s t \<Longrightarrow> quiet s t"
  by (simp add: quiet_def tx_frame_same counters_only_node [OF tx_frame_counters])

lemma quiet_trans: "quiet s t \<Longrightarrow> quiet t u \<Longrightarrow> quiet s u"
  unfolding quiet_def using less_length_mono [of "heap s" "heap t"] extends_trans by fastforce

lemma notePing_quiet: "ensures (notePingResponseTime pack s) (quiet s)"
proof -
  let ?s = "modify_node (p_node pack) (\<lambda>n. n\<lparr>pingMillis := uint (pack_elapsed s pack)\<rparr>) s"
  have s: "quiet s ?s" by (rule quiet_modify) (simp_all add: same_id_def)
  have "quiet s (?s\<lparr>pingdata := pd\<rparr>)" for pd by (rule quiet_trans [OF s quiet_same]) simp_all
  then show ?thesis unfolding notePingResponseTime_def Let_def split_beta
    by (intro ensures_bind) simp
qed

lemma receiveVerbAck_quiet:
  assumes "sender msg = Some r" shows "ensures (receiveVerbAckUDP msg s) (\<lambda>(err, t). quiet s t)"
proof (cases "map_of (pendingAcks s) (pack_key s r (senderHeartbeat msg))")
  case None
  then show ?thesis using assms by (simp add: receiveVerbAck_unmatched)
next
  case (Some pack)
  let ?s = "modify_node r (Touch (now s)) s"
  have s: "quiet s ?s" by (rule quiet_modify) (simp_all add: Touch_def same_id_def)
  have "ensures (settle_pack pack ?s) (quiet ?s)"
    using notePing_quiet [of pack ?s] by (auto simp: settle_pack_def intro!: quiet_same split: option.splits)
  moreover have "quiet s (t\<lparr>pendingAcks := ps\<rparr>)" if "quiet ?s t" for t ps
    by (rule quiet_trans [OF quiet_trans [OF s that] quiet_same]) simp_all
  ultimately show ?thesis unfolding receiveVerbAck_matched [OF assms Some]
    by (auto simp: ensures_def bindR_def split: sum.splits)
qed

lemma transmit_quiet:
  assumes "wf_state s" and "nd < length (heap s)"
  shows "ensures (transmitVerbGenericUDP ch nd fwd vb code s) (\<lambda>(err, t). quiet s t)"
  by (rule ensures_weaken [OF transmit_ok [OF assms]]) (auto intro: quiet_tx)

lemma receiveVerbForward_quiet:
  assumes "wf_state s" and "message_alloc (heap s) msg" and "sender msg \<noteq> None"
  shows "ensures (receiveVerbForwardUDP ch msg s) (\<lambda>(err, t). quiet s t)"
  unfolding receiveVerbForwardUDP_def
proof (rule ensures_bind)
  fix m assume "getIdx (members msg) 0 = Inr m"
  then have "m \<in> set (members msg)" by (auto simp: getIdx_def split: if_splits)
  then have nd: "mm_node m < length (heap s)" using assms(2) by (auto simp: message_alloc_def member_alloc_def)
  let ?p = "\<lparr>startTime = now s, p_node = mm_node m, callback = sender msg, callbackCode = mm_heartbeat m, packType = packNFP\<rparr>"
  let ?s = "s\<lparr>pendingAcks := AList.update (pack_key s (mm_node m) (mm_heartbeat m)) ?p (pendingAcks s)\<rparr>"
  have "pack_ok (heap s) ?p" using nd assms(2,3) by (simp add: pack_ok_def message_alloc_def)
  then have "wf_state ?s" using assms(1) by (intro wf_state_new_pack)
  then have "ensures (transmitVerbGenericUDP ch (mm_node m) None verbNonForwardingPing (mm_heartbeat m) ?s) (\<lambda>(err, t). quiet ?s t)"
    using nd by (intro transmit_quiet) simp_all
  then have "ensures (transmitVerbGenericUDP ch (mm_node m) None verbNonForwardingPing (mm_heartbeat m) ?s) (\<lambda>(err, t). quiet s t)"
    by (rule ensures_weaken) (auto simp: quiet_def)
  then show "ensures (if mm_status m = StatusForwardTo then
       let nd = mm_node m; code = mm_heartbeat m; key = pack_key s nd code;
           pack = \<lparr>startTime = now s, p_node = nd, callback = sender msg, callbackCode = code, packType = packNFP\<rparr>;
           s = s\<lparr>pendingAcks := AList.update key pack (pendingAcks s)\<rparr>
       in transmitVerbGenericUDP ch nd None verbNonForwardingPing code s
     else Inr (None, s)) (\<lambda>(err, t). quiet s t)"
    by (simp add: Let_def)
qed

lemma receive_verb_quiet:
  assumes "wf_state s" and "message_alloc (heap s) msg" and "sender msg = Some r"
  shows "ensures (receive_verb ch msg s) (\<lambda>(err, t). quiet s t)"
proof -
  have "r < length (heap s)" using assms(2,3) by (simp add: message_alloc_def)
  then have "ensures (transmitVerbAckUDP ch r c s) (\<lambda>(err, t). quiet s t)" for c
    unfolding transmitVerbAckUDP_def by (intro transmit_quiet assms(1))
  moreover have "ensures (receiveVerbForwardUDP ch msg s) (\<lambda>(err, t). quiet s t)"
    using assms by (intro receiveVerbForward_quiet) simp_all
  ultimately show ?thesis using receiveVerbAck_quiet [OF assms(3)]
    by (simp add: receive_verb_def receiveVerbPingUDP_def receiveVerbNonForwardPingUDP_def assms(3) del: verb_defs)
qed

text \<open>
  The contract of a relation between the states before and after a message is handled: it
  contains the quiet steps and the status changes that a message may cause. Such a change never
  lowers a heartbeat and never declares dead a node with the address \<open>own\<close> of this host.
\<close>

locale message_effect =
  fixes R :: "smudge \<Rightarrow> smudge \<Rightarrow> bool"
    and own :: string
  assumes R_trans: "R s t \<Longrightarrow> R t u \<Longrightarrow> R s u"
    and R_quiet: "quiet s t \<Longrightarrow> R s t"
    and R_update: "r < length (heap s) \<Longrightarrow> heartbeat (node s r) \<le> hb \<Longrightarrow>
      (st = StatusDead \<Longrightarrow> addr s r \<noteq> own) \<Longrightarrow> R s (updateNodeStatus r st hb src s)"
begin

lemma add_effect:
  assumes "wf_state s" and "r < length (heap s)"
  shows "ensures (AddNode r s) (\<lambda>(q, t). R s t)"
proof (cases "nodeMap_contains (heap s) (knownNodes s) r")
  case True
  then show ?thesis by (simp add: AddNode_known R_quiet)
next
  case False
  let ?u = "if status (node s r) = StatusUnknown then UpdateNodeStatus r StatusAlive (thisHost s) s else s"
  have st: "status (node s r) \<noteq> StatusForwardTo"
    using wf_heap_nth [OF wf_stateD(1)] assms by (auto simp: wf_node_def)
  have 1: "R s ?u" unfolding UpdateNodeStatus_def
    using R_update [OF assms(2), of "heartbeat (node s r)" StatusAlive "thisHost s"] R_quiet [of s s] by simp
  have 2: "R ?u (prepared r s)" unfolding prepared_def Let_def
    by (rule R_quiet [OF quiet_modify]) (simp_all add: Touch_def same_id_def)
  have "R s (prepared r s)" using 1 2 by (rule R_trans)
  moreover have "R (prepared r s) ((prepared r s)\<lparr>knownNodes := m, knownNodesModifiedFlag := True\<rparr>)" for m
    by (rule R_quiet [OF quiet_same]) simp_all
  ultimately show ?thesis unfolding AddNode_new [OF False st] using R_trans by simp
qed

lemma learn_effect:
  assumes "wf_state s" and "member_alloc (heap s) m" and "mm_status m \<noteq> StatusForwardTo"
    and "heartbeat (node s (mm_node m)) \<le> mm_heartbeat m"
    and "mm_status m = StatusDead \<Longrightarrow> addr s (mm_node m) \<noteq> own"
  shows "ensures (learn_status m s) (R s)"
proof -
  let ?u = "updateNodeStatus (mm_node m) (mm_status m) (mm_heartbeat m) (mm_source m) s"
  have u: "wf_state ?u" "mm_node m < length (heap ?u)"
    using assms(1-3) by (simp_all add: wf_state_updateNodeStatus member_alloc_def)
  have "R s ?u" using assms by (intro R_update) (simp_all add: member_alloc_def)
  note step = R_trans [OF this]
  show ?thesis unfolding learn_status_def
    by (rule ensures_bind, clarify) (use step ensuresD [OF add_effect [OF u]] in fastforce)
qed

lemma member_effect:
  assumes "wf_state s" and "member_alloc (heap s) m" and "thisHost s = Some this" and "addr s this = own"
  shows "ensures (update_from_member m s) (R s)"
  using assms learn_effect [OF assms(1,2)] R_quiet [of s s]
  by (simp add: update_from_member_def not_less)

lemma members_effect:
  assumes "wf_state s" and "\<forall>m \<in> set ms. member_alloc (heap s) m" and "thisHost s = Some this" and "addr s this = own"
  shows "ensures (foldR update_from_member ms s) (R s)"
proof -
  have "this < length (heap s)" using wf_stateD(7) [OF assms(1)] assms(3) by simp
  note own = keeps_addr [OF _ this]
  have "ensures (foldR update_from_member ms s) (\<lambda>t. (wf_state t \<and> keeps s t) \<and> R s t)"
  proof (rule ensures_foldR)
    show "(wf_state s \<and> keeps s s) \<and> R s s" using assms(1) R_quiet by simp
    fix m t assume m: "m \<in> set ms" and t: "(wf_state t \<and> keeps s t) \<and> R s t"
    have alloc: "member_alloc (heap t) m" using m t assms(2) member_alloc_keeps by blast
    have host: "thisHost t = Some this" using t assms(3) by (simp add: keeps_def)
    have addr: "addr t this = own" using own [of t] t assms(4) by simp
    note a = alloc host addr
    show "ensures (update_from_member m t) (\<lambda>u. (wf_state u \<and> keeps s u) \<and> R s u)"
    proof (rule ensures_weaken [OF yields_ensures [OF update_from_member_ok]])
      fix u assume u: "update_from_member m t = Inr u" and ok: "wf_state u \<and> keeps t u"
      have "R t u" using ensuresD [OF member_effect [OF _ a] u] t by simp
      then have "R s u" using t R_trans by blast
      moreover have "keeps s u" using ok t keeps_trans by blast
      ultimately show "(wf_state u \<and> keeps s u) \<and> R s u" using ok by simp
    qed (use t a in simp_all)
  qed
  then show ?thesis by (rule ensures_weaken) simp
qed

lemma hear_effect:
  assumes "r < length (heap s)" shows "R s (hear_sender msg r s)"
  using R_update [OF assms, of "senderHeartbeat msg" StatusAlive "thisHost s"] R_quiet [of s s]
  by (simp add: hear_sender_def)

lemma statuses_effect:
  assumes "wf_state s" and "message_alloc (heap s) msg" and "sender msg = Some r"
    and "thisHost s = Some this" and "addr s this = own"
  shows "ensures (updateStatusesFromMessage msg s) (R s)"
  unfolding updateStatuses_stages [OF assms(3)]
proof (rule ensures_bind, rule ensures_bind, clarify)
  fix t q u assume t: "foldR update_from_member (members msg) s = Inr t"
    and u: "AddNode r (hear_sender msg r t) = Inr (q, u)"
  have ms: "\<forall>m \<in> set (members msg). member_alloc (heap s) m" using assms(2) by (simp add: message_alloc_def)
  have wf: "wf_state t" "keeps s t"
    using ensuresD [OF yields_ensures [OF update_members_ok [OF assms(1) ms]] t] assms(4) by auto
  have r: "r < length (heap t)" using assms(2,3) keeps_length [OF wf(2)] by (simp add: message_alloc_def)
  then have "wf_state (hear_sender msg r t)" "r < length (heap (hear_sender msg r t))"
    using hear_sender_ok [OF wf(1) r, of msg] keeps_length by auto
  then have "R (hear_sender msg r t) u" using ensuresD [OF add_effect u] by simp
  moreover have "R s t" using ensuresD [OF members_effect [OF assms(1) ms assms(4,5)] t] .
  ultimately show "ensures (Inr u) (R s)" using hear_effect [OF r] R_trans by simp blast
qed

lemma absorb_effect:
  assumes "wf_state s" and "message_alloc (heap s) msg" and "sender msg = Some r"
    and "thisHost s = Some this" and "addr s this = own"
  shows "ensures (absorb msg s) (R s)"
  unfolding absorb_def
proof (rule ensures_bind)
  let ?s = "sync_heartbeat msg s"
  fix t assume t: "updateStatusesFromMessage msg ?s = Inr t"
  have s: "wf_state ?s" "message_alloc (heap ?s) msg" "thisHost ?s = Some this" "addr ?s this = own"
    using assms by (simp_all add: sync_heartbeat_ok)
  have "R s ?s" by (rule R_quiet [OF quiet_same]) (auto simp: sync_heartbeat_def)
  moreover have "R ?s t" using ensuresD [OF statuses_effect [OF s(1,2) assms(3) s(3,4)] t] .
  ultimately have st: "R s t" by (rule R_trans)
  have wf: "wf_state t" "keeps ?s t"
    using ensuresD [OF yields_ensures [OF updateStatuses_ok [OF s(1,2) assms(3)]] t] s(3) by auto
  then have "yields (receiveBroadcast (broadcast msg) t) (\<lambda>u. wf_state u \<and> receive_frame t u)"
    using message_alloc_keeps [OF wf(2) s(2)] by (intro receiveBroadcast_ok) (auto simp: message_alloc_def)
  then have "ensures (receiveBroadcast (broadcast msg) t) (\<lambda>u. receive_frame t u)"
    by (rule ensures_weaken [OF yields_ensures]) simp
  then show "ensures (receiveBroadcast (broadcast msg) t) (R s)"
    by (rule ensures_weaken) (rule R_trans [OF st R_quiet [OF quiet_same]], simp_all add: receive_frame_def)
qed

lemma message_effect:
  assumes "wf_state s" and "valid_ip src" and "thisHost s = Some this" and "addr s this = own"
  shows "ensures (receiveMessageUDP ch src b s) (\<lambda>(err, t). R s t)"
  unfolding receiveMessage_stages
proof (rule ensures_bind, clarify)
  fix msg err t assume dec: "decodeMessage src b s = Inr (msg, err, t)"
  note t = ensuresD [OF decodeMessage_ok [OF assms(1,2)] dec, unfolded prod.case]
  have st: "R s t" and k: "keeps s t" using t R_quiet quiet_grows keeps_grows by blast+
  have host: "thisHost t = Some this" "addr t this = own"
    using k assms keeps_addr [OF k] wf_stateD(7) [OF assms(1)] by (simp_all add: keeps_def)
  show "ensures (case err of Some e \<Rightarrow> Inr (Some e, t) | None \<Rightarrow> bindR (absorb msg t) (receive_verb ch msg))
      (\<lambda>(err, t). R s t)"
  proof (cases err)
    case (Some e)
    then show ?thesis using st by simp
  next
    case None
    then obtain r where r: "sender msg = Some r" using t by auto
    have m: "wf_state t" "message_alloc (heap t) msg" using t by auto
    have "ensures (bindR (absorb msg t) (receive_verb ch msg)) (\<lambda>(err, t). R s t)"
    proof (rule ensures_bind)
      fix u assume u: "absorb msg t = Inr u"
      have "R t u" using ensuresD [OF absorb_effect [OF m r host] u] .
      with st have su: "R s u" by (rule R_trans)
      have "wf_state u" "keeps t u"
        using ensuresD [OF yields_ensures [OF absorb_ok [OF m r]] u] host(1) by auto
      then have "ensures (receive_verb ch msg u) (\<lambda>(err, v). quiet u v)"
        using message_alloc_keeps m(2) r by (intro receive_verb_quiet) auto
      then show "ensures (receive_verb ch msg u) (\<lambda>(err, t). R s t)"
        by (rule ensures_weaken) (use R_trans [OF su R_quiet] in auto)
    qed
    then show ?thesis using None by simp
  qed
qed

end

text \<open>Heartbeats only grow.\<close>

definition advances :: "smudge \<Rightarrow> smudge \<Rightarrow> bool" where
  "advances s t \<longleftrightarrow> length (heap s) \<le> length (heap t) \<and> currentHeartbeat s \<le> currentHeartbeat t \<and>
     (\<forall>r < length (heap s). heartbeat (node s r) \<le> heartbeat (node t r))"

interpretation clocks: message_effect advances own for own
proof
  show "advances s u" if "advances s t" "advances t u" for s t u
    using that unfolding advances_def by (meson order_trans order_less_le_trans)
  show "advances s t" if "quiet s t" for s t
    using that by (simp add: advances_def quiet_def extends_def)
  show "advances s (updateNodeStatus r st hb src s)"
    if "r < length (heap s)" "heartbeat (node s r) \<le> hb" for r s hb st src
    using that by (simp add: advances_def updateNodeStatus_node status_written_def)
qed

text \<open>No node with the address \<open>own\<close> is declared dead.\<close>

definition spares :: "string \<Rightarrow> smudge \<Rightarrow> smudge \<Rightarrow> bool" where
  "spares own s t \<longleftrightarrow> extends (heap s) (heap t) \<and>
     (\<forall>r < length (heap s). addr s r = own \<and> status (node t r) = StatusDead \<longrightarrow> status (node s r) = StatusDead)"

interpretation own_death: message_effect "spares own" own for own
proof
  show "spares own s u" if "spares own s t" "spares own t u" for s t u
    using that unfolding spares_def by (metis extends_trans extends_addressOf less_length_mono)
  show "spares own s t" if "quiet s t" for s t
    using that by (simp add: spares_def quiet_def)
  show "spares own s (updateNodeStatus r st hb src s)"
    if "r < length (heap s)" "st = StatusDead \<Longrightarrow> addr s r \<noteq> own" for r s hb st src
    using that by (auto simp: spares_def updateNodeStatus_node status_written_def)
qed

section \<open>Properties\<close>

text \<open>Datagrams that the second sample host sends to the first, as the first one decodes them.\<close>

definition sample_datagram :: "messageVerb \<Rightarrow> gslice" where
  "sample_datagram v = \<lparr>live = message_image [host_node 1, host_node 2] IPv4len 9999 (newMessage v (Some 1) 9), spare = []\<rparr>"

lemma sample_decodes:
  assumes "v < 4"
  shows "\<exists>msg s1. decodeMessage [10, 0, 0, 2] (sample_datagram v) two_hosts = Inr (msg, None, s1) \<and>
    verb msg = v \<and> members msg = [] \<and> senderHeartbeat msg = 9 \<and> wf_state s1 \<and> grows two_hosts s1 \<and>
    message_alloc (heap s1) msg \<and> sender msg \<noteq> None"
proof -
  let ?m = "newMessage v (Some 1) 9" and ?h = "[host_node 1, host_node 2]"
  have ip: "valid_ip [10, 0, 0, 2]" by (simp add: valid_ip_def ip_len_defs)
  have enc: "message_encode ?h IPv4len ?m = Inr (message_image ?h IPv4len (port (?h ! 1)) ?m)"
    by (rule message_encode_eq) (simp_all add: message_fits_def newMessage_def)
  obtain bs msg s1 where "message_encode ?h IPv4len ?m = Inr bs"
    and dec: "decodeMessage [10, 0, 0, 2] \<lparr>live = bs, spare = []\<rparr> two_hosts = Inr (msg, None, s1)"
    and m: "verb msg = v" "senderHeartbeat msg = 9" "list_all2 (\<lambda>mm mm'. same_member ?h mm (heap s1) mm') [] (members msg)"
    using message_sent [OF wf_two_hosts ip, of ?m 1 ?h "[]"] assms by (auto simp: newMessage_def)
  then have "live (sample_datagram v) = bs" "spare (sample_datagram v) = []"
    using enc by (simp_all add: sample_datagram_def)
  then have "sample_datagram v = \<lparr>live = bs, spare = []\<rparr>" by simp
  then show ?thesis using dec m ensuresD [OF decodeMessage_ok [OF wf_two_hosts ip] dec] by auto
qed

lemma sample_ack_received:
  "\<exists>t. receiveMessageUDP calm [10, 0, 0, 2] (sample_datagram verbAck) two_hosts = Inr (None, t)"
proof -
  obtain msg s1 r where dec: "decodeMessage [10, 0, 0, 2] (sample_datagram verbAck) two_hosts = Inr (msg, None, s1)"
    and m: "verb msg = verbAck" "wf_state s1" "grows two_hosts s1" "message_alloc (heap s1) msg" "sender msg = Some r"
    using sample_decodes [of verbAck] by auto
  have host: "thisHost s1 \<noteq> None" using grows_same(6) [OF m(3)] by simp
  obtain u where u: "absorb msg s1 = Inr u" "wf_state u"
    using absorb_ok [OF m(2,4,5) host] by (auto elim!: yieldsE)
  obtain t where "receiveVerbAckUDP msg u = Inr (None, t)"
    using receiveVerbAck_ok [OF u(2) m(5)] by (auto elim!: yieldsE)
  then show ?thesis unfolding receiveMessage_stages dec using u(1) m(1) by (simp add: receive_verb_def)
qed

lemma sample_src [simp]: "valid_ip [10, 0, 0, 2]"
  by (simp add: valid_ip_def ip_len_defs)

text \<open>
  C8. Heartbeats never go back: whatever datagram is received, neither the heartbeat of this
  host nor the heartbeat on record for any node is lowered by handling it.
\<close>

theorem heartbeats_never_fall:
  assumes "wf_state s" and "valid_ip src" and "thisHost s \<noteq> None" and "receiveMessageUDP ch src b s = Inr (err, t)"
  shows "currentHeartbeat s \<le> currentHeartbeat t \<and> (\<forall>r < length (heap s). heartbeat (node s r) \<le> heartbeat (node t r))"
proof -
  obtain this where "thisHost s = Some this" using assms(3) by auto
  from ensuresD [OF clocks.message_effect [OF assms(1,2) this refl] assms(4)]
  show ?thesis by (simp add: advances_def)
qed

theorem heartbeats_never_fall_witness:
  "\<exists>t. receiveMessageUDP calm [10, 0, 0, 2] (sample_datagram verbAck) two_hosts = Inr (None, t) \<and> 7 \<le> currentHeartbeat t"
proof -
  obtain t where t: "receiveMessageUDP calm [10, 0, 0, 2] (sample_datagram verbAck) two_hosts = Inr (None, t)"
    using sample_ack_received by blast
  show ?thesis using heartbeats_never_fall [OF wf_two_hosts sample_src _ t] t by simp
qed

text \<open>
  C7. Nobody can tell this host that it is dead: handling a datagram never turns a node with
  this host's address dead, whatever members the message carries.
\<close>

theorem own_death_ignored:
  assumes "wf_state s" and "valid_ip src" and "thisHost s = Some this"
    and "receiveMessageUDP ch src b s = Inr (err, t)"
    and "r < length (heap s)" and "addr s r = addr s this" and "status (node s r) \<noteq> StatusDead"
  shows "status (node t r) \<noteq> StatusDead"
  using ensuresD [OF own_death.message_effect [OF assms(1-3) refl] assms(4)] assms(5-7)
  by (auto simp: spares_def)

theorem own_death_ignored_witness:
  "\<exists>t. receiveMessageUDP calm [10, 0, 0, 2] (sample_datagram verbAck) two_hosts = Inr (None, t) \<and>
     status (node t 0) \<noteq> StatusDead"
proof -
  obtain t where t: "receiveMessageUDP calm [10, 0, 0, 2] (sample_datagram verbAck) two_hosts = Inr (None, t)"
    using sample_ack_received by blast
  show ?thesis using own_death_ignored [OF wf_two_hosts sample_src _ t, of 0 0] t by simp
qed

lemma AddNode_nodes:
  assumes "wf_state s" and "r < length (heap s)" and "AddNode r s = Inr (q, t)"
  shows "x \<noteq> r \<Longrightarrow> node t x = node s x"
    and "heartbeat (node t r) = heartbeat (node s r)"
    and "status (node t r) = (if status (node s r) = StatusUnknown \<and> \<not> nodeMap_contains (heap s) (knownNodes s) r
      then StatusAlive else status (node s r))"
proof -
  have st: "status (node s r) \<noteq> StatusForwardTo"
    using wf_heap_nth [OF wf_stateD(1)] assms by (auto simp: wf_node_def)
  have p: "heap (prepared r s) ! x = (if x = r then Touch (now (if status (node s r) = StatusUnknown
      then UpdateNodeStatus r StatusAlive (thisHost s) s else s)) (if status (node s r) = StatusUnknown
      then status_written StatusAlive (heartbeat (node s r)) (thisHost s) s (node s r) else node s r) else node s x)" for x
    using assms(2) by (simp add: prepared_def Let_def UpdateNodeStatus_def modify_nth updateNodeStatus_node)
  have t: "t = (if nodeMap_contains (heap s) (knownNodes s) r then s else (prepared r s)\<lparr>
      knownNodes := ins_node (heap (prepared r s)) (knownNodes s) r, knownNodesModifiedFlag := True\<rparr>)"
    using assms(3) AddNode_new [OF _ st] by (auto simp: AddNode_known split: if_splits)
  show "x \<noteq> r \<Longrightarrow> node t x = node s x" by (simp add: t p)
  show "heartbeat (node t r) = heartbeat (node s r)" by (simp add: t p Touch_def status_written_def)
  show "status (node t r) = (if status (node s r) = StatusUnknown \<and> \<not> nodeMap_contains (heap s) (knownNodes s) r
      then StatusAlive else status (node s r))" by (simp add: t p Touch_def status_written_def)
qed

text \<open>A member that is not taken over: old news, a forwarding request, or the death of this host.\<close>

definition disregarded :: "smudge \<Rightarrow> node_ref \<Rightarrow> messageMember \<Rightarrow> bool" where
  "disregarded s this m \<longleftrightarrow> mm_heartbeat m < heartbeat (node s (mm_node m)) \<or> mm_status m = StatusForwardTo \<or>
     (mm_status m = StatusDead \<and> addr s (mm_node m) = addr s this)"

lemma update_from_member_cases:
  "thisHost s = Some this \<Longrightarrow> update_from_member m s = (if disregarded s this m then Inr s else learn_status m s)"
  by (simp add: update_from_member_def disregarded_def)

text \<open>
  How one piece of gossip is merged. A disregarded member changes nothing at all. Any other
  makes its node known, gives it the status of the member (alive, when it had none) and, if that is
  a change, the member's heartbeat; no other node is touched. The merge never panics.
\<close>

theorem gossip_merge:
  assumes "wf_state s" and "member_alloc (heap s) m" and "thisHost s = Some this"
  shows "\<exists>t. update_from_member m s = Inr t \<and> wf_state t \<and>
    (if disregarded s this m then t = s
     else nodeMap_contains (heap t) (knownNodes t) (mm_node m) \<and>
       (mm_status m \<noteq> StatusUnknown \<longrightarrow> status (node t (mm_node m)) = mm_status m) \<and>
       heartbeat (node t (mm_node m)) =
         (if status (node s (mm_node m)) = mm_status m then heartbeat (node s (mm_node m)) else mm_heartbeat m) \<and>
       (\<forall>r. r \<noteq> mm_node m \<longrightarrow> node t r = node s r))"
proof (cases "disregarded s this m")
  case True
  then show ?thesis using assms by (simp add: update_from_member_cases)
next
  case False
  let ?n = "mm_node m" and ?u = "updateNodeStatus (mm_node m) (mm_status m) (mm_heartbeat m) (mm_source m) s"
  have n: "?n < length (heap s)" using assms(2) by (simp add: member_alloc_def)
  have u: "wf_state ?u" "?n < length (heap ?u)"
    using assms False by (simp_all add: wf_state_updateNodeStatus member_alloc_def disregarded_def)
  obtain q t where add: "AddNode ?n ?u = Inr (q, t)" and t: "wf_state t" "nodeMap_contains (heap t) (knownNodes t) ?n"
    using AddNode_keeps [OF u] by (auto elim!: yieldsE)
  note nodes = AddNode_nodes [OF u add] updateNodeStatus_node [OF n]
  have "update_from_member m s = Inr t"
    using False assms(3) add by (simp add: update_from_member_cases learn_status_def)
  then show ?thesis using False t nodes by (auto simp: status_written_def)
qed

theorem gossip_merge_witness:
  "\<exists>t. update_from_member \<lparr>mm_source = None, mm_heartbeat = 6, mm_node = 1, mm_status = StatusDead\<rparr> two_hosts = Inr t \<and>
     status (node t 1) = StatusDead \<and> heartbeat (node t 1) = 6 \<and> node t 0 = host_node 1"
  using gossip_merge [OF wf_two_hosts, of "\<lparr>mm_source = None, mm_heartbeat = 6, mm_node = 1, mm_status = StatusDead\<rparr>" 0]
  by (auto simp: member_alloc_def disregarded_def)

text \<open>
  A stale death notice is believed. The heartbeat on record is that of the last change of status, so news that
  a node is still alive does not raise it, and a death notice that is older than that news, but not older
  than the last change, kills the node.
\<close>

theorem stale_death_believed:
  assumes "wf_state s" and "thisHost s = Some this" and "r < length (heap s)" and "nodeMap_contains (heap s) (knownNodes s) r"
    and "status (node s r) = StatusAlive" and "addr s r \<noteq> addr s this" and "heartbeat (node s r) \<le> old" and "old < new"
  shows "\<exists>t. foldR update_from_member [\<lparr>mm_source = None, mm_heartbeat = new, mm_node = r, mm_status = StatusAlive\<rparr>,
      \<lparr>mm_source = None, mm_heartbeat = old, mm_node = r, mm_status = StatusDead\<rparr>] s = Inr t \<and> status (node t r) = StatusDead"
proof -
  let ?alive = "\<lparr>mm_source = None, mm_heartbeat = new, mm_node = r, mm_status = StatusAlive\<rparr>"
  let ?dead = "\<lparr>mm_source = None, mm_heartbeat = old, mm_node = r, mm_status = StatusDead\<rparr>"
  have "update_from_member ?alive s = Inr s"
    using assms by (simp add: update_from_member_cases disregarded_def learn_status_def updateNodeStatus_same AddNode_known)
  moreover obtain t where "update_from_member ?dead s = Inr t" "status (node t r) = StatusDead"
    using gossip_merge [OF assms(1) _ assms(2), of ?dead] assms(3,6,7) by (auto simp: member_alloc_def disregarded_def not_less split: if_splits)
  ultimately show ?thesis by simp
qed

theorem stale_death_believed_witness:
  "\<exists>t. foldR update_from_member [\<lparr>mm_source = None, mm_heartbeat = 100, mm_node = 1, mm_status = StatusAlive\<rparr>,
      \<lparr>mm_source = None, mm_heartbeat = 6, mm_node = 1, mm_status = StatusDead\<rparr>] two_hosts = Inr t \<and> status (node t 1) = StatusDead"
  using stale_death_believed [OF wf_two_hosts, of 0 1 6 100] by (auto simp: contains_iff getByAddress_def)

text \<open>
  Whoever is heard is known: after a datagram that decodes without error, the node of its
  sender is among the known nodes, whatever the verb.
\<close>

theorem sender_becomes_known:
  assumes "wf_state s" and "valid_ip src" and "thisHost s \<noteq> None"
    and "decodeMessage src b s = Inr (msg, None, s1)" and "receiveMessageUDP ch src b s = Inr (err, t)"
  shows "\<exists>r. sender msg = Some r \<and> getByAddress (knownNodes t) (addr s1 r) \<noteq> None"
proof -
  note s1 = ensuresD [OF decodeMessage_ok [OF assms(1,2)] assms(4), unfolded prod.case]
  obtain r where r: "sender msg = Some r" using s1 by auto
  have m: "wf_state s1" "message_alloc (heap s1) msg" and host: "thisHost s1 \<noteq> None"
    using s1 assms(3) grows_same(6) [of s s1] by auto
  from assms(5) obtain u where u: "absorb msg s1 = Inr u" and v: "receive_verb ch msg u = Inr (err, t)"
    unfolding receiveMessage_stages assms(4) by (auto elim!: bindR_InrE)
  note ok = ensuresD [OF yields_ensures [OF absorb_ok [OF m r host]] u]
  have "keeps u t" using ensuresD [OF receive_verb_ok [OF _ message_alloc_keeps [OF _ m(2)] r] v] ok by auto
  moreover have "getByAddress (knownNodes u) (addr s1 r) \<noteq> None"
    using ok keeps_addr [of s1 u r] m(2) r by (simp add: contains_iff message_alloc_def)
  ultimately show ?thesis using r by (auto simp: keeps_def)
qed

theorem sender_becomes_known_witness:
  "\<exists>msg s1 t r. decodeMessage [10, 0, 0, 2] (sample_datagram verbAck) two_hosts = Inr (msg, None, s1) \<and>
     receiveMessageUDP calm [10, 0, 0, 2] (sample_datagram verbAck) two_hosts = Inr (None, t) \<and>
     sender msg = Some r \<and> getByAddress (knownNodes t) (addr s1 r) \<noteq> None"
proof -
  obtain msg s1 where dec: "decodeMessage [10, 0, 0, 2] (sample_datagram verbAck) two_hosts = Inr (msg, None, s1)"
    using sample_decodes [of verbAck] by auto
  obtain t where t: "receiveMessageUDP calm [10, 0, 0, 2] (sample_datagram verbAck) two_hosts = Inr (None, t)"
    using sample_ack_received by blast
  show ?thesis using sender_becomes_known [OF wf_two_hosts sample_src _ dec t] dec t by auto
qed

lemma notePing_effect:
  assumes "wf_state s" and "p_node pack < length (heap s)" and "notePingResponseTime pack s = Inr t"
  shows "pingMillis (node t (p_node pack)) = uint (pack_elapsed s pack)"
    and "history (pingdata t) = tl (history (pingdata s)) @ [max (pack_elapsed s pack) (word_of_int (minPingTimeOf s))]"
    and "spawned t = spawned s" and "pendingAcks t = pendingAcks s"
proof -
  let ?s = "modify_node (p_node pack) (\<lambda>n. n\<lparr>pingMillis := uint (pack_elapsed s pack)\<rparr>) s"
  let ?d = "if pack_elapsed s pack < word_of_int (minPingTimeOf ?s) then word_of_int (minPingTimeOf ?s) else pack_elapsed s pack"
  obtain pd where pd: "pingData_add (pingdata ?s) ?d = Inr pd"
    and t: "t = ?s\<lparr>pingdata := snd (nSigma timeoutToleranceSigmas (snd (snd (pingData_data pd))))\<rparr>"
    using assms(3) unfolding notePingResponseTime_def Let_def split_beta by (auto elim!: bindR_InrE)
  have min: "minPingTimeOf ?s = minPingTimeOf s" by (simp add: minPingTimeOf_def)
  have d: "?d = max (pack_elapsed s pack) (word_of_int (minPingTimeOf s))" unfolding min by (auto simp: max_def not_le)
  show "pingMillis (node t (p_node pack)) = uint (pack_elapsed s pack)" using assms(2) by (simp add: t modify_nth)
  show "spawned t = spawned s" "pendingAcks t = pendingAcks s" by (simp_all add: t)
  have "history (snd (snd (pingData_data p))) = history p" for p
    by (simp add: history_def pingData_data_def Let_def)
  moreover have "history (snd (nSigma k p)) = history p" for k p
    by (simp add: history_def nSigma_def pingData_data_def Let_def)
  ultimately have "history (pingdata t) = history pd" by (simp add: t)
  also have "\<dots> = tl (history (pingdata s)) @ [?d]"
    using history_add [OF wf_stateD(9) [OF assms(1)], of ?d pd] pd by simp
  finally show "history (pingdata t) = tl (history (pingdata s)) @ [max (pack_elapsed s pack) (word_of_int (minPingTimeOf s))]"
    unfolding d .
qed

text \<open>
  C14. What an acknowledgement does. If no ping is pending under the sender's address and the
  heartbeat, nothing changes. Otherwise that entry, and only that entry, is removed; for a ping on
  behalf of another host an acknowledgement to that host is started; for an own ping the response
  time is recorded on the node and, raised to the configured minimum, replaces the oldest sample of
  the ping history.
\<close>

theorem ack_settles_ping:
  assumes "wf_state s" and "sender msg = Some r"
  shows "\<exists>t. receiveVerbAckUDP msg s = Inr (None, t) \<and> wf_state t \<and>
    (case map_of (pendingAcks s) (pack_key s r (senderHeartbeat msg)) of
       None \<Rightarrow> t = s
     | Some pack \<Rightarrow>
         (\<forall>k. map_of (pendingAcks t) k = (if k = pack_key s r (senderHeartbeat msg) then None else map_of (pendingAcks s) k)) \<and>
         (case callback pack of
            Some cb \<Rightarrow> spawned t = spawned s @ [TransmitVerbAck cb (callbackCode pack)] \<and> pingdata t = pingdata s
          | None \<Rightarrow> spawned t = spawned s \<and> pingMillis (node t (p_node pack)) = uint (pack_elapsed s pack) \<and>
              history (pingdata t) = tl (history (pingdata s)) @ [max (pack_elapsed s pack) (word_of_int (minPingTimeOf s))]))"
proof (cases "map_of (pendingAcks s) (pack_key s r (senderHeartbeat msg))")
  case None
  then show ?thesis using assms by (simp add: receiveVerbAck_unmatched)
next
  case (Some pack)
  let ?s = "modify_node r (Touch (now s)) s" and ?k = "pack_key s r (senderHeartbeat msg)"
  have wf: "wf_state ?s" using assms(1) by (rule wf_state_touch)
  have pack: "pack_ok (heap s) pack" using packs_ok_lookup [OF wf_stateD(5) [OF assms(1)] Some] .
  then have pack': "pack_ok (heap ?s) pack" by (rule pack_ok_mono [rotated]) (simp add: extends_modify)
  obtain u where u: "settle_pack pack ?s = Inr u" "pendingAcks u = pendingAcks s"
    using settle_pack_ok [OF wf pack'] by (auto elim!: yieldsE)
  let ?t = "u\<lparr>pendingAcks := AList.delete ?k (pendingAcks u)\<rparr>"
  have t: "receiveVerbAckUDP msg s = Inr (None, ?t)"
    unfolding receiveVerbAck_matched [OF assms(2) Some] using u by simp
  have ok: "wf_state ?t" using ensuresD [OF yields_ensures [OF receiveVerbAck_ok [OF assms]] t] by simp
  have same: "pack_elapsed ?s pack = pack_elapsed s pack" "minPingTimeOf ?s = minPingTimeOf s"
    by (simp_all add: pack_elapsed_def minPingTimeOf_def)
  show ?thesis
  proof (cases "callback pack")
    case None
    then have "notePingResponseTime pack ?s = Inr u" using u by (simp add: settle_pack_def)
    note e = notePing_effect [OF wf _ this, unfolded same]
    have "p_node pack < length (heap ?s)" using pack by (simp add: pack_ok_def)
    then show ?thesis using t ok Some None u(2) e by (auto simp: map_of_delete)
  next
    case cb: (Some c)
    then show ?thesis using t ok Some u by (auto simp: settle_pack_def map_of_delete)
  qed
qed

definition awaiting :: smudge where
  "awaiting = two_hosts\<lparr>pendingAcks := [(pack_key two_hosts 1 7,
     \<lparr>startTime = 0, p_node = 1, callback = Some 0, callbackCode = 4, packType = packNFP\<rparr>)]\<rparr>"

lemma wf_awaiting: "wf_state awaiting"
  unfolding awaiting_def by (rule wf_state_updates) (simp_all add: packs_ok_def pack_ok_def wf_map_def)

theorem ack_settles_ping_witness:
  "\<exists>t. receiveVerbAckUDP (newMessage verbAck (Some 1) 7) awaiting = Inr (None, t) \<and> wf_state t \<and>
     spawned t = [TransmitVerbAck 0 4] \<and> map_of (pendingAcks t) (pack_key two_hosts 1 7) = None"
proof -
  have "map_of (pendingAcks awaiting) (pack_key awaiting 1 7) =
      Some \<lparr>startTime = 0, p_node = 1, callback = Some 0, callbackCode = 4, packType = packNFP\<rparr>"
    "pack_key awaiting 1 7 = pack_key two_hosts 1 7" "spawned awaiting = []"
    by (simp_all add: awaiting_def pack_key_def)
  then show ?thesis
    using ack_settles_ping [OF wf_awaiting, of "newMessage verbAck (Some 1) 7" 1] by (auto simp: newMessage_def)
qed

text \<open>
  C36. A ping request without members stops the receiver: the datagram decodes without error,
  and the handler of the verb then panics on the first member.
\<close>

theorem empty_ping_request_panics:
  assumes "wf_state s" and "valid_ip src" and "thisHost s \<noteq> None"
    and "decodeMessage src b s = Inr (msg, None, s1)" and "verb msg = verbPingRequest" and "members msg = []"
  shows "receiveMessageUDP ch src b s = Inl IndexOutOfRange"
proof -
  note s1 = ensuresD [OF decodeMessage_ok [OF assms(1,2)] assms(4), unfolded prod.case]
  obtain r where r: "sender msg = Some r" using s1 by auto
  have "yields (absorb msg s1) (\<lambda>_. True)"
    using s1 assms(3) grows_same(6) [of s s1] by (intro yields_weaken [OF absorb_ok [OF _ _ r]]) auto
  then obtain u where "absorb msg s1 = Inr u" by (auto elim!: yieldsE)
  then show ?thesis unfolding receiveMessage_stages assms(4)
    using assms(5,6) by (simp add: receive_verb_def receiveVerbForwardUDP_def getIdx_def)
qed

theorem empty_ping_request_panics_witness:
  "receiveMessageUDP calm [10, 0, 0, 2] (sample_datagram verbPingRequest) two_hosts = Inl IndexOutOfRange"
proof -
  obtain msg s1 where dec: "decodeMessage [10, 0, 0, 2] (sample_datagram verbPingRequest) two_hosts = Inr (msg, None, s1)"
    and m: "verb msg = verbPingRequest" "members msg = []"
    using sample_decodes [of verbPingRequest] by auto
  show ?thesis by (rule empty_ping_request_panics [OF wf_two_hosts sample_src _ dec m]) simp
qed

end
