(* ===== verification/Timeouts.thy ===== *)
theory Timeouts
  imports Receive
begin

text \<open>
  The timeout loop of \<open>src/membership.go\<close>. One pass of \<open>startTimeoutCheckLoop\<close>
  holds the lock of the pending acknowledgements, so it is one step. The order in which it
  visits them is an argument. \<open>uint32\<close> of the limit truncates a float; the model truncates the exact value.
\<close>

section \<open>The operations\<close>

text \<open>
  A node that missed a ping becomes suspected, and a suspected one dead. The second node is
  the one whose response time is marked as timed out.
\<close>

definition suspect :: "node_ref \<Rightarrow> node_ref \<Rightarrow> smudge \<Rightarrow> smudge" where
  "suspect nd marked s =
     (if nodeMap_contains (heap s) (knownNodes s) nd then
        (if Status (node s nd) = StatusDead then s
         else if Status (node s nd) = StatusSuspected then
           modify_node marked (\<lambda>n. n\<lparr>pingMillis := PingTimedOut\<rparr>)
             (updateNodeStatus nd StatusDead (currentHeartbeat s) (thisHost s) s)
         else
           modify_node marked (\<lambda>n. n\<lparr>pingMillis := PingTimedOut\<rparr>)
             (updateNodeStatus nd StatusSuspected (currentHeartbeat s) (thisHost s) s))
      else s)"

definition pack_timeout :: "pendingAck \<Rightarrow> real \<Rightarrow> uint32" where
  "pack_timeout pack limit =
     (let timeoutMillis = word_of_int (go_trunc limit)
      in if packType pack = packPingReq then timeoutMillis * 2 else timeoutMillis)"

definition time_out :: "pendingAck \<Rightarrow> smudge \<Rightarrow> smudge outcome" where
  "time_out pack s =
     (case packType pack of
        packPing \<Rightarrow> Inr (s\<lparr>spawned := spawned s @ [DoForwardOnTimeout pack]\<rparr>)
      | packPingReq \<Rightarrow>
          (case callback pack of None \<Rightarrow> Inl NilDereference | Some cb \<Rightarrow> Inr (suspect cb cb s))
      | packNFP \<Rightarrow>
          (case callback pack of
             None \<Rightarrow> if nodeMap_contains (heap s) (knownNodes s) (p_node pack) \<and>
                        status (node s (p_node pack)) \<noteq> StatusDead
                     then Inl NilDereference else Inr s
           | Some cb \<Rightarrow> Inr (suspect (p_node pack) cb s)))"

text \<open>The body of the loop over the pending acknowledgements.\<close>

definition check_pack :: "string \<times> pendingAck \<Rightarrow> smudge \<Rightarrow> smudge outcome" where
  "check_pack entry s =
     (let (k, pack) = entry;
          elapsed = pack_elapsed s pack;
          (limit, pd) = nSigma timeoutToleranceSigmas (pingdata s);
          s = s\<lparr>pingdata := pd\<rparr>
      in if elapsed > pack_timeout pack limit
         then bindR (time_out pack s) (\<lambda>s. Inr (s\<lparr>pendingAcks := AList.delete k (pendingAcks s)\<rparr>))
         else Inr s)"

definition startTimeoutCheckLoop :: "string list \<Rightarrow> smudge \<Rightarrow> smudge outcome" where
  "startTimeoutCheckLoop ord s = foldR check_pack (range_entries ord (pendingAcks s)) s"

section \<open>Well-formedness\<close>

lemma pingMillis_ok:
  assumes "wf_state s" shows "wf_state (modify_node r (\<lambda>n. n\<lparr>pingMillis := v\<rparr>) s)"
  by (rule wf_state_modify_node [OF assms]) (simp_all add: same_id_def wf_node_def)

lemma pingMillis_keeps [simp]: "keeps s (modify_node r (\<lambda>n. n\<lparr>pingMillis := v\<rparr>) s)"
  by (simp add: keeps_def extends_modify same_id_def)

lemma suspect_ok:
  assumes "wf_state s" and "nd < length (heap s)"
  shows "wf_state (suspect nd c s) \<and> keeps s (suspect nd c s)"
proof -
  have "wf_state (updateNodeStatus nd st hb (thisHost s) s)" if "st \<noteq> StatusForwardTo" for st hb
    using assms that wf_stateD(7) [OF assms(1)] by (intro wf_state_updateNodeStatus)
  then show ?thesis
    using assms(1) keeps_trans [OF keeps_updateNodeStatus pingMillis_keeps]
    by (simp add: suspect_def pingMillis_ok)
qed

lemma suspect_same [simp]:
  "pendingAcks (suspect nd c s) = pendingAcks s" "spawned (suspect nd c s) = spawned s"
  "clock (suspect nd c s) = clock s" "pingdata (suspect nd c s) = pingdata s" "sent (suspect nd c s) = sent s"
  by (simp_all add: suspect_def)

definition expired :: "smudge \<Rightarrow> pendingAck \<Rightarrow> bool" where
  "expired s pack \<longleftrightarrow>
     pack_elapsed s pack > pack_timeout pack (mean_of (pings (pingdata s)) + 3 * stddev_of (pings (pingdata s)))"

definition forwards :: "pendingAck list \<Rightarrow> goroutine list" where
  "forwards ps = map DoForwardOnTimeout (filter (\<lambda>p. packType p = packPing) ps)"

text \<open>What one check keeps, so that the next one meets the same limits.\<close>

definition same_limits :: "smudge \<Rightarrow> smudge \<Rightarrow> bool" where
  "same_limits s t \<longleftrightarrow> clock t = clock s \<and> pings (pingdata t) = pings (pingdata s)"

lemma expired_same: "same_limits s t \<Longrightarrow> expired t = expired s"
  by (rule ext) (simp add: expired_def same_limits_def pack_elapsed_def now_def)

lemma time_out_ok:
  assumes "wf_state s" and "pack_ok (heap s) p"
  shows "yields (time_out p s) (\<lambda>t. wf_state t \<and> keeps s t \<and> same_limits s t \<and>
    pendingAcks t = pendingAcks s \<and> spawned t = spawned s @ forwards [p])"
proof (cases "packType p")
  case packPing
  then have "wf_state (s\<lparr>spawned := spawned s @ [DoForwardOnTimeout p]\<rparr>)"
    using assms by (intro wf_state_spawn) (simp_all add: goroutine_ok_def)
  then show ?thesis using packPing by (simp add: time_out_def forwards_def same_limits_def)
next
  case packPingReq
  then obtain cb where "callback p = Some cb" "cb < length (heap s)" using assms(2) by (auto simp: pack_ok_def)
  then show ?thesis using packPingReq suspect_ok [OF assms(1)]
    by (simp add: time_out_def forwards_def same_limits_def)
next
  case packNFP
  then obtain cb where "callback p = Some cb" "p_node p < length (heap s)" using assms(2) by (auto simp: pack_ok_def)
  then show ?thesis using packNFP suspect_ok [OF assms(1)]
    by (simp add: time_out_def forwards_def same_limits_def)
qed

lemma nSigma_state:
  "pd_ok pd \<Longrightarrow> fst (nSigma k pd) = mean_of (pings pd) + k * stddev_of (pings pd) \<and>
     pings (snd (nSigma k pd)) = pings pd \<and> pd_ok (snd (nSigma k pd))"
  by (simp add: nSigma_def pingData_data_eq pd_ok_def)

lemma check_pack_body:
  assumes "wf_state s"
  shows "check_pack (k, p) s = (if expired s p
    then bindR (time_out p (s\<lparr>pingdata := snd (nSigma timeoutToleranceSigmas (pingdata s))\<rparr>))
      (\<lambda>s. Inr (s\<lparr>pendingAcks := AList.delete k (pendingAcks s)\<rparr>))
    else Inr (s\<lparr>pingdata := snd (nSigma timeoutToleranceSigmas (pingdata s))\<rparr>))"
  using nSigma_state [OF wf_stateD(9) [OF assms], of timeoutToleranceSigmas]
  by (simp add: check_pack_def split_beta expired_def timeoutToleranceSigmas_def Let_def)

lemma check_pack_ok:
  assumes "wf_state s" and "pack_ok (heap s) p"
  shows "yields (check_pack (k, p) s) (\<lambda>t. wf_state t \<and> keeps s t \<and> same_limits s t \<and>
    pendingAcks t = (if expired s p then AList.delete k (pendingAcks s) else pendingAcks s) \<and>
    spawned t = spawned s @ (if expired s p then forwards [p] else []))"
proof -
  note sig = nSigma_state [OF wf_stateD(9) [OF assms(1)], of timeoutToleranceSigmas]
  let ?s = "s\<lparr>pingdata := snd (nSigma timeoutToleranceSigmas (pingdata s))\<rparr>"
  have s: "wf_state ?s" using assms(1) sig by simp
  have del: "wf_state (t\<lparr>pendingAcks := AList.delete k (pendingAcks s)\<rparr>)"
    if "wf_state t" "pendingAcks t = pendingAcks s" for t
    using wf_state_updates(9) [OF that(1) packs_ok_delete [OF wf_stateD(5) [OF that(1)]]] that(2) by simp
  have "pack_ok (heap ?s) p" using assms(2) by simp
  note out = time_out_ok [OF s this]
  note body = check_pack_body [OF assms(1), of k p]
  show ?thesis
  proof (cases "expired s p")
    case False
    then show ?thesis using body s sig by (simp add: same_limits_def)
  next
    case True
    have "yields (bindR (time_out p ?s) (\<lambda>s. Inr (s\<lparr>pendingAcks := AList.delete k (pendingAcks s)\<rparr>)))
      (\<lambda>t. wf_state t \<and> keeps s t \<and> same_limits s t \<and> pendingAcks t = AList.delete k (pendingAcks s) \<and>
        spawned t = spawned s @ forwards [p])"
      by (rule yields_bind [OF out])
        (use del sig keeps_trans [OF keeps_updates(4) keeps_trans [OF _ keeps_updates(1)]] in \<open>auto simp: same_limits_def\<close>)
    then show ?thesis using True body by simp
  qed
qed

lemma delete_where_map: "map_of (fold AList.delete ks m) k = (if k \<in> set ks then None else map_of m k)"
  by (induction ks arbitrary: m) (auto simp: map_of_delete)

lemma check_all_ok:
  assumes "wf_state s" and "\<forall>(k, p) \<in> set es. pack_ok (heap s) p"
  shows "yields (foldR check_pack es s) (\<lambda>t. wf_state t \<and> keeps s t \<and> same_limits s t \<and>
    pendingAcks t = fold AList.delete (map fst (filter (\<lambda>(k, p). expired s p) es)) (pendingAcks s) \<and>
    spawned t = spawned s @ forwards (map snd (filter (\<lambda>(k, p). expired s p) es)))"
  using assms
proof (induction es arbitrary: s)
  case Nil
  then show ?case by (simp add: same_limits_def forwards_def)
next
  case (Cons e es)
  obtain k p where e: "e = (k, p)" by fastforce
  then have "pack_ok (heap s) p" using Cons.prems(2) by simp
  note one = check_pack_ok [OF Cons.prems(1) this, of k]
  show ?case unfolding foldR.simps e
  proof (rule yields_bind [OF one])
    fix u assume u: "wf_state u \<and> keeps s u \<and> same_limits s u \<and>
      pendingAcks u = (if expired s p then AList.delete k (pendingAcks s) else pendingAcks s) \<and>
      spawned u = spawned s @ (if expired s p then forwards [p] else [])"
    then have "\<forall>(k, p) \<in> set es. pack_ok (heap u) p"
      using Cons.prems(2) pack_ok_mono [of "heap s" "heap u"] by (fastforce simp: keeps_def)
    note rest = Cons.IH [OF conjunct1 [OF u] this]
    have same: "expired u = expired s" using u expired_same by blast
    have k: "keeps s t" if "keeps u t" for t using u that keeps_trans by blast
    have l: "same_limits s t" if "same_limits u t" for t using u that by (simp add: same_limits_def)
    show "yields (foldR check_pack es u) (\<lambda>t. wf_state t \<and> keeps s t \<and> same_limits s t \<and>
      pendingAcks t = fold AList.delete (map fst (filter (\<lambda>(k, p). expired s p) ((k, p) # es))) (pendingAcks s) \<and>
      spawned t = spawned s @ forwards (map snd (filter (\<lambda>(k, p). expired s p) ((k, p) # es))))"
      using u by (intro yields_weaken [OF rest]) (auto simp: same k l forwards_def)
  qed
qed

lemma timeout_pass_ok:
  assumes "wf_state s"
  shows "yields (startTimeoutCheckLoop ord s) (\<lambda>t. wf_state t \<and> keeps s t \<and>
    (\<forall>k. map_of (pendingAcks t) k = (case map_of (pendingAcks s) k of None \<Rightarrow> None
       | Some p \<Rightarrow> if expired s p then None else Some p)) \<and>
    spawned t = spawned s @ forwards (map snd (filter (\<lambda>(k, p). expired s p) (range_entries ord (pendingAcks s)))))"
proof -
  note packs = wf_stateD(5) [OF assms]
  have wf: "wf_map (pendingAcks s)" using packs by (simp add: packs_ok_def)
  note es = set_range_entries [OF wf, of ord]
  have "\<forall>(k, p) \<in> set (range_entries ord (pendingAcks s)). pack_ok (heap s) p"
    using packs by (simp add: es packs_ok_def)
  from check_all_ok [OF assms this] show ?thesis unfolding startTimeoutCheckLoop_def
  proof (rule yields_weaken)
    fix t
    let ?ks = "map fst (filter (\<lambda>(k, p). expired s p) (range_entries ord (pendingAcks s)))"
    assume t: "wf_state t \<and> keeps s t \<and> same_limits s t \<and> pendingAcks t = fold AList.delete ?ks (pendingAcks s) \<and>
      spawned t = spawned s @ forwards (map snd (filter (\<lambda>(k, p). expired s p) (range_entries ord (pendingAcks s))))"
    have "k \<in> set ?ks \<longleftrightarrow> (\<exists>p. map_of (pendingAcks s) k = Some p \<and> expired s p)" for k
      using wf_map_of_iff [OF wf] by (force simp: es)
    then have "map_of (pendingAcks t) k = (case map_of (pendingAcks s) k of None \<Rightarrow> None
       | Some p \<Rightarrow> if expired s p then None else Some p)" for k
      using t by (auto simp: delete_where_map split: option.splits)
    then show "wf_state t \<and> keeps s t \<and> (\<forall>k. map_of (pendingAcks t) k = (case map_of (pendingAcks s) k of None \<Rightarrow> None
       | Some p \<Rightarrow> if expired s p then None else Some p)) \<and>
      spawned t = spawned s @ forwards (map snd (filter (\<lambda>(k, p). expired s p) (range_entries ord (pendingAcks s))))"
      using t by blast
  qed
qed

section \<open>Properties\<close>

text \<open>
  C9. A timeout pass removes exactly the expired entries: those whose elapsed time exceeds the
  mean of the recorded response times plus three standard deviations, twice that for ping requests,
  in 32-bit arithmetic. All others stay as they are. For each expired direct ping exactly one
  request for indirect pings is started, and for nothing else. The pass never panics and keeps the state well-formed,
  whatever the order of the traversal.
\<close>

theorem timeout_pass_spec:
  assumes "wf_state s"
  shows "\<exists>t gs. startTimeoutCheckLoop ord s = Inr t \<and> wf_state t \<and>
    (\<forall>k. map_of (pendingAcks t) k = (case map_of (pendingAcks s) k of None \<Rightarrow> None
       | Some p \<Rightarrow> if expired s p then None else Some p)) \<and>
    spawned t = spawned s @ gs \<and>
    mset gs = image_mset (\<lambda>(k, p). DoForwardOnTimeout p)
      {#(k, p) \<in># mset (pendingAcks s). expired s p \<and> packType p = packPing#}"
proof -
  have wf: "wf_map (pendingAcks s)" using wf_stateD(5) [OF assms] by (simp add: packs_ok_def)
  let ?es = "range_entries ord (pendingAcks s)"
  have fwd: "forwards (map snd (filter (\<lambda>(k, p). expired s p) es)) =
      map (\<lambda>(k, p). DoForwardOnTimeout p) (filter (\<lambda>(k, p). expired s p \<and> packType p = packPing) es)" for es
    by (induction es) (auto simp: forwards_def)
  have "mset (forwards (map snd (filter (\<lambda>(k, p). expired s p) ?es))) = image_mset (\<lambda>(k, p). DoForwardOnTimeout p)
      {#(k, p) \<in># mset (pendingAcks s). expired s p \<and> packType p = packPing#}"
    by (simp only: fwd mset_map mset_filter mset_range_entries [OF wf])
  then show ?thesis using timeout_pass_ok [OF assms, of ord] by (auto elim!: yieldsE)
qed

definition late :: pendingAck where
  "late = \<lparr>startTime = - 100000, p_node = 1, callback = None, callbackCode = 0, packType = packPing\<rparr>"

definition waiting :: smudge where
  "waiting = two_hosts\<lparr>pendingAcks := [(''10.0.0.2:9999:7'', late)]\<rparr>"

lemma wf_waiting: "wf_state waiting"
  unfolding waiting_def by (rule wf_state_updates) (simp_all add: packs_ok_def pack_ok_def wf_map_def late_def)

lemma sample_limits:
  "mean_of (pings (newPingData 200 50)) = 200" "stddev_of (pings (newPingData 200 50)) = 0"
proof -
  have "pings (newPingData 200 50) = replicate 50 200" by (simp add: newPingData_def map_replicate_trivial)
  then show "mean_of (pings (newPingData 200 50)) = 200" "stddev_of (pings (newPingData 200 50)) = 0"
    by (simp_all add: mean_of_def stddev_of_def sum_list_replicate)
qed

lemma waiting_expired: "expired waiting late"
  by (simp add: expired_def pack_timeout_def go_trunc_def pack_elapsed_def now_def sample_limits
      GetNowInMillis_def go_div_def waiting_def late_def)

theorem timeout_pass_spec_witness:
  "\<exists>t. startTimeoutCheckLoop [] waiting = Inr t \<and> map_of (pendingAcks t) ''10.0.0.2:9999:7'' = None \<and>
     DoForwardOnTimeout late \<in> set (spawned t)"
proof -
  have p: "map_of (pendingAcks waiting) ''10.0.0.2:9999:7'' = Some late" by (simp add: waiting_def)
  moreover have "packType late = packPing" by (simp add: late_def)
  ultimately show ?thesis
    using timeout_pass_spec [OF wf_waiting, of "[]"] waiting_expired
    by (fastforce simp: waiting_def dest!: arg_cong [where f = set_mset])
qed

lemma suspect_status:
  assumes "nd < length (heap s)"
  shows "status (node (suspect nd c s) r) = (if r = nd \<and> nodeMap_contains (heap s) (knownNodes s) nd
    then (if status (node s nd) = StatusDead \<or> status (node s nd) = StatusSuspected then StatusDead else StatusSuspected)
    else status (node s r))"
proof -
  have "status (modify c (\<lambda>n. n\<lparr>pingMillis := v\<rparr>) h ! r) = status (h ! r)" for h v r
    by (cases "c < length h") (simp_all add: modify_nth, simp add: modify_def list_update_beyond)
  then show ?thesis using assms
    by (simp add: suspect_def updateNodeStatus_node status_written_def)
qed

text \<open>
  C11. A timeout never skips suspicion: checking one pending acknowledgement changes the status
  of at most the node it stands for, if that is known: an alive node becomes suspected and only a
  suspected one dead. A direct ping that times out changes no status.
\<close>

theorem timeout_escalates_by_one:
  assumes "wf_state s" and "pack_ok (heap s) p" and "check_pack (k, p) s = Inr t" and "status (node t r) \<noteq> status (node s r)"
  shows "expired s p \<and> packType p \<noteq> packPing \<and> r = (if packType p = packPingReq then the (callback p) else p_node p) \<and>
    nodeMap_contains (heap s) (knownNodes s) r \<and>
    status (node t r) = (if status (node s r) = StatusSuspected then StatusDead else StatusSuspected)"
proof -
  let ?s = "s\<lparr>pingdata := snd (nSigma timeoutToleranceSigmas (pingdata s))\<rparr>"
  note body = check_pack_body [OF assms(1), of k p]
  have ex: "expired s p" using assms(3,4) body by (cases "expired s p") auto
  then obtain u where u: "time_out p ?s = Inr u" "heap t = heap u" using assms(3) body by (auto elim!: bindR_InrE)
  have alloc: "p_node p < length (heap s)" "\<And>c. callback p = Some c \<Longrightarrow> c < length (heap s)"
    using assms(2) by (auto simp: pack_ok_def)
  show ?thesis
  proof (cases "packType p")
    case packPing
    then show ?thesis using u assms(4) by (auto simp: time_out_def)
  next
    case packPingReq
    then obtain c where c: "callback p = Some c" using assms(2) by (auto simp: pack_ok_def)
    then have "u = suspect c c ?s" using packPingReq u by (simp add: time_out_def)
    then show ?thesis using packPingReq c ex u(2) assms(4) suspect_status [of c ?s c r] alloc(2) [OF c]
      by (auto split: if_splits)
  next
    case packNFP
    then obtain c where c: "callback p = Some c" using assms(2) by (auto simp: pack_ok_def)
    then have "u = suspect (p_node p) c ?s" using packNFP u by (simp add: time_out_def)
    then show ?thesis using packNFP c ex u(2) assms(4) suspect_status [of "p_node p" ?s c r] alloc(1)
      by (auto split: if_splits)
  qed
qed

definition request :: pendingAck where
  "request = \<lparr>startTime = - 100000, p_node = 1, callback = Some 1, callbackCode = 0, packType = packPingReq\<rparr>"

lemma request_expired: "expired two_hosts request"
  by (simp add: expired_def pack_timeout_def go_trunc_def pack_elapsed_def now_def sample_limits
      GetNowInMillis_def go_div_def request_def)

theorem timeout_escalates_by_one_witness:
  "\<exists>t. check_pack (''10.0.0.2:9999:7'', request) two_hosts = Inr t \<and> status (node t 1) = StatusSuspected"
proof -
  have ok: "pack_ok (heap two_hosts) request" by (simp add: pack_ok_def request_def)
  obtain t where t: "check_pack (''10.0.0.2:9999:7'', request) two_hosts = Inr t"
    using check_pack_ok [OF wf_two_hosts ok] by (auto elim!: yieldsE)
  have "status (node t 1) \<noteq> status (node two_hosts 1)"
  proof
    assume "status (node t 1) = status (node two_hosts 1)"
    moreover have "nodeMap_contains (heap two_hosts) (knownNodes two_hosts) 1"
      by (simp add: contains_iff getByAddress_def)
    ultimately show False
      using t request_expired check_pack_body [OF wf_two_hosts, of _ request]
        suspect_status [of 1 "two_hosts\<lparr>pingdata := snd (nSigma timeoutToleranceSigmas (pingdata two_hosts))\<rparr>" 1 1]
      by (auto simp: time_out_def request_def elim!: bindR_InrE)
  qed
  from timeout_escalates_by_one [OF wf_two_hosts ok t this] show ?thesis using t by (auto simp: request_def)
qed

text \<open>The node that a dropped acknowledgement speaks against, and what one such verdict does to its status.\<close>

definition blamed :: "pendingAck \<Rightarrow> node_ref option" where
  "blamed p = (case packType p of packPing \<Rightarrow> None | packPingReq \<Rightarrow> callback p | packNFP \<Rightarrow> Some (p_node p))"

definition worse :: "NodeStatus \<Rightarrow> NodeStatus" where
  "worse st = (if st = StatusSuspected \<or> st = StatusDead then StatusDead else StatusSuspected)"

lemma time_out_status:
  assumes "pack_ok (heap s) p" and "time_out p s = Inr t"
  shows "status (node t r) = (if blamed p = Some r \<and> nodeMap_contains (heap s) (knownNodes s) r
    then worse (status (node s r)) else status (node s r)) \<and> knownNodes t = knownNodes s"
proof (cases "packType p")
  case packPing
  then show ?thesis using assms(2) by (auto simp: time_out_def blamed_def)
next
  case packPingReq
  then obtain c where c: "callback p = Some c" "c < length (heap s)" using assms(1) by (auto simp: pack_ok_def)
  then show ?thesis using packPingReq assms(2) suspect_status [OF c(2), of c r]
    by (auto simp: time_out_def blamed_def worse_def) (simp_all add: suspect_def)
next
  case packNFP
  then obtain c where c: "callback p = Some c" "p_node p < length (heap s)" using assms(1) by (auto simp: pack_ok_def)
  then show ?thesis using packNFP assms(2) suspect_status [OF c(2), of c r]
    by (auto simp: time_out_def blamed_def worse_def) (simp_all add: suspect_def)
qed

lemma check_pack_status:
  assumes "wf_state s" and "pack_ok (heap s) p" and "check_pack (k, p) s = Inr t"
  shows "status (node t r) = (if (expired s p \<and> blamed p = Some r) \<and> nodeMap_contains (heap s) (knownNodes s) r
    then worse (status (node s r)) else status (node s r)) \<and> knownNodes t = knownNodes s"
proof (cases "expired s p")
  case False
  then show ?thesis using assms(3) check_pack_body [OF assms(1), of k p] by auto
next
  case True
  let ?s = "s\<lparr>pingdata := snd (nSigma timeoutToleranceSigmas (pingdata s))\<rparr>"
  obtain u where u: "time_out p ?s = Inr u" "heap t = heap u" "knownNodes t = knownNodes u"
    using assms(3) check_pack_body [OF assms(1), of k p] True by (auto elim!: bindR_InrE)
  then show ?thesis using time_out_status [of ?s p u r] assms(2) True by simp
qed

definition verdicts :: "smudge \<Rightarrow> node_ref \<Rightarrow> (string \<times> pendingAck) list \<Rightarrow> nat" where
  "verdicts s r es = length (filter (\<lambda>(k, p). expired s p \<and> blamed p = Some r) es)"

lemma check_all_status:
  assumes "wf_state s" and "\<forall>(k, p) \<in> set es. pack_ok (heap s) p" and "r < length (heap s)"
    and "foldR check_pack es s = Inr t"
  shows "status (node t r) = (if nodeMap_contains (heap s) (knownNodes s) r
    then (worse ^^ verdicts s r es) (status (node s r)) else status (node s r))"
  using assms
proof (induction es arbitrary: s)
  case Nil
  then show ?case by (simp add: verdicts_def)
next
  case (Cons e es)
  obtain k p where e: "e = (k, p)" by fastforce
  then obtain u where u: "check_pack (k, p) s = Inr u" "foldR check_pack es u = Inr t"
    using Cons.prems(4) by (auto elim!: bindR_InrE)
  have pk: "pack_ok (heap s) p" using Cons.prems(2) e by simp
  have ok: "wf_state u" "keeps s u" "same_limits s u"
    using ensuresD [OF yields_ensures [OF check_pack_ok [OF Cons.prems(1) pk]] u(1)] by auto
  have packs: "\<forall>(k, p) \<in> set es. pack_ok (heap u) p"
    using Cons.prems(2) ok(2) pack_ok_mono [of "heap s" "heap u"] by (fastforce simp: keeps_def)
  have r: "r < length (heap u)" using keeps_length [OF ok(2) Cons.prems(3)] .
  note one = check_pack_status [OF Cons.prems(1) pk u(1), of r]
  have "nodeMap_contains (heap u) (knownNodes u) r = nodeMap_contains (heap s) (knownNodes s) r"
    using one keeps_addr [OF ok(2) Cons.prems(3)] by (simp add: contains_iff)
  moreover have "verdicts u r es = verdicts s r es" by (simp add: verdicts_def expired_same [OF ok(3)])
  ultimately show ?case using Cons.IH [OF ok(1) packs r u(2)] one
    by (auto simp: e verdicts_def funpow_swap1)
qed

text \<open>
  C10. What a timeout pass does to the statuses: a known node gets one verdict for every expired ping
  request or relayed ping that speaks against it, and each verdict makes a suspected node dead and any
  other but a dead one suspected. So a single pass makes an alive node dead when two of its requests
  expire together. Unknown nodes keep their status.
\<close>

theorem timeout_pass_statuses:
  assumes "wf_state s" and "startTimeoutCheckLoop ord s = Inr t" and "r < length (heap s)"
  shows "status (node t r) = (if nodeMap_contains (heap s) (knownNodes s) r
    then (worse ^^ card {k. \<exists>p. map_of (pendingAcks s) k = Some p \<and> expired s p \<and> blamed p = Some r}) (status (node s r))
    else status (node s r))"
proof -
  have packs: "packs_ok (heap s) (pendingAcks s)" using wf_stateD(5) [OF assms(1)] .
  then have wf: "wf_map (pendingAcks s)" by (simp add: packs_ok_def)
  let ?es = "range_entries ord (pendingAcks s)" and ?P = "\<lambda>(k, p). expired s p \<and> blamed p = Some r"
  have "\<forall>(k, p) \<in> set ?es. pack_ok (heap s) p" using packs by (simp add: set_range_entries [OF wf] packs_ok_def)
  note all = check_all_status [OF assms(1) this assms(3,2) [unfolded startTimeoutCheckLoop_def]]
  have "distinct (map fst (filter ?P ?es))" using wf_range_entries [OF wf] by (simp add: wf_map_def distinct_map_filter)
  then have "verdicts s r ?es = card (set (map fst (filter ?P ?es)))" using distinct_card by (fastforce simp: verdicts_def)
  also have "set (map fst (filter ?P ?es)) = {k. \<exists>p. map_of (pendingAcks s) k = Some p \<and> expired s p \<and> blamed p = Some r}"
    by (force simp: set_range_entries [OF wf] wf_map_of_iff [OF wf])
  finally show ?thesis using all by simp
qed

text \<open>Two requests to ping the second host expire together: the pass turns it from alive to dead.\<close>

definition twice :: smudge where
  "twice = two_hosts\<lparr>pendingAcks := [(''a'', request), (''b'', request)]\<rparr>"

lemma wf_twice: "wf_state twice"
  unfolding twice_def by (rule wf_state_updates) (simp_all add: packs_ok_def pack_ok_def wf_map_def request_def)

theorem timeout_pass_statuses_witness:
  "\<exists>t. startTimeoutCheckLoop [] twice = Inr t \<and> status (node twice 1) = StatusAlive \<and> status (node t 1) = StatusDead"
proof -
  have "expired twice request" using request_expired by (simp add: twice_def expired_def pack_elapsed_def now_def)
  moreover have "blamed request = Some 1" by (simp add: blamed_def request_def)
  ultimately have "{k. \<exists>p. map_of (pendingAcks twice) k = Some p \<and> expired twice p \<and> blamed p = Some 1} = {''a'', ''b''}"
    by (auto simp: twice_def split: if_splits)
  moreover have "nodeMap_contains (heap twice) (knownNodes twice) 1" "status (node twice 1) = StatusAlive" "1 < length (heap twice)"
    by (simp_all add: twice_def contains_iff getByAddress_def)
  moreover obtain t where "startTimeoutCheckLoop [] twice = Inr t"
    using timeout_pass_ok [OF wf_twice, of "[]"] by (auto elim!: yieldsE)
  ultimately show ?thesis using timeout_pass_statuses [OF wf_twice, of "[]" t 1]
    by (auto simp: worse_def numeral_2_eq_2)
qed

text \<open>
  A dropped non-forwarding ping marks the wrong node: the pinged node becomes suspected, but
  the response time that is set to the timed-out mark is that of the host that asked for the ping,
  and the pinged node keeps its own.
\<close>

theorem nfp_timeout_marks_requester:
  assumes "wf_state s" and "pack_ok (heap s) p" and "packType p = packNFP" and "callback p = Some c" and "c \<noteq> p_node p"
    and "expired s p" and "nodeMap_contains (heap s) (knownNodes s) (p_node p)" and "status (node s (p_node p)) = StatusAlive"
  shows "\<exists>t. check_pack (k, p) s = Inr t \<and> status (node t (p_node p)) = StatusSuspected \<and>
    pingMillis (node t c) = PingTimedOut \<and> pingMillis (node t (p_node p)) = pingMillis (node s (p_node p))"
proof -
  have n: "p_node p < length (heap s)" "c < length (heap s)" using assms(2,4) by (simp_all add: pack_ok_def)
  then show ?thesis
    using assms check_pack_body [OF assms(1), of k p]
    by (auto simp: time_out_def suspect_def modify_nth updateNodeStatus_node status_written_def)
qed

lemma host_pings: "pingMillis (host_node d) = PingNoData"
  by (simp add: host_node_def)

theorem nfp_timeout_marks_requester_witness:
  "\<exists>t. check_pack (''k'', request\<lparr>callback := Some 0, packType := packNFP\<rparr>) two_hosts = Inr t \<and>
     pingMillis (node t 0) = PingTimedOut \<and> pingMillis (node t 1) = PingNoData"
proof -
  let ?p = "request\<lparr>callback := Some 0, packType := packNFP\<rparr>"
  have "expired two_hosts ?p"
    by (simp add: expired_def pack_timeout_def go_trunc_def pack_elapsed_def now_def sample_limits
        GetNowInMillis_def go_div_def request_def)
  then show ?thesis
    using nfp_timeout_marks_requester [OF wf_two_hosts, of ?p 0 "''k''"]
    by (auto simp: request_def pack_ok_def contains_iff getByAddress_def host_pings)
qed

end
