(* ===== verification/Membership.thy ===== *)
theory Membership
  imports Timeouts
begin

text \<open>
  Start-up and the main loop of \<open>Begin\<close> in \<open>src/membership.go\<close>. The loop never
  returns; its position is a value of \<open>loop\<close> and one call of \<open>loop_step\<close> runs it up to the
  next point where other goroutines may run: after a visit of a node, and at the end of a sleep.
  The resolver \<open>net.LookupIP\<close> is a parameter.
\<close>

section \<open>Start-up\<close>

definition listenIPOf :: "smudge \<Rightarrow> IP" where
  "listenIPOf s = fst (GetListenIP (environ s) (config s))"

definition initialHostsOf :: "smudge \<Rightarrow> string list" where
  "initialHostsOf s = (case fst (GetInitialHosts (environ s) (config s)) of None \<Rightarrow> [] | Some hs \<Rightarrow> hs)"

definition initGlobalHostEnvironment :: "smudge \<Rightarrow> smudge" where
  "initGlobalHostEnvironment s =
     (let n = \<lparr>ip = listenIPOf s, port = word_of_int (listenPortOf s), timestamp = now s, address = [],
               pingMillis = PingNoData, status = StatusUnknown, emitCounter = 0, heartbeat = 0,
               statusSource = None\<rparr>;
          r = length (heap s);
          s = s\<lparr>heap := heap s @ [n], thisHost := Some r\<rparr>
      in s\<lparr>thisHostAddress := addr s r\<rparr>)"

definition add_initial_host :: "(string \<Rightarrow> IP list option) \<Rightarrow> string \<Rightarrow> smudge \<Rightarrow> smudge outcome" where
  "add_initial_host lookupIP host s =
     (let (n, s) = CreateNodeByAddress lookupIP host s in
      case n of
        Inl err \<Rightarrow> Inr s
      | Inr r \<Rightarrow> bindR (AddNode r s) (\<lambda>(q, s). Inr s))"

definition begin_setup :: "(string \<Rightarrow> IP list option) \<Rightarrow> smudge \<Rightarrow> smudge outcome" where
  "begin_setup lookupIP s =
     (let s = (if To4 (listenIPOf s) = [] then s\<lparr>ipLen := IPv6len\<rparr> else s);
          s = initGlobalHostEnvironment s
      in case thisHost s of
        None \<Rightarrow> Inl NilDereference
      | Some this \<Rightarrow>
          bindR (AddNode this (updateNodeStatus this StatusAlive 0 (Some this) s)) (\<lambda>(q, s).
          foldR (add_initial_host lookupIP) (initialHostsOf s) s))"

section \<open>The loop\<close>

text \<open>
  Exponential backoff of dead nodes: whether to ping the node now. A node whose retries are
  used up is removed.
\<close>

definition dead_backoff :: "node_ref \<Rightarrow> smudge \<Rightarrow> bool \<times> smudge" where
  "dead_backoff nd s =
     (let k = addr s nd;
          dnc = (case map_of (deadNodeRetries s) k of
                   None \<Rightarrow> \<lparr>retry = 1, retryCountdown = 2\<rparr> | Some d \<Rightarrow> d);
          dnc = dnc\<lparr>retryCountdown := retryCountdown dnc - 1\<rparr>
      in if retryCountdown dnc \<le> 0 then
           let dnc = dnc\<lparr>retry := retry dnc + 1\<rparr>;
               dnc = dnc\<lparr>retryCountdown := 2 ^ nat (retry dnc)\<rparr>
           in if retry dnc > maxDeadNodeRetries
              then (False, snd (RemoveNode nd (s\<lparr>deadNodeRetries := AList.delete k (deadNodeRetries s)\<rparr>)))
              else (True, s\<lparr>deadNodeRetries := AList.update k dnc (deadNodeRetries s)\<rparr>)
         else (False, s\<lparr>deadNodeRetries := AList.update k dnc (deadNodeRetries s)\<rparr>))"

definition visit_node :: "choices \<Rightarrow> node_ref \<Rightarrow> smudge \<Rightarrow> (bool \<times> smudge) outcome" where
  "visit_node ch nd s =
     (let (go, s) = (if status (node s nd) = StatusDead then dead_backoff nd s else (True, s))
      in if \<not> go then Inr (False, s)
         else bindR (PingNode ch nd (s\<lparr>currentHeartbeat := currentHeartbeat s + 1\<rparr>)) (\<lambda>(err, s). Inr (True, s)))"

datatype loop =
    Fresh
  | Going "node_ref list" nat
  | Asleep "node_ref list" nat
  | Lonely

fun loop_step :: "string list \<Rightarrow> nat list \<Rightarrow> choices \<Rightarrow> loop \<Rightarrow> smudge \<Rightarrow> (loop \<times> smudge) outcome" where
  "loop_step ord js ch Fresh s =
     (case thisHost s of
        None \<Rightarrow> if nodeMap_length (knownNodes s) = 0 then Inr (Going [] 0, s) else Inl NilDereference
      | Some this \<Rightarrow> Inr (Going (getRandomNodes ord js (heap s) (knownNodes s) 0 [this]) 0, s))"
| "loop_step ord js ch (Going [] pingCounter) s =
     Inr (if pingCounter = 0 then Lonely else Fresh, s)"
| "loop_step ord js ch (Going (n # ns) pingCounter) s =
     bindR (visit_node ch n s) (\<lambda>(pinged, s).
       Inr (if pinged then Asleep ns (pingCounter + 1) else Going ns pingCounter, s))"
| "loop_step ord js ch (Asleep ns pingCounter) s =
     Inr (if knownNodesModifiedFlag s
          then (Going [] pingCounter, s\<lparr>knownNodesModifiedFlag := False\<rparr>)
          else (Going ns pingCounter, s))"
| "loop_step ord js ch Lonely s = Inr (Fresh, s)"

section \<open>Well-formedness of start-up\<close>

lemma init_host:
  assumes "wf_state s" and "valid_ip (listenIPOf s)"
  shows "wf_state (initGlobalHostEnvironment s)"
    and "thisHost (initGlobalHostEnvironment s) = Some (length (heap s))"
    and "heap (initGlobalHostEnvironment s) = heap s @ [\<lparr>ip = listenIPOf s, port = word_of_int (listenPortOf s),
      timestamp = now s, address = [], pingMillis = PingNoData, status = StatusUnknown, emitCounter = 0,
      heartbeat = 0, statusSource = None\<rparr>]"
    and "extends (heap s) (heap (initGlobalHostEnvironment s))"
    and "knownNodes (initGlobalHostEnvironment s) = knownNodes s"
    and "ipLen (initGlobalHostEnvironment s) = ipLen s"
    and "environ (initGlobalHostEnvironment s) = environ s" and "config (initGlobalHostEnvironment s) = config s"
proof -
  let ?n = "\<lparr>ip = listenIPOf s, port = word_of_int (listenPortOf s), timestamp = now s, address = [],
    pingMillis = PingNoData, status = StatusUnknown, emitCounter = 0, heartbeat = 0, statusSource = None\<rparr>"
  show h: "heap (initGlobalHostEnvironment s) = heap s @ [?n]"
    and t: "thisHost (initGlobalHostEnvironment s) = Some (length (heap s))"
    and "extends (heap s) (heap (initGlobalHostEnvironment s))"
    "knownNodes (initGlobalHostEnvironment s) = knownNodes s"
    "ipLen (initGlobalHostEnvironment s) = ipLen s"
    "environ (initGlobalHostEnvironment s) = environ s" "config (initGlobalHostEnvironment s) = config s"
    by (simp_all add: initGlobalHostEnvironment_def Let_def)
  have "wf_heap (heap s @ [?n])"
    using wf_stateD(1) [OF assms(1)] assms(2) by (intro wf_heap_append) (simp_all add: wf_node_def)
  then have "wf_state (s\<lparr>heap := heap s @ [?n]\<rparr>)" by (intro wf_state_heap assms(1) extends_append)
  then show "wf_state (initGlobalHostEnvironment s)"
    unfolding wf_state_def by (simp add: initGlobalHostEnvironment_def Let_def)
qed

text \<open>
  A host name is \<open>usable\<close> when it parses or resolves to an address that \<open>parseNodeAddress\<close>
  accepts. A name that only resolves to unusable addresses yields a node without an address.
\<close>

definition usable :: "(string \<Rightarrow> IP list option) \<Rightarrow> string \<Rightarrow> smudge \<Rightarrow> bool" where
  "usable lookupIP a s \<longleftrightarrow> (let (i, p, err) = parseNodeAddress lookupIP a s in err = None \<longrightarrow> valid_ip i)"

definition same_config :: "smudge \<Rightarrow> smudge \<Rightarrow> bool" where
  "same_config s t \<longleftrightarrow> environ t = environ s \<and> config t = config s"

lemma same_config_simps [simp]:
  "same_config s s" "same_config s (updateNodeStatus r st hb src s)"
  by (simp_all add: same_config_def)

lemma same_config_trans: "same_config s t \<Longrightarrow> same_config t u \<Longrightarrow> same_config s u"
  by (simp add: same_config_def)

lemma usable_config:
  assumes "same_config s t" shows "usable l a t = usable l a s"
proof -
  have e: "environ t = environ s" "config t = config s" using assms by (simp_all add: same_config_def)
  show ?thesis unfolding usable_def parseNodeAddress_def listenPortOf_def e ..
qed

lemma AddNode_config: "AddNode r s = Inr (q, t) \<Longrightarrow> same_config s t"
  by (auto simp: AddNode_def same_config_def UpdateNodeStatus_def Let_def split: if_splits)

lemma grows_config: "grows s t \<Longrightarrow> same_config s t"
  by (auto elim!: growsE simp: same_config_def)

lemma add_initial_host_ok:
  assumes "wf_state s" and "usable lookupIP a s"
  shows "yields (add_initial_host lookupIP a s) (\<lambda>t. wf_state t \<and> keeps s t \<and> same_config s t)"
proof -
  obtain i p err where pa: "parseNodeAddress lookupIP a s = (i, p, err)" by (cases "parseNodeAddress lookupIP a s") auto
  show ?thesis
  proof (cases err)
    case (Some e)
    then show ?thesis using assms(1) by (simp add: add_initial_host_def CreateNodeByAddress_def pa)
  next
    case None
    then have ip: "valid_ip i" using assms(2) by (simp add: usable_def pa)
    obtain r t where c: "CreateNodeByIP i p s = (r, t)" by fastforce
    have t: "wf_state t" "keeps s t" "r < length (heap t)" "same_config s t"
      using CreateNodeByIP_ok [OF assms(1) ip c] keeps_grows grows_config by auto
    have "add_initial_host lookupIP a s = bindR (AddNode r t) (\<lambda>(q, s). Inr s)"
      using None by (simp add: add_initial_host_def CreateNodeByAddress_def pa c)
    then show ?thesis using keeps_trans [OF t(2)] same_config_trans [OF t(4) AddNode_config]
      by (auto intro!: yields_bind [OF AddNode_keeps [OF t(1,3)]])
  qed
qed

lemma add_initial_hosts_ok:
  assumes "wf_state s" and "\<forall>a \<in> set hosts. usable lookupIP a s"
  shows "yields (foldR (add_initial_host lookupIP) hosts s) (\<lambda>t. wf_state t \<and> keeps s t \<and> same_config s t)"
proof (rule yields_foldR)
  show "wf_state s \<and> keeps s s \<and> same_config s s" using assms(1) by simp
  fix a t assume "a \<in> set hosts" and t: "wf_state t \<and> keeps s t \<and> same_config s t"
  then have "usable lookupIP a t" using assms(2) usable_config by blast
  then have "yields (add_initial_host lookupIP a t) (\<lambda>u. wf_state u \<and> keeps t u \<and> same_config t u)"
    using t by (intro add_initial_host_ok) simp_all
  then show "yields (add_initial_host lookupIP a t) (\<lambda>u. wf_state u \<and> keeps s u \<and> same_config s u)"
    by (rule yields_weaken) (use t keeps_trans same_config_trans in blast)
qed

lemma AddNode_self:
  assumes "wf_state s" and "r < length (heap s)" and "AddNode r s = Inr (q, t)"
  shows "getByAddress (knownNodes t) (addr s r) \<noteq> None"
  using AddNode_keeps [OF assms(1,2)] assms(2,3) keeps_addr [of s t r] by (simp add: contains_iff)

text \<open>The state in which start-up adds this host to the known nodes.\<close>

definition host_up :: "smudge \<Rightarrow> smudge" where
  "host_up s =
     (let s0 = (if To4 (listenIPOf s) = [] then s\<lparr>ipLen := IPv6len\<rparr> else s); r = length (heap s)
      in updateNodeStatus r StatusAlive 0 (Some r) (initGlobalHostEnvironment s0))"

lemma begin_setup_stages:
  "begin_setup lookupIP s = bindR (AddNode (length (heap s)) (host_up s))
     (\<lambda>(q, s). foldR (add_initial_host lookupIP) (initialHostsOf s) s)"
  by (simp add: begin_setup_def host_up_def initGlobalHostEnvironment_def Let_def)

lemma host_up_ok:
  assumes "wf_state s" and "valid_ip (listenIPOf s)"
  shows "wf_state (host_up s)" and "extends (heap s) (heap (host_up s))" and "length (heap s) < length (heap (host_up s))"
    and "thisHost (host_up s) = Some (length (heap s))" and "same_config s (host_up s)"
    and "ipLen (host_up s) = (if To4 (listenIPOf s) = [] then IPv6len else ipLen s)"
    and "addr (host_up s) (length (heap s)) = nodeAddressString (listenIPOf s) (word_of_int (listenPortOf s))"
proof -
  define s0 where "s0 = (if To4 (listenIPOf s) = [] then s\<lparr>ipLen := IPv6len\<rparr> else s)"
  have s0: "wf_state s0" "listenIPOf s0 = listenIPOf s" "listenPortOf s0 = listenPortOf s"
    "same_config s s0" "heap s0 = heap s"
    using assms(1) by (simp_all add: s0_def wf_state_def listenIPOf_def listenPortOf_def same_config_def)
  define s1 where "s1 = initGlobalHostEnvironment s0"
  note i = init_host [OF s0(1), unfolded s0(2,5), OF assms(2), folded s1_def]
  let ?r = "length (heap s)"
  have up: "host_up s = updateNodeStatus ?r StatusAlive 0 (Some ?r) s1" by (simp add: host_up_def s0_def s1_def Let_def)
  have r: "?r < length (heap s1)" using i(3) by simp
  have addr: "addr s1 ?r = nodeAddressString (listenIPOf s) (word_of_int (listenPortOf s))"
    using s0(3) by (simp add: i(3) addressOf_def Address_def)
  show "wf_state (host_up s)" unfolding up using i(1) r by (simp add: wf_state_updateNodeStatus)
  show "extends (heap s) (heap (host_up s))" unfolding up using extends_trans [OF i(4)] by simp
  show "length (heap s) < length (heap (host_up s))" "thisHost (host_up s) = Some (length (heap s))"
    unfolding up using r i(2) by simp_all
  show "same_config s (host_up s)" unfolding up using s0(4) i(7,8) by (simp add: same_config_def)
  show "ipLen (host_up s) = (if To4 (listenIPOf s) = [] then IPv6len else ipLen s)"
    unfolding up using i(6) by (simp add: s0_def)
  show "addr (host_up s) (length (heap s)) = nodeAddressString (listenIPOf s) (word_of_int (listenPortOf s))"
    unfolding up using keeps_addr [OF keeps_updateNodeStatus r] addr by simp
qed

lemma begin_setup_ok:
  assumes "wf_state s" and "valid_ip (listenIPOf s)" and "\<forall>a \<in> set (initialHostsOf s). usable lookupIP a s"
  shows "yields (begin_setup lookupIP s) (\<lambda>t. wf_state t \<and> same_config s t \<and> extends (heap s) (heap t) \<and>
    ipLen t = (if To4 (listenIPOf s) = [] then IPv6len else ipLen s) \<and>
    (\<exists>this. thisHost t = Some this \<and> addr t this = nodeAddressString (listenIPOf s) (word_of_int (listenPortOf s)) \<and>
      getByAddress (knownNodes t) (addr t this) \<noteq> None))"
proof -
  let ?r = "length (heap s)" and ?u = "host_up s"
  note up = host_up_ok [OF assms(1,2)]
  obtain t where add: "AddNode ?r ?u = Inr (?r, t)" and t: "wf_state t" "keeps ?u t"
    using AddNode_keeps [OF up(1,3)] by (auto elim!: yieldsE)
  have known: "getByAddress (knownNodes t) (addr ?u ?r) \<noteq> None" using AddNode_self [OF up(1,3) add] .
  have c: "same_config s t" using same_config_trans [OF up(5) AddNode_config [OF add]] .
  then have hosts: "initialHostsOf t = initialHostsOf s" by (simp add: initialHostsOf_def same_config_def)
  have rest: "yields (foldR (add_initial_host lookupIP) (initialHostsOf s) t) (\<lambda>v. wf_state v \<and> keeps t v \<and> same_config t v)"
    using t(1) assms(3) usable_config [OF c] by (intro add_initial_hosts_ok) simp_all
  show ?thesis unfolding begin_setup_stages add bindR_simps prod.case hosts
  proof (rule yields_weaken [OF rest])
    fix v assume v: "wf_state v \<and> keeps t v \<and> same_config t v"
    have k: "keeps ?u v" using keeps_trans t(2) v by blast
    have addr: "addr v ?r = addr ?u ?r" using keeps_addr [OF k up(3)] .
    have "thisHost v = Some ?r" "ipLen v = ipLen ?u" "extends (heap s) (heap v)"
      using k up(2,4) extends_trans by (auto simp: keeps_def)
    moreover have "getByAddress (knownNodes v) (addr v ?r) \<noteq> None" using known v unfolding addr keeps_def by blast
    ultimately show "wf_state v \<and> same_config s v \<and> extends (heap s) (heap v) \<and>
      ipLen v = (if To4 (listenIPOf s) = [] then IPv6len else ipLen s) \<and>
      (\<exists>this. thisHost v = Some this \<and> addr v this = nodeAddressString (listenIPOf s) (word_of_int (listenPortOf s)) \<and>
        getByAddress (knownNodes v) (addr v this) \<noteq> None)"
      using v up(6,7) addr same_config_trans [OF c] by simp
  qed
qed

section \<open>Well-formedness of the loop\<close>

text \<open>What the loop keeps: nodes and their addresses, this host and the mode. Known nodes may be removed.\<close>

definition persists :: "smudge \<Rightarrow> smudge \<Rightarrow> bool" where
  "persists s t \<longleftrightarrow> extends (heap s) (heap t) \<and> thisHost t = thisHost s \<and> ipLen t = ipLen s"

lemma persists_keeps: "keeps s t \<Longrightarrow> persists s t"
  by (simp add: persists_def keeps_def)

lemma persists_trans: "persists s t \<Longrightarrow> persists t u \<Longrightarrow> persists s u"
  by (auto simp: persists_def intro: extends_trans)

lemma RemoveNode_persists:
  assumes "wf_state s" shows "wf_state (snd (RemoveNode r s)) \<and> persists s (snd (RemoveNode r s))"
proof -
  have "thisHost (snd (RemoveNode r s)) = thisHost s" "ipLen (snd (RemoveNode r s)) = ipLen s"
    by (simp_all add: RemoveNode_def Let_def)
  then show ?thesis using RemoveNode_ok [OF assms, of r] by (simp add: persists_def)
qed

lemma wf_state_retries: "wf_state s \<Longrightarrow> wf_state (s\<lparr>deadNodeRetries := AList.update k d (deadNodeRetries s)\<rparr>)"
  "wf_state s \<Longrightarrow> wf_state (s\<lparr>deadNodeRetries := AList.delete k (deadNodeRetries s)\<rparr>)"
  by (simp_all add: wf_stateD)

lemma dead_backoff_ok:
  assumes "wf_state s"
  shows "wf_state (snd (dead_backoff nd s)) \<and> persists s (snd (dead_backoff nd s))"
proof -
  have p: "persists s (s\<lparr>deadNodeRetries := d\<rparr>)" for d by (simp add: persists_def)
  have "persists s (snd (RemoveNode nd (s\<lparr>deadNodeRetries := AList.delete k (deadNodeRetries s)\<rparr>)))" for k
    by (rule persists_trans [OF p]) (use RemoveNode_persists [OF wf_state_retries(2) [OF assms]] in blast)
  then show ?thesis
    using wf_state_retries [OF assms] RemoveNode_persists [OF wf_state_retries(2) [OF assms]] p
    by (auto simp: dead_backoff_def Let_def)
qed

lemma visit_node_ok:
  assumes "wf_state s" and "nd < length (heap s)"
  shows "ensures (visit_node ch nd s) (\<lambda>(b, t). wf_state t \<and> persists s t)"
proof -
  obtain go u where g: "(if status (node s nd) = StatusDead then dead_backoff nd s else (True, s)) = (go, u)" by fastforce
  have u: "wf_state u" "persists s u"
    using g assms(1) dead_backoff_ok [OF assms(1), of nd] by (auto simp: persists_def split: if_splits)
  let ?u = "u\<lparr>currentHeartbeat := currentHeartbeat u + 1\<rparr>"
  have v: "wf_state ?u" "nd < length (heap ?u)" "persists s ?u"
    using u assms(2) by (auto simp: persists_def intro: less_length_mono)
  have "ensures (bindR (PingNode ch nd ?u) (\<lambda>(err, t). Inr (True, t))) (\<lambda>(b, t). wf_state t \<and> persists s t)"
    using ensuresD [OF ping_ok [OF v(1,2), of ch]] persists_trans [OF v(3) persists_keeps]
    by (auto intro!: ensures_bind)
  then show ?thesis unfolding visit_node_def g Let_def prod.case using u by simp
qed

text \<open>The nodes that are still to be visited in a round are allocated.\<close>

fun loop_ok :: "heap \<Rightarrow> loop \<Rightarrow> bool" where
  "loop_ok h (Going ns c) \<longleftrightarrow> (\<forall>n \<in> set ns. n < length h)"
| "loop_ok h (Asleep ns c) \<longleftrightarrow> (\<forall>n \<in> set ns. n < length h)"
| "loop_ok h l \<longleftrightarrow> True"

lemma loop_ok_mono: "extends h h' \<Longrightarrow> loop_ok h l \<Longrightarrow> loop_ok h' l"
  by (cases l) (auto intro: less_length_mono)

lemma loop_step_ok:
  assumes "wf_state s" and "loop_ok (heap s) l"
  shows "ensures (loop_step ord js ch l s) (\<lambda>(l', t). wf_state t \<and> persists s t \<and> loop_ok (heap t) l')"
proof (cases l)
  case Fresh
  then show ?thesis using assms getRandomNodes_ok [OF wf_stateD(2) [OF assms(1)]]
    by (auto simp: persists_def split: option.splits)
next
  case (Going ns c)
  show ?thesis
  proof (cases ns)
    case Nil
    then show ?thesis using Going assms by (simp add: persists_def)
  next
    case (Cons n ns')
    then have n: "n < length (heap s)" "\<forall>n \<in> set ns'. n < length (heap s)" using Going assms(2) by auto
    show ?thesis unfolding Going Cons loop_step.simps
    proof (rule ensures_bind, clarify)
      fix pinged t assume "visit_node ch n s = Inr (pinged, t)"
      then have t: "wf_state t" "persists s t" using ensuresD [OF visit_node_ok [OF assms(1) n(1)]] by fastforce+
      then have "\<forall>n \<in> set ns'. n < length (heap t)" using n(2) less_length_mono unfolding persists_def by blast
      then show "ensures (Inr (if pinged then Asleep ns' (c + 1) else Going ns' c, t))
          (\<lambda>(l', t). wf_state t \<and> persists s t \<and> loop_ok (heap t) l')" using t by simp
    qed
  qed
next
  case (Asleep ns c)
  then show ?thesis using assms by (simp add: persists_def)
next
  case Lonely
  then show ?thesis using assms by (simp add: persists_def)
qed

section \<open>Properties of start-up and rounds\<close>

text \<open>
  C19. Start-up with a valid listen address and usable initial hosts never panics and leaves a
  well-formed state in which this host is set, has the printed listen address and port, and is known.
  The address mode is IPv6 exactly when the listen address is not an IPv4 one.
\<close>

theorem begin_sets_up_host:
  assumes "wf_state s" and "ipLen s = IPv4len" and "valid_ip (listenIPOf s)"
    and "\<forall>a \<in> set (initialHostsOf s). usable lookupIP a s"
  shows "\<exists>t this. begin_setup lookupIP s = Inr t \<and> wf_state t \<and> thisHost t = Some this \<and>
    addr t this = nodeAddressString (listenIPOf s) (word_of_int (listenPortOf s)) \<and>
    containsByAddress (knownNodes t) (addr t this) \<and>
    (ipLen t = IPv6len \<longleftrightarrow> To4 (listenIPOf s) = [])"
  using begin_setup_ok [OF assms(1,3,4)] assms(2)
  by (auto elim!: yieldsE simp: containsByAddress_def getByAddress_def has_key_iff ip_len_defs)

lemma listen_default: "listenIPOf (init_smudge (\<lambda>_. []) 0) = IPv4 127 0 0 1"
  by (simp add: listenIPOf_def init_smudge_def GetListenIP_def GetPingHistoryFrontload_def initial_props_def Let_def
      getStringVar_def DefaultListenIP_def ParseIP_loopback)

lemma initial_default: "initialHostsOf (init_smudge (\<lambda>_. []) 0) = []"
  by (simp add: initialHostsOf_def init_smudge_def GetInitialHosts_def GetPingHistoryFrontload_def initial_props_def Let_def
      getStringArrayVar_def DefaultInitialHosts_def splitDelimmitedString_def TrimSpace_def)

theorem begin_sets_up_host_witness:
  "\<exists>t this. begin_setup (\<lambda>_. None) (init_smudge (\<lambda>_. []) 0) = Inr t \<and> thisHost t = Some this \<and>
     containsByAddress (knownNodes t) (addr t this)"
proof -
  have "ipLen (init_smudge (\<lambda>_. []) 0) = IPv4len" by (simp add: init_smudge_def Let_def split_beta)
  moreover have "valid_ip (IPv4 127 0 0 1)" by (simp add: valid_ip_def IPv4_def v4InV6Prefix_def ip_len_defs)
  ultimately show ?thesis
    using begin_sets_up_host [OF wf_state_init, of "\<lambda>_. []" 0 "\<lambda>_. None"] listen_default initial_default by auto
qed

lemma fresh_round:
  assumes "wf_state s" and "thisHost s = Some this"
  shows "\<exists>ns. (\<forall>ch. loop_step ord js ch Fresh s = Inr (Going ns 0, s)) \<and> distinct ns \<and>
    (\<forall>r. r \<in> set ns \<longleftrightarrow> getByAddress (knownNodes s) (addr s r) = Some r \<and> addr s r \<noteq> addr s this)"
proof -
  note k = map_ok_keys [OF wf_stateD(2) [OF assms(1)]]
  let ?ns = "filter (\<lambda>n. \<not> excluded (heap s) [this] n) (shuffle js (nodeMap_values ord (knownNodes s)))"
  have "length ?ns \<le> nodeMap_length (knownNodes s)"
    by (rule order_trans [OF length_filter_le]) (simp add: length_values [OF k])
  then have "getRandomNodes ord js (heap s) (knownNodes s) 0 [this] = ?ns"
    by (simp only: getRandomNodes_eq [OF k] wanted_def) simp
  then show ?thesis using assms(2) eligible_filter(2) [OF k, of "[this]" js ord]
    by (auto simp: values_iff [OF k] excluded_iff)
qed

text \<open>
  C18. Every round of the main loop sets out to visit each known node other than this host exactly
  once, whatever the order of the map and the shuffle.
\<close>

theorem round_covers_known_nodes:
  assumes "wf_state s" and "thisHost s = Some this"
  shows "\<exists>ns. loop_step ord js ch Fresh s = Inr (Going ns 0, s) \<and> distinct ns \<and>
    (\<forall>r. r \<in> set ns \<longleftrightarrow> getByAddress (knownNodes s) (addr s r) = Some r \<and> addr s r \<noteq> addr s this)"
  using fresh_round [OF assms, of ord js] by blast

theorem round_covers_known_nodes_witness:
  "\<exists>ns. loop_step [] [] calm Fresh two_hosts = Inr (Going ns 0, two_hosts) \<and> 1 \<in> set ns \<and> 0 \<notin> set ns"
  using round_covers_known_nodes [OF wf_two_hosts, of 0 "[]" "[]" calm] by (auto simp: getByAddress_def)

text \<open>
  A host name that resolves only to unusable addresses, loopback ones or ones of the other
  family, is not reported as an error: \<open>CreateNodeByAddress\<close> succeeds with a node that has no address.
\<close>

theorem unusable_host_accepted:
  assumes "SplitHostPort a = None" and "ParseIP a = []" and "lookupIP a = Some ips"
    and "\<forall>i \<in> set ips. IsLoopback i \<or> (To4 i = [] \<longleftrightarrow> To4 (listenIPOf s) \<noteq> [])"
  shows "\<exists>r t. CreateNodeByAddress lookupIP a s = (Inr r, t) \<and> ip (node t r) = []"
proof -
  have "List.find (\<lambda>i. \<not> IsLoopback i \<and> (To4 (listenIPOf s) \<noteq> [] \<longleftrightarrow> To4 i \<noteq> [])) ips = None"
    using assms(4) by (auto simp: find_None_iff)
  then have "pick_ip (fst (GetListenIP (environ s) (config s))) ips = []"
    by (simp add: pick_ip_def listenIPOf_def)
  then show ?thesis
    using assms(1-3) by (simp add: CreateNodeByAddress_def parseNodeAddress_def CreateNodeByIP_def)
qed

theorem unusable_host_accepted_witness:
  "\<exists>r t. CreateNodeByAddress (\<lambda>_. Some [[127, 0, 0, 1]]) ''localhost'' two_hosts = (Inr r, t) \<and> ip (node t r) = []"
proof -
  have "IsLoopback [127, 0, 0, 1]" by (simp add: IsLoopback_def To4_def ip_len_defs)
  moreover have "SplitHostPort ''localhost'' = None" "ParseIP ''localhost'' = []"
    by code_simp+
  ultimately show ?thesis
    using unusable_host_accepted [of "''localhost''" "\<lambda>_. Some [[127, 0, 0, 1]]" "[[127, 0, 0, 1]]" two_hosts] by simp
qed

end
