(* ===== verification/Multicast.thy ===== *)
theory Multicast
  imports Membership
begin

text \<open>
  Multicast announcements of \<open>src/membership.go\<close>. The interfaces of the machine are a
  parameter, as are the results of resolving, opening and writing. A Go string is a list of bytes;
  the model's strings are lists of 8-bit characters, converted one by one.
\<close>

section \<open>The operations\<close>

definition string_bytes :: "string \<Rightarrow> byte list" where
  "string_bytes cs = map (\<lambda>c. word_of_nat (of_char c)) cs"

definition bytes_string :: "byte list \<Rightarrow> string" where
  "bytes_string bs = map (\<lambda>b. char_of (unat b)) bs"

definition clusterNameOf :: "smudge \<Rightarrow> string" where
  "clusterNameOf s = fst (GetClusterName (environ s) (config s))"

definition multicastPortOf :: "smudge \<Rightarrow> int" where
  "multicastPortOf s = fst (GetMulticastPort (environ s) (config s))"

definition announceIntervalOf :: "smudge \<Rightarrow> int" where
  "announceIntervalOf s = fst (GetMulticastAnnounceIntervalSeconds (environ s) (config s))"

definition defaultIPv4MulticastAddress :: string where "defaultIPv4MulticastAddress = ''224.0.0.0''"
definition defaultIPv6MulticastAddress :: string where "defaultIPv6MulticastAddress = ''[ff02::1]''"

definition decodeMulticastAnnounceBytes :: "gslice \<Rightarrow> (string \<times> gslice \<times> go_error option) outcome" where
  "decodeMulticastAnnounceBytes bytes =
     bindR (sindex bytes 0) (\<lambda>b.
     let nameBytesLen = unat b in
     if nameBytesLen + 1 > length (live bytes)
     then Inr ([], full_slice [], Some (ErrMsg ''Invalid multicast message received''))
     else
       bindR (sslice bytes 1 (nameBytesLen + 1)) (\<lambda>nameBytes.
       let name = bytes_string (live nameBytes) in
       bindR (sslice bytes (nameBytesLen + 1) (length (live bytes))) (\<lambda>msgBytes.
       Inr (name, msgBytes, None))))"

definition encodeMulticastAnnounceBytes :: "smudge \<Rightarrow> byte list outcome" where
  "encodeMulticastAnnounceBytes s =
     (let nameBytes = string_bytes (clusterNameOf s); nameBytesLen = length nameBytes in
      if nameBytesLen > 0xFF
      then Inl (PanicCall (''Cluster name too long: '' @ decimal nameBytesLen @ '' bytes (max 254)''))
      else
        let msg = newMessage verbPing (thisHost s) (currentHeartbeat s) in
        bindR (message_encode (heap s) (ipLen s) msg) (\<lambda>msgBytes.
        let totalByteCount = 1 + nameBytesLen + length msgBytes;
            bytes = replicate totalByteCount 0
        in bindR (setIdx bytes 0 (word_of_nat nameBytesLen)) (\<lambda>bytes.
           let bytes = overwrite bytes 1 nameBytes;
               bytes = overwrite bytes (nameBytesLen + 1) msgBytes
           in Inr bytes)))"

text \<open>\<open>logFatal\<close> only writes to the log, so an impossible address length leaves the address empty.\<close>

definition guessMulticastAddress :: "smudge \<Rightarrow> string \<times> smudge" where
  "guessMulticastAddress s =
     (let s = (if multicastAddress (config s) = [] then
                 (if ipLen s = IPv6len
                  then s\<lparr>config := (config s)\<lparr>multicastAddress := defaultIPv6MulticastAddress\<rparr>\<rparr>
                  else if ipLen s = IPv4len
                  then s\<lparr>config := (config s)\<lparr>multicastAddress := defaultIPv4MulticastAddress\<rparr>\<rparr>
                  else s)
               else s)
      in (multicastAddress (config s), s))"

text \<open>
  An interface is its name and its addresses; the list of addresses is \<open>None\<close> when the
  query fails and an entry is \<open>None\<close> when \<open>net.ParseCIDR\<close> refuses it.
\<close>

type_synonym interface = "string \<times> IP option list option"

definition has_listen_ip :: "smudge \<Rightarrow> interface \<Rightarrow> bool" where
  "has_listen_ip s iface \<longleftrightarrow>
     (case snd iface of
        None \<Rightarrow> False
      | Some addrs \<Rightarrow> list_ex (\<lambda>a. case a of None \<Rightarrow> False | Some i \<Rightarrow> IP_String i = IP_String (listenIPOf s)) addrs)"

definition getListenInterface :: "interface list option \<Rightarrow> smudge \<Rightarrow> go_error + interface" where
  "getListenInterface ifaces s =
     (case ifaces of
        None \<Rightarrow> Inl (ErrMsg ''Could not determine the interface of the listen IP address'')
      | Some is \<Rightarrow>
          (case List.find (has_listen_ip s) is of
             Some iface \<Rightarrow> Inr iface
           | None \<Rightarrow> Inl (ErrMsg ''Could not determine the interface of the listen IP address'')))"

text \<open>The handler of one multicast datagram, started by \<open>listenUDPMulticast\<close>.\<close>

definition receiveMulticast :: "IP \<Rightarrow> gslice \<Rightarrow> smudge \<Rightarrow> smudge outcome" where
  "receiveMulticast addrIP bytes s =
     bindR (decodeMulticastAnnounceBytes bytes) (\<lambda>(name, msgBytes, err).
     case err of
       Some e \<Rightarrow> Inr s
     | None \<Rightarrow>
         if clusterNameOf s = name then
           bindR (decodeMessage addrIP msgBytes s) (\<lambda>(msg, err, s).
           case err of
             None \<Rightarrow> updateStatusesFromMessage msg s
           | Some e \<Rightarrow> Inr s)
         else Inr s)"

text \<open>
  The two listeners up to their read loops, given whether the address resolves and the socket
  opens: the error, or what they listen on. In the loops a datagram is read into a buffer of 2048 bytes.
  A failed read gives no sender address; it is logged and the handler is started all the same.
\<close>

definition listenUDP :: "bool \<Rightarrow> bool \<Rightarrow> int \<Rightarrow> go_error + string" where
  "listenUDP resolved listens prt =
     (let listenAddress = '':'' @ itoa prt in
      if \<not> resolved then Inl ErrNet
      else if \<not> listens then Inl ErrNet
      else Inr listenAddress)"

definition read_buffer :: "byte list \<Rightarrow> gslice" where
  "read_buffer datagram =
     (let n = min 2048 (length datagram)
      in \<lparr>live = take n datagram, spare = replicate (2048 - n) 0\<rparr>)"

definition listenUDP_turn ::
  "choices \<Rightarrow> (IP \<times> byte list) option \<Rightarrow> smudge \<Rightarrow> (go_error option \<times> smudge) outcome" where
  "listenUDP_turn ch rd s =
     (case rd of
        None \<Rightarrow> Inl NilDereference
      | Some (addrIP, datagram) \<Rightarrow> receiveMessageUDP ch addrIP (read_buffer datagram) s)"

definition listenUDPMulticast ::
  "bool \<Rightarrow> bool \<Rightarrow> interface list option \<Rightarrow> int \<Rightarrow> smudge \<Rightarrow> (go_error + string \<times> interface) \<times> smudge" where
  "listenUDPMulticast resolved listens ifaces prt s =
     (let mcaddr = fst (GetMulticastAddress (environ s) (config s));
          (mcaddr, s) = (if mcaddr = [] then guessMulticastAddress s else (mcaddr, s));
          listenAddress = mcaddr @ '':'' @ itoa prt
      in if \<not> resolved then (Inl ErrNet, s)
         else case getListenInterface ifaces s of
           Inl err \<Rightarrow> (Inl err, s)
         | Inr iface \<Rightarrow> if \<not> listens then (Inl ErrNet, s) else (Inr (listenAddress, iface), s))"

definition listenUDPMulticast_turn :: "(IP \<times> byte list) option \<Rightarrow> smudge \<Rightarrow> smudge outcome" where
  "listenUDPMulticast_turn rd s =
     (case rd of
        None \<Rightarrow> receiveMulticast [] (read_buffer []) s
      | Some (addrIP, datagram) \<Rightarrow> receiveMulticast addrIP (read_buffer datagram) s)"

text \<open>
  \<open>multicastAnnounce\<close>: the preamble gives the address to announce on, and each turn of the
  loop sends one announcement and says whether there is another turn.
\<close>

definition announce_address :: "string \<Rightarrow> smudge \<Rightarrow> string \<times> smudge" where
  "announce_address mcaddr s =
     (let (a, s) = (if mcaddr = [] then guessMulticastAddress s else (mcaddr, s))
      in (a @ '':'' @ itoa (multicastPortOf s), s))"

definition announce_once :: "bool \<Rightarrow> bool \<Rightarrow> string \<Rightarrow> smudge \<Rightarrow> (go_error option \<times> bool \<times> smudge) outcome" where
  "announce_once dial write fullAddr s =
     (if \<not> dial then Inr (Some ErrNet, False, s)
      else bindR (encodeMulticastAnnounceBytes s) (\<lambda>msgBytes.
        if \<not> write then Inr (Some ErrNet, False, s)
        else
          let s = s\<lparr>sent := sent s @ [(fullAddr, msgBytes)]\<rparr>
          in Inr (None, announceIntervalOf s > 0, s)))"

text \<open>
  The goroutines that \<open>Begin\<close> starts next to its own loop, with their arguments, in the
  order in which it starts them.
\<close>

datatype service =
    ListenUDP int
  | ListenUDPMulticast int
  | MulticastAnnounce string
  | TimeoutCheckLoop

definition begin_services :: "smudge \<Rightarrow> service list" where
  "begin_services s =
     [ListenUDP (listenPortOf s)] @
     (if fst (GetMulticastEnabled (environ s) (config s))
      then [ListenUDPMulticast (multicastPortOf s), MulticastAnnounce (fst (GetMulticastAddress (environ s) (config s)))]
      else []) @
     [TimeoutCheckLoop]"

section \<open>Lemmas\<close>

lemma bytes_string_bytes [simp]: "bytes_string (string_bytes cs) = cs"
proof -
  have "char_of (unat (word_of_nat (of_char c) :: byte)) = c" for c
  proof -
    have "(of_char c :: nat) \<in> {0..<256}" unfolding range_nat_of_char [symmetric] by (rule rangeI)
    then have "unat (word_of_nat (of_char c) :: byte) = of_char c" by (simp add: unsigned_of_nat take_bit_nat_eq_self)
    then show ?thesis by simp
  qed
  then show ?thesis by (simp add: bytes_string_def string_bytes_def comp_def)
qed

lemma length_string_bytes [simp]: "length (string_bytes cs) = length cs"
  by (simp add: string_bytes_def)

definition announcement :: "string \<Rightarrow> byte list \<Rightarrow> byte list" where
  "announcement name msg = word_of_nat (length name) # string_bytes name @ msg"

lemma encode_announcement:
  assumes "length (clusterNameOf s) \<le> 255"
    and "message_encode (heap s) (ipLen s) (newMessage verbPing (thisHost s) (currentHeartbeat s)) = Inr bs"
  shows "encodeMulticastAnnounceBytes s = Inr (announcement (clusterNameOf s) bs)"
  using assms by (simp add: encodeMulticastAnnounceBytes_def setIdx_def overwrite_def announcement_def Let_def)

lemma decode_announcement:
  assumes "length name \<le> 255"
  shows "decodeMulticastAnnounceBytes \<lparr>live = announcement name bs, spare = sp\<rparr> = Inr (name, \<lparr>live = bs, spare = sp\<rparr>, None)"
proof -
  have "unat (word_of_nat (length name) :: byte) = length name" using assms by (simp add: unsigned_of_nat take_bit_nat_eq_self)
  then show ?thesis
    by (simp add: decodeMulticastAnnounceBytes_def sindex_def sslice_def announcement_def Let_def)
qed

lemma receiveMulticast_ok:
  assumes "wf_state s" and "valid_ip src" and "thisHost s \<noteq> None"
  shows "ensures (receiveMulticast src b s) (\<lambda>t. wf_state t \<and> keeps s t)"
  unfolding receiveMulticast_def
proof (rule ensures_bind, clarify)
  fix name msgBytes err
  have "ensures (bindR (decodeMessage src msgBytes s) (\<lambda>(msg, err, s).
      case err of None \<Rightarrow> updateStatusesFromMessage msg s | Some e \<Rightarrow> Inr s)) (\<lambda>t. wf_state t \<and> keeps s t)"
  proof (rule ensures_bind, clarify)
    fix msg err t assume dec: "decodeMessage src msgBytes s = Inr (msg, err, t)"
    note t = ensuresD [OF decodeMessage_ok [OF assms(1,2)] dec, unfolded prod.case]
    have k: "keeps s t" using t keeps_grows by blast
    show "ensures (case err of None \<Rightarrow> updateStatusesFromMessage msg t | Some e \<Rightarrow> Inr t) (\<lambda>t. wf_state t \<and> keeps s t)"
    proof (cases err)
      case None
      then obtain r where r: "sender msg = Some r" using t by auto
      have "thisHost t \<noteq> None" using k assms(3) by (simp add: keeps_def)
      then have "yields (updateStatusesFromMessage msg t) (\<lambda>u. wf_state u \<and> keeps t u \<and> nodeMap_contains (heap u) (knownNodes u) r)"
        using t r by (intro updateStatuses_ok) auto
      then have "ensures (updateStatusesFromMessage msg t) (\<lambda>t. wf_state t \<and> keeps s t)"
        by (rule ensures_weaken [OF yields_ensures]) (use keeps_trans [OF k] in blast)
      then show ?thesis using None by simp
    next
      case (Some e)
      then show ?thesis using t k by simp
    qed
  qed
  then show "ensures (case err of
       Some e \<Rightarrow> Inr s
     | None \<Rightarrow>
         if clusterNameOf s = name then
           bindR (decodeMessage src msgBytes s) (\<lambda>(msg, err, s).
           case err of None \<Rightarrow> updateStatusesFromMessage msg s | Some e \<Rightarrow> Inr s)
         else Inr s) (\<lambda>t. wf_state t \<and> keeps s t)"
    using assms(1) by (simp split: option.splits)
qed

section \<open>Properties\<close>

lemma ping_encodes:
  assumes "thisHost s = Some this"
  shows "message_encode (heap s) (ipLen s) (newMessage verbPing (thisHost s) (currentHeartbeat s)) =
    Inr (message_image (heap s) (ipLen s) (port (node s this)) (newMessage verbPing (thisHost s) (currentHeartbeat s)))"
  using assms by (intro message_encode_eq) (simp_all add: message_fits_def newMessage_def)

text \<open>
  A multicast announcement can be taken apart again: with a cluster name of at most 255
  bytes the encoder does not panic, and the decoder gives back the cluster name and exactly the bytes of
  the announced message, from a buffer of any capacity.
\<close>

theorem announcement_roundtrip:
  assumes "thisHost s = Some this" and "length (clusterNameOf s) \<le> 255"
  shows "\<exists>bs msg. encodeMulticastAnnounceBytes s = Inr bs \<and>
    message_encode (heap s) (ipLen s) (newMessage verbPing (thisHost s) (currentHeartbeat s)) = Inr msg \<and>
    decodeMulticastAnnounceBytes \<lparr>live = bs, spare = sp\<rparr> = Inr (clusterNameOf s, \<lparr>live = msg, spare = sp\<rparr>, None)"
  using encode_announcement [OF assms(2) ping_encodes [OF assms(1)]] ping_encodes [OF assms(1)]
    decode_announcement [OF assms(2)] by simp

lemma sample_cluster: "clusterNameOf two_hosts = ''smudge''"
  by (simp add: clusterNameOf_def GetClusterName_def two_hosts_def init_smudge_def GetPingHistoryFrontload_def
      initial_props_def Let_def getStringVar_def DefaultClusterName_def)

theorem announcement_roundtrip_witness:
  "\<exists>bs msg. encodeMulticastAnnounceBytes two_hosts = Inr bs \<and>
     decodeMulticastAnnounceBytes \<lparr>live = bs, spare = [0]\<rparr> = Inr (''smudge'', \<lparr>live = msg, spare = [0]\<rparr>, None)"
  using announcement_roundtrip [of two_hosts 0 "[0]"] by (auto simp: sample_cluster)

text \<open>
  Clusters do not mix: an announcement that names another cluster leaves the state of the
  receiver as it was, whatever message it carries.
\<close>

theorem other_cluster_ignored:
  assumes "length name \<le> 255" and "name \<noteq> clusterNameOf s"
  shows "receiveMulticast src \<lparr>live = announcement name msg, spare = sp\<rparr> s = Inr s"
  using decode_announcement [OF assms(1)] assms(2) by (simp add: receiveMulticast_def)

theorem other_cluster_ignored_witness:
  "receiveMulticast [10, 0, 0, 9] \<lparr>live = announcement ''other'' [1, 2, 3], spare = []\<rparr> two_hosts = Inr two_hosts"
  by (rule other_cluster_ignored) (simp_all add: sample_cluster)

text \<open>
  C29. Hosts find each other by multicast: when a host announces itself, any set-up host of the
  same cluster and address mode that receives the announcement ends up with the announcing host, the
  node of the datagram's source address and the stated port, among its known nodes.
\<close>

theorem announcement_discovers_host:
  assumes "thisHost s = Some this" and "port (node s this) \<noteq> 0" and "length (clusterNameOf s) \<le> 255"
    and "wf_state t" and "thisHost t \<noteq> None" and "ipLen t = ipLen s" and "clusterNameOf t = clusterNameOf s" and "valid_ip src"
  shows "\<exists>bs u. encodeMulticastAnnounceBytes s = Inr bs \<and> receiveMulticast src \<lparr>live = bs, spare = sp\<rparr> t = Inr u \<and>
    wf_state u \<and> containsByAddress (knownNodes u) (nodeAddressString src (port (node s this)))"
proof -
  let ?m = "newMessage verbPing (thisHost s) (currentHeartbeat s)"
  obtain msg m v q where enc: "message_encode (heap s) (ipLen t) ?m = Inr msg"
    and dec: "decodeMessage src \<lparr>live = msg, spare = sp\<rparr> t = Inr (m, None, v)"
    and v: "wf_state v" "grows t v" "sender m = Some q" "addr v q = nodeAddressString src (port (node s this))"
    using message_sent [OF assms(4,8), of ?m this "heap s" sp] assms(1,2) by (auto simp: newMessage_def)
  have alloc: "message_alloc (heap v) m" using ensuresD [OF decodeMessage_ok [OF assms(4,8)] dec] by simp
  have "thisHost v \<noteq> None" using grows_same(6) [OF v(2)] assms(5) by simp
  from updateStatuses_ok [OF v(1) alloc v(3) this] obtain u
    where u: "updateStatusesFromMessage m v = Inr u" "wf_state u" "keeps v u" "nodeMap_contains (heap u) (knownNodes u) q"
    by (auto elim!: yieldsE)
  have "addr u q = addr v q" using keeps_addr [OF u(3)] alloc v(3) by (simp add: message_alloc_def)
  then have "containsByAddress (knownNodes u) (nodeAddressString src (port (node s this)))"
    using u(4) v(4) by (simp add: nodeMap_contains_def)
  moreover have "receiveMulticast src \<lparr>live = announcement (clusterNameOf s) msg, spare = sp\<rparr> t = Inr u"
    using decode_announcement [OF assms(3)] assms(7) dec u(1) by (simp add: receiveMulticast_def)
  ultimately show ?thesis
    using encode_announcement [OF assms(3)] enc assms(6) u(2) by auto
qed

theorem announcement_discovers_host_witness:
  "\<exists>bs u. encodeMulticastAnnounceBytes two_hosts = Inr bs \<and>
     receiveMulticast [10, 0, 0, 7] \<lparr>live = bs, spare = []\<rparr> two_hosts = Inr u \<and>
     \<not> containsByAddress (knownNodes two_hosts) ''10.0.0.7:9999'' \<and> containsByAddress (knownNodes u) ''10.0.0.7:9999''"
proof -
  have "nodeAddressString [10, 0, 0, 7] 9999 = ''10.0.0.7:9999''" "valid_ip [10, 0, 0, 7]"
    by (simp_all add: nodeAddressString_def IP_String_def To4_def ip_len_defs decimal.simps digit_char_def char_of_def bit_0 valid_ip_def)
  then show ?thesis
    using announcement_discovers_host [of two_hosts 0 two_hosts "[10, 0, 0, 7]" "[]"]
    by (auto simp: sample_cluster containsByAddress_def has_key_def)
qed

text \<open>
  The listeners do not survive failed or empty reads: a failed read makes the handler of
  either listener panic, and so does an empty multicast datagram.
\<close>

theorem failed_read_panics:
  "listenUDP_turn ch None s = Inl NilDereference \<and> listenUDPMulticast_turn None s = Inl IndexOutOfRange \<and>
   listenUDPMulticast_turn (Some (src, [])) s = Inl IndexOutOfRange"
  by (simp add: listenUDP_turn_def listenUDPMulticast_turn_def receiveMulticast_def read_buffer_def
      decodeMulticastAnnounceBytes_def sindex_def)

text \<open>A cluster name of more than 255 bytes makes every announcement panic.\<close>

theorem long_cluster_name_panics:
  assumes "255 < length (clusterNameOf s)"
  shows "\<exists>text. announce_once True write a s = Inl (PanicCall text)"
  using assms by (simp add: announce_once_def encodeMulticastAnnounceBytes_def)

theorem long_cluster_name_panics_witness:
  "\<exists>text. announce_once True True ''224.0.0.0:9998''
     (two_hosts\<lparr>config := SetClusterName (replicate 256 (CHR ''x'')) (config two_hosts)\<rparr>) = Inl (PanicCall text)"
  by (rule long_cluster_name_panics)
    (simp add: clusterNameOf_def GetClusterName_def SetClusterName_def)

end
