(* ===== verification/Command.thy ===== *)
theory Command
  imports Multicast
begin

text \<open>
  \<open>src/smudge/smudge.go\<close>, the command-line program, up to the loops that \<open>Begin\<close>
  starts. The flags given on the command line, the machine's interface addresses and the resolver
  are parameters. The result is the list of goroutines that \<open>Begin\<close> starts, or \<open>None\<close> when
  the program ends before it. The threshold that the program sets for its log is state of \<open>Log\<close>. The variable \<open>err\<close> of the
  block that creates the initial node shadows the outer one, so a bad initial node is only printed.
\<close>

definition heartbeatMillisOf :: "smudge \<Rightarrow> int" where
  "heartbeatMillisOf s = fst (GetHeartbeatMillis (environ s) (config s))"

record flags =
  f_node :: string
  f_port :: "int option"
  f_hbf :: "int option"

definition configure :: "flags \<Rightarrow> IP \<Rightarrow> smudge \<Rightarrow> smudge" where
  "configure fl a s =
     (let listenPort = (case f_port fl of None \<Rightarrow> listenPortOf s | Some p \<Rightarrow> p);
          heartbeatMillis = (case f_hbf fl of None \<Rightarrow> heartbeatMillisOf s | Some h \<Rightarrow> h);
          s = s\<lparr>config := SetListenPort listenPort (config s)\<rparr>;
          s = s\<lparr>config := SetHeartbeatMillis heartbeatMillis (config s)\<rparr>;
          s = s\<lparr>config := SetListenIP a (config s)\<rparr>
      in if To4 a = [] then s\<lparr>config := SetMaxBroadcastBytes 512 (config s)\<rparr> else s)"

definition main :: "(string \<Rightarrow> IP list option) \<Rightarrow> IP option list option \<Rightarrow> flags \<Rightarrow> smudge \<Rightarrow>
    (service list option \<times> smudge) outcome" where
  "main lookupIP addrs fl s =
     (case GetLocalIP addrs of
        None \<Rightarrow> Inr (None, s)
      | Some a \<Rightarrow>
          let s = configure fl a s in
          bindR (if f_node fl \<noteq> [] then
                   let (n, s) = CreateNodeByAddress lookupIP (f_node fl) s in
                   (case n of
                      Inr r \<Rightarrow> bindR (AddNode r s) (\<lambda>(q, s). Inr s)
                    | Inl err \<Rightarrow> Inr s)
                 else Inr s)
            (\<lambda>s. bindR (begin_setup lookupIP s) (\<lambda>s. Inr (Some (begin_services s), s))))"

section \<open>Lemmas\<close>

lemma configure_same:
  assumes "a \<noteq> []"
  shows "wf_state (configure fl a s) = wf_state s" "ipLen (configure fl a s) = ipLen s"
    "listenIPOf (configure fl a s) = a" "environ (configure fl a s) = environ s"
    "initialHostsOf (configure fl a s) = initialHostsOf s"
    "f_port fl = Some p \<Longrightarrow> p \<noteq> 0 \<Longrightarrow> listenPortOf (configure fl a s) = p"
  using assms
  by (auto simp: configure_def Let_def listenIPOf_def listenPortOf_def GetListenIP_def GetListenPort_def
      SetListenIP_def SetListenPort_def SetHeartbeatMillis_def SetMaxBroadcastBytes_def initialHostsOf_def
      GetInitialHosts_def wf_state_def split: option.splits)

lemma main_node_step:
  assumes "f_node fl \<noteq> []"
  shows "(let (n, s) = CreateNodeByAddress lookupIP (f_node fl) s in
     (case n of Inr r \<Rightarrow> bindR (AddNode r s) (\<lambda>(q, s). Inr s) | Inl err \<Rightarrow> Inr s)) = add_initial_host lookupIP (f_node fl) s"
  by (simp add: add_initial_host_def split: sum.splits prod.splits)

text \<open>
  C39. The command starts a host on the machine's own address: when the interfaces give a valid
  address, the flag names a port, and the initial node and the initial hosts are usable (or cannot
  be parsed at all), the program reaches \<open>Begin\<close> without a panic and listens on that port, and this host is known
  under that address and port.
\<close>

theorem main_starts_host:
  assumes "wf_state s" and "GetLocalIP addrs = Some a" and "valid_ip a" and "f_port fl = Some p" and "p \<noteq> 0"
    and "f_node fl \<noteq> [] \<longrightarrow> usable lookupIP (f_node fl) (configure fl a s)"
    and "\<forall>h \<in> set (initialHostsOf s). usable lookupIP h (configure fl a s)"
  shows "\<exists>svs t this. main lookupIP addrs fl s = Inr (Some svs, t) \<and> ListenUDP p \<in> set svs \<and> wf_state t \<and> thisHost t = Some this \<and>
    addr t this = nodeAddressString a (word_of_int p) \<and> containsByAddress (knownNodes t) (addr t this)"
proof -
  let ?c = "configure fl a s"
  have a: "a \<noteq> []" using assms(3) by (auto simp: valid_ip_def ip_len_defs)
  note c = configure_same [OF a]
  have "wf_state ?c" using assms(1) by (simp add: c(1))
  then have node: "yields (if f_node fl \<noteq> [] then add_initial_host lookupIP (f_node fl) ?c else Inr ?c)
      (\<lambda>t. wf_state t \<and> keeps ?c t \<and> same_config ?c t)"
    using assms(6) add_initial_host_ok [of ?c lookupIP "f_node fl"] by simp
  have body: "main lookupIP addrs fl s = bindR (if f_node fl \<noteq> [] then add_initial_host lookupIP (f_node fl) ?c else Inr ?c)
      (\<lambda>s. bindR (begin_setup lookupIP s) (\<lambda>s. Inr (Some (begin_services s), s)))"
    using assms(2) by (simp add: main_def main_node_step Let_def [of ?c] del: Let_def)
  obtain u where u: "(if f_node fl \<noteq> [] then add_initial_host lookupIP (f_node fl) ?c else Inr ?c) = Inr u"
    "wf_state u" "same_config ?c u" using node by (auto elim!: yieldsE)
  have same: "listenIPOf u = a" "listenPortOf u = p" "initialHostsOf u = initialHostsOf s"
    using u(3) c(3,5) c(6) [OF assms(4,5)] by (simp_all add: same_config_def listenIPOf_def listenPortOf_def initialHostsOf_def)
  have "yields (begin_setup lookupIP u) (\<lambda>t. wf_state t \<and> same_config u t \<and>
    extends (heap u) (heap t) \<and> ipLen t = (if To4 (listenIPOf u) = [] then IPv6len else ipLen u) \<and>
    (\<exists>this. thisHost t = Some this \<and> addr t this = nodeAddressString (listenIPOf u) (word_of_int (listenPortOf u)) \<and>
      getByAddress (knownNodes t) (addr t this) \<noteq> None))"
    using u(2) assms(3,7) same usable_config [OF u(3)] by (intro begin_setup_ok) simp_all
  then obtain t this where t: "begin_setup lookupIP u = Inr t" "wf_state t" "same_config u t" "thisHost t = Some this"
    "addr t this = nodeAddressString a (word_of_int p)" "getByAddress (knownNodes t) (addr t this) \<noteq> None"
    by (auto elim!: yieldsE simp: same)
  have "listenPortOf t = p" using t(3) same(2) by (simp add: same_config_def listenPortOf_def)
  then have "ListenUDP p \<in> set (begin_services t)" by (simp add: begin_services_def)
  then show ?thesis unfolding body u(1) using t by (auto simp: containsByAddress_def getByAddress_def has_key_iff)
qed

theorem main_starts_host_witness:
  "\<exists>svs t this. main (\<lambda>_. None) (Some [Some [127, 0, 0, 1], Some [192, 168, 0, 7]])
     \<lparr>f_node = [], f_port = Some 9000, f_hbf = None\<rparr> (init_smudge (\<lambda>_. []) 0) = Inr (Some svs, t) \<and> ListenUDP 9000 \<in> set svs \<and>
     thisHost t = Some this \<and> addr t this = nodeAddressString [192, 168, 0, 7] 9000"
proof -
  have "GetLocalIP (Some [Some [127, 0, 0, 1], Some [192, 168, 0, 7]]) = Some [192, 168, 0, 7]"
    by (simp add: GetLocalIP_def IsLoopback_def To4_def ip_len_defs)
  moreover have "valid_ip [192, 168, 0, 7]" by (simp add: valid_ip_def ip_len_defs)
  ultimately show ?thesis
    using main_starts_host [OF wf_state_init, of "Some [Some [127, 0, 0, 1], Some [192, 168, 0, 7]]" "[192, 168, 0, 7]"
        "\<lparr>f_node = [], f_port = Some 9000, f_hbf = None\<rparr>" 9000 "\<lambda>_. None" "\<lambda>_. []" 0] initial_default by auto
qed

end
