(* ===== verification/System.thy ===== *)
theory System
  imports Command
begin

text \<open>
  The running program: the state together with the tasks of the goroutines and the position of the main loop, and one step for
  every goroutine turn and every call of an exported function that changes the state. The setters of the configuration are one rule that sets
  any configuration; \<open>BroadcastString\<close> is \<open>BroadcastBytes\<close>; functions that only read, and those of the log, have no rule. \<open>Begin\<close> never
  returns and is called once; a second concurrent call has no rule. Steps interleave in any order. Every
  step is one call of an operation; what the operation meets outside the program (datagrams, clock,
  network results, orders of map traversals, random numbers) is arbitrary. A step whose operation
  panics does not exist: the process ends there.
\<close>

datatype task =
    Starting service
  | Listening string
  | ListeningMulticast string
  | Announcing string
  | CheckingTimeouts

text \<open>
  A goroutine that \<open>Begin\<close> has started first resolves and opens what it needs, and ends when that
  fails; otherwise it enters its loop. The two multicast ones also settle on the address.
\<close>

definition open_service :: "bool \<Rightarrow> bool \<Rightarrow> interface list option \<Rightarrow> service \<Rightarrow> smudge \<Rightarrow> task list \<times> smudge" where
  "open_service resolved listens ifaces sv s =
     (case sv of
        ListenUDP prt \<Rightarrow> ((case listenUDP resolved listens prt of Inl err \<Rightarrow> [] | Inr a \<Rightarrow> [Listening a]), s)
      | ListenUDPMulticast prt \<Rightarrow>
          (case listenUDPMulticast resolved listens ifaces prt s of
             (Inl err, s) \<Rightarrow> ([], s)
           | (Inr (a, iface), s) \<Rightarrow> ([ListeningMulticast a], s))
      | MulticastAnnounce mcaddr \<Rightarrow>
          (let (fullAddr, s) = announce_address mcaddr s in (if resolved then [Announcing fullAddr] else [], s))
      | TimeoutCheckLoop \<Rightarrow> ([CheckingTimeouts], s))"

text \<open>The position of the program: not begun, or the tasks of the goroutines and that of the main loop.\<close>

datatype pc = NotStarted | Running "task list" loop

type_synonym system = "smudge \<times> pc"

definition begun :: "smudge \<Rightarrow> pc" where
  "begun s = Running (map Starting (begin_services s)) Fresh"

text \<open>
  The exported functions take some inputs that they do not check and that spoil the state: a node without a usable
  address, the pseudo status of forwarding requests, a listen address that is none. The relation is indexed by
  the inputs it admits: all of them, or only the sound ones, which are spelled out in the rules.
\<close>

datatype inputs = Sound | Any

text \<open>
  What may happen at any time: the clock advances, and the program that uses the library calls its functions. Pointers that
  it passes were given to it by the library; a nil pointer panics.
\<close>

inductive call :: "inputs \<Rightarrow> smudge \<Rightarrow> smudge \<Rightarrow> bool" for i where
  tick: "clock s \<le> t \<Longrightarrow> call i s (s\<lparr>clock := t\<rparr>)"
| broadcasting: "BroadcastBytes bs s = Inr (err, t) \<Longrightarrow> call i s t"
| creating: "(i = Sound \<longrightarrow> valid_ip a) \<Longrightarrow> CreateNodeByIP a prt s = (r, t) \<Longrightarrow> call i s t"
| creating_by_address: "(i = Sound \<longrightarrow> usable lookupIP a s) \<Longrightarrow> CreateNodeByAddress lookupIP a s = (n, t) \<Longrightarrow> call i s t"
| adding: "r < length (heap s) \<Longrightarrow> AddNode r s = Inr (q, t) \<Longrightarrow> call i s t"
| removing: "r < length (heap s) \<Longrightarrow> RemoveNode r s = (q, t) \<Longrightarrow> call i s t"
| updating: "r < length (heap s) \<Longrightarrow> (i = Sound \<longrightarrow> st \<noteq> StatusForwardTo) \<Longrightarrow> ref_ok (heap s) src \<Longrightarrow>
    call i s (UpdateNodeStatus r st src s)"
| touching: "r < length (heap s) \<Longrightarrow> call i s (modify_node r (Touch (now s)) s)"
| pinging: "r < length (heap s) \<Longrightarrow> PingNode ch r s = Inr (err, t) \<Longrightarrow> call i s t"
| listening: "call i s (AddStatusListener k s)"
| listening_broadcasts: "call i s (AddBroadcastListener k s)"
| configuring: "call i s (s\<lparr>config := c\<rparr>)"

inductive step :: "inputs \<Rightarrow> system \<Rightarrow> system \<Rightarrow> bool" for i where
  called: "call i s t \<Longrightarrow> step i (s, p) (t, p)"
| start: "(i = Sound \<longrightarrow> valid_ip (listenIPOf s) \<and> (\<forall>a \<in> set (initialHostsOf s). usable lookupIP a s)) \<Longrightarrow>
    begin_setup lookupIP s = Inr t \<Longrightarrow> step i (s, NotStarted) (t, begun t)"
| entering: "open_service resolved listens ifaces sv s = (ts, t) \<Longrightarrow>
    step i (s, Running (gs @ Starting sv # hs) l) (t, Running (gs @ ts @ hs) l)"
| main_loop: "loop_step ord js ch l s = Inr (l', t) \<Longrightarrow> step i (s, Running ts l) (t, Running ts l')"
| datagram: "Listening a \<in> set ts \<Longrightarrow> valid_ip src \<Longrightarrow> listenUDP_turn ch (Some (src, d)) s = Inr (err, t) \<Longrightarrow>
    step i (s, Running ts l) (t, Running ts l)"
| announcement_in: "ListeningMulticast a \<in> set ts \<Longrightarrow> valid_ip src \<Longrightarrow>
    listenUDPMulticast_turn (Some (src, d)) s = Inr t \<Longrightarrow> step i (s, Running ts l) (t, Running ts l)"
| announcement_out: "announce_once dial write a s = Inr (err, again, t) \<Longrightarrow>
    step i (s, Running (gs @ Announcing a # hs) l) (t, Running (gs @ (if again then [Announcing a] else []) @ hs) l)"
| timeouts: "CheckingTimeouts \<in> set ts \<Longrightarrow> startTimeoutCheckLoop ord s = Inr t \<Longrightarrow>
    step i (s, Running ts l) (t, Running ts l)"
| forwarding: "spawned s = gs @ DoForwardOnTimeout p # hs \<Longrightarrow>
    doForwardOnTimeout ord js chs p (s\<lparr>spawned := gs @ hs\<rparr>) = Inr t \<Longrightarrow> step i (s, Running ts l) (t, Running ts l)"
| relaying: "spawned s = gs @ TransmitVerbAck r c # hs \<Longrightarrow>
    transmitVerbAckUDP ch r c (s\<lparr>spawned := gs @ hs\<rparr>) = Inr (err, t) \<Longrightarrow> step i (s, Running ts l) (t, Running ts l)"

definition initial :: "environ \<Rightarrow> int \<Rightarrow> system" where
  "initial env t = (init_smudge env t, NotStarted)"

section \<open>Invariants\<close>

text \<open>
  The contract of an invariant of a transition system: it holds initially and every step keeps
  it. A relation that every step satisfies and that composes holds along every run.
\<close>

locale transition_system =
  fixes init :: "'s \<Rightarrow> bool"
    and move :: "'s \<Rightarrow> 's \<Rightarrow> bool"
    and inv :: "'s \<Rightarrow> bool"
    and rel :: "'s \<Rightarrow> 's \<Rightarrow> bool"
  assumes init_inv: "init x \<Longrightarrow> inv x"
    and move_inv: "inv x \<Longrightarrow> move x y \<Longrightarrow> inv y"
    and move_rel: "inv x \<Longrightarrow> move x y \<Longrightarrow> rel x y"
    and rel_refl: "rel x x"
    and rel_trans: "rel x y \<Longrightarrow> rel y z \<Longrightarrow> rel x z"
begin

lemma run_keeps: "move\<^sup>*\<^sup>* x y \<Longrightarrow> inv x \<Longrightarrow> inv y \<and> rel x y"
proof (induction rule: rtranclp_induct)
  case base
  then show ?case by (simp add: rel_refl)
next
  case (step y z)
  then show ?case using move_inv move_rel rel_trans by blast
qed

lemma reachable_inv: "init x \<Longrightarrow> move\<^sup>*\<^sup>* x y \<Longrightarrow> inv y"
  using run_keeps init_inv by blast

end

fun sys_ok :: "system \<Rightarrow> bool" where
  "sys_ok (s, p) \<longleftrightarrow> wf_state s \<and> (case p of NotStarted \<Rightarrow> True | Running ts l \<Rightarrow> loop_ok (heap s) l \<and> thisHost s \<noteq> None)"

text \<open>Pointers and addresses are permanent, and so are this host and the address mode once it runs.\<close>

fun settled :: "system \<Rightarrow> system \<Rightarrow> bool" where
  "settled (s, p) (t, q) \<longleftrightarrow> extends (heap s) (heap t) \<and>
     (p \<noteq> NotStarted \<longrightarrow> q \<noteq> NotStarted \<and> thisHost t = thisHost s \<and> ipLen t = ipLen s)"

lemma settled_persists: "persists s t \<Longrightarrow> settled (s, p) (t, p)"
  by (simp add: persists_def)

lemma sys_ok_persists:
  assumes "sys_ok (s, p)" and "wf_state t" and "persists s t"
  shows "sys_ok (t, p) \<and> settled (s, p) (t, p)"
  using assms loop_ok_mono [of "heap s" "heap t"] by (auto simp: persists_def split: pc.splits)

lemma sys_ok_keeps:
  "sys_ok (s, p) \<Longrightarrow> wf_state t \<and> keeps s t \<Longrightarrow> sys_ok (t, p) \<and> settled (s, p) (t, p)"
  using sys_ok_persists persists_keeps by blast

lemma announce_once_ok:
  assumes "wf_state s"
  shows "ensures (announce_once dial write a s) (\<lambda>(err, again, t). wf_state t \<and> keeps s t)"
  using assms by (auto simp: announce_once_def keeps_def Let_def intro!: ensures_bind)

lemma open_service_ok:
  assumes "wf_state s" and "open_service resolved listens ifaces sv s = (ts, t)"
  shows "wf_state t \<and> persists s t"
  using assms
  by (auto simp: open_service_def listenUDPMulticast_def announce_address_def guessMulticastAddress_def persists_def
      wf_state_def Let_def split: service.splits sum.splits prod.splits if_splits)

lemma wf_state_spawned:
  assumes "wf_state s" and "spawned s = gs @ g # hs"
  shows "wf_state (s\<lparr>spawned := gs @ hs\<rparr>)" and "goroutine_ok (heap s) g"
  using assms by (auto simp: wf_state_def)

lemma run_forward:
  assumes "wf_state s" and "spawned s = gs @ DoForwardOnTimeout p # hs"
    and "doForwardOnTimeout ord js chs p (s\<lparr>spawned := gs @ hs\<rparr>) = Inr t"
  shows "wf_state t \<and> keeps s t"
proof -
  note g = wf_state_spawned [OF assms(1,2)]
  have "pack_ok (heap (s\<lparr>spawned := gs @ hs\<rparr>)) p" using g(2) by (simp add: goroutine_ok_def)
  from ensuresD [OF doForwardOnTimeout_ok [OF g(1) this] assms(3)] show ?thesis
    using keeps_trans [OF keeps_updates(3)] by blast
qed

lemma run_relay:
  assumes "wf_state s" and "spawned s = gs @ TransmitVerbAck r c # hs"
    and "transmitVerbAckUDP ch r c (s\<lparr>spawned := gs @ hs\<rparr>) = Inr (err, t)"
  shows "wf_state t \<and> keeps s t"
proof -
  note g = wf_state_spawned [OF assms(1,2)]
  have "r < length (heap (s\<lparr>spawned := gs @ hs\<rparr>))" using g(2) by (simp add: goroutine_ok_def)
  from ensuresD [OF ack_ok [OF g(1) this] assms(3)] show ?thesis
    using keeps_trans [OF keeps_updates(3)] by auto
qed

lemma listen_ok:
  assumes "wf_state s" and "valid_ip src" and "thisHost s \<noteq> None"
  shows "ensures (listenUDP_turn ch (Some (src, d)) s) (\<lambda>(err, t). wf_state t \<and> keeps s t)"
    and "ensures (listenUDPMulticast_turn (Some (src, d)) s) (\<lambda>t. wf_state t \<and> keeps s t)"
  using receiveMessage_ok [OF assms] receiveMulticast_ok [OF assms]
  by (simp_all add: listenUDP_turn_def listenUDPMulticast_turn_def)

lemma begin_setup_extends:
  assumes "wf_state s" and "valid_ip (listenIPOf s)" and "\<forall>a \<in> set (initialHostsOf s). usable lookupIP a s"
    and "begin_setup lookupIP s = Inr t"
  shows "wf_state t \<and> thisHost t \<noteq> None \<and> extends (heap s) (heap t)"
  using ensuresD [OF yields_ensures [OF begin_setup_ok [OF assms(1-3)]] assms(4)] by auto

lemma CreateNodeByAddress_ok:
  assumes "wf_state s" and "usable lookupIP a s" and "CreateNodeByAddress lookupIP a s = (n, t)"
  shows "wf_state t \<and> grows s t"
proof -
  obtain c p err where pa: "parseNodeAddress lookupIP a s = (c, p, err)" by (cases "parseNodeAddress lookupIP a s") auto
  show ?thesis
  proof (cases err)
    case (Some e)
    then show ?thesis using assms(1,3) by (auto simp: CreateNodeByAddress_def pa)
  next
    case None
    then have "valid_ip c" using assms(2) by (simp add: usable_def pa)
    moreover obtain r where "CreateNodeByIP c p s = (r, t)"
      using None assms(3) by (auto simp: CreateNodeByAddress_def pa split: prod.splits)
    ultimately show ?thesis using CreateNodeByIP_ok [OF assms(1)] by blast
  qed
qed

lemma call_ok:
  assumes "call Sound s t" and "wf_state s"
  shows "wf_state t \<and> persists s t"
  using assms
proof (induction rule: call.induct)
  case (tick s t)
  then show ?case by (auto simp: wf_state_def persists_def)
next
  case (broadcasting bs s err t)
  then show ?case using ensuresD [OF BroadcastBytes_ok broadcasting(1)] using persists_keeps by auto
next
  case (creating a prt s r t)
  then show ?case using CreateNodeByIP_ok [OF creating(3) _ creating(2)] keeps_grows persists_keeps by simp
next
  case (creating_by_address lookupIP a s n t)
  then show ?case using CreateNodeByAddress_ok [of s lookupIP a n t] keeps_grows persists_keeps by simp
next
  case (adding r s q t)
  then show ?case using ensuresD [OF yields_ensures [OF AddNode_keeps] adding(2)] using persists_keeps by auto
next
  case (removing r s q t)
  then show ?case using RemoveNode_persists [of s r] by auto
next
  case (updating r s st src)
  then show ?case using wf_state_updateNodeStatus [of s r st src]
    using persists_keeps by (auto simp: UpdateNodeStatus_def)
next
  case (touching r s)
  then show ?case using wf_state_touch persists_keeps touch_keeps by blast
next
  case (pinging r s ch err t)
  then show ?case using ensuresD [OF ping_ok pinging(2)] using persists_keeps by auto
next
  case (listening s k)
  then show ?case by (auto simp: AddStatusListener_def persists_def wf_state_def)
next
  case (listening_broadcasts s k)
  then show ?case by (auto simp: AddBroadcastListener_def persists_def wf_state_def)
next
  case (configuring s c)
  then show ?case by (auto simp: persists_def wf_state_def)
qed

lemma step_ok:
  assumes "step Sound x y" and "sys_ok x"
  shows "sys_ok y \<and> settled x y"
  using assms
proof (induction rule: step.induct)
  case (called s t p)
  then show ?case using call_ok [OF called(1)] by (intro sys_ok_persists) auto
next
  case (start s lookupIP t)
  then show ?case using begin_setup_extends [of s lookupIP t] by (simp add: begun_def)
next
  case (entering resolved listens ifaces sv s ts t gs hs l)
  then show ?case using open_service_ok [OF _ entering(1)] sys_ok_persists [of s "Running (gs @ Starting sv # hs) l" t] by auto
next
  case (main_loop ord js ch l s l' t ts)
  then show ?case using ensuresD [OF loop_step_ok [of s l] main_loop(1)] by (auto simp: persists_def)
next
  case (datagram a ts src ch d s err t l)
  then show ?case using ensuresD [OF listen_ok(1) datagram(3)] by (intro sys_ok_keeps) auto
next
  case (announcement_in a ts src d s t l)
  then show ?case using ensuresD [OF listen_ok(2) announcement_in(3)] by (intro sys_ok_keeps) auto
next
  case (announcement_out dial wr a s err again t gs hs l)
  then show ?case
    using ensuresD [OF announce_once_ok announcement_out(1)] sys_ok_keeps [of s "Running (gs @ Announcing a # hs) l" t] by auto
next
  case (timeouts ts ord s t l)
  then show ?case using ensuresD [OF yields_ensures [OF timeout_pass_ok] timeouts(2)] by (intro sys_ok_keeps) auto
next
  case (forwarding s gs p hs ord js chs t ts l)
  then show ?case using run_forward by (intro sys_ok_keeps) auto
next
  case (relaying s gs r c hs ch err t ts l)
  then show ?case using run_relay by (intro sys_ok_keeps) auto
qed

interpretation run: transition_system "\<lambda>x. \<exists>env t. x = initial env t" "step Sound" sys_ok settled
proof
  show "settled x z" if "settled x y" "settled y z" for x y z
    using that by (cases x; cases y; cases z) (auto intro: extends_trans)
  show "settled x x" for x by (cases x) simp
qed (auto simp: initial_def wf_state_init dest: step_ok)

text \<open>A program that begins with multicast switched off has no multicast task, then and later.\<close>

fun no_multicast :: "system \<Rightarrow> bool" where
  "no_multicast (s, NotStarted) = False"
| "no_multicast (s, Running ts l) = (\<forall>k \<in> set ts. k \<notin> range Announcing \<union> range ListeningMulticast \<union>
     range (\<lambda>a. Starting (MulticastAnnounce a)) \<union> range (\<lambda>prt. Starting (ListenUDPMulticast prt)))"

lemma open_no_multicast:
  assumes "open_service resolved listens ifaces sv s = (ts, t)" and "no_multicast (s, Running (gs @ Starting sv # hs) l)"
  shows "no_multicast (t, Running (gs @ ts @ hs) l)"
  using assms by (cases sv) (auto simp: open_service_def split: sum.splits)

lemma step_no_multicast: "step i x y \<Longrightarrow> no_multicast x \<Longrightarrow> no_multicast y"
proof (induction rule: step.induct)
  case (called s t p)
  then show ?case by (cases p) simp_all
next
  case (entering resolved listens ifaces sv s ts t gs hs l)
  then show ?case by (rule open_no_multicast)
qed auto

interpretation off: transition_system no_multicast "step i" no_multicast "\<lambda>_ _. True" for i
  by unfold_locales (auto dest: step_no_multicast)

section \<open>Properties\<close>

text \<open>
  C3. Every state that sound inputs reach is well-formed, under every interleaving of the goroutines with
  arbitrary datagrams and API calls: all pointers are allocated, both node maps file every
  node under its own printed address, every pending indirect ping has a callback, broadcasts are filed
  under their labels, no node has the pseudo status of forwarding requests, the ping statistics are in
  order, and once the program runs this host is set and the nodes still to be visited exist. Sound are
  inputs in which nodes are created with a valid IP address or a name that resolves to one, no status is set to the pseudo status of
  forwarding requests, and \<open>Begin\<close> is called with a valid listen address and initial hosts that resolve.
\<close>

theorem reachable_well_formed:
  assumes "(step Sound)\<^sup>*\<^sup>* (initial env t0) (s, p)"
  shows "wf_state s \<and> (case p of NotStarted \<Rightarrow> True | Running ts l \<Rightarrow> loop_ok (heap s) l \<and> thisHost s \<noteq> None)"
  using run.reachable_inv [OF _ assms] by auto

lemma sample_start:
  "\<exists>t. (step Sound)\<^sup>*\<^sup>* (initial (\<lambda>_. []) 0) (t, begun t) \<and> begin_setup (\<lambda>_. None) (init_smudge (\<lambda>_. []) 0) = Inr t"
proof -
  have ip: "valid_ip (listenIPOf (init_smudge (\<lambda>_. []) 0))"
    by (simp add: listen_default valid_ip_def IPv4_def v4InV6Prefix_def ip_len_defs)
  have hosts: "\<forall>a \<in> set (initialHostsOf (init_smudge (\<lambda>_. []) 0)). usable (\<lambda>_. None) a (init_smudge (\<lambda>_. []) 0)"
    by (simp add: initial_default)
  obtain t where t: "begin_setup (\<lambda>_. None) (init_smudge (\<lambda>_. []) 0) = Inr t"
    using begin_setup_ok [OF wf_state_init ip hosts] by (auto elim!: yieldsE)
  then show ?thesis using step.start [of Sound, OF _ t] ip hosts by (auto simp: initial_def)
qed

theorem reachable_well_formed_witness:
  "\<exists>t. (step Sound)\<^sup>*\<^sup>* (initial (\<lambda>_. []) 0) (t, begun t) \<and> wf_state t \<and> thisHost t \<noteq> None"
  using sample_start reachable_well_formed [of "\<lambda>_. []" 0 _ "begun _"] by (fastforce simp: begun_def)

text \<open>
  The restriction to sound inputs is needed: the exported functions accept an address that is none, and one such call is
  enough to leave the well-formed states.
\<close>

theorem unsound_input_spoils_state:
  "\<exists>t. step Any (initial env t0) (t, NotStarted) \<and> \<not> wf_state t"
proof -
  let ?s = "init_smudge env t0"
  obtain r t where t: "CreateNodeByIP [] 0 ?s = (r, t)" by fastforce
  then have "\<exists>n \<in> set (heap t). \<not> wf_node n"
    by (auto simp: CreateNodeByIP_def wf_node_def valid_ip_def ip_len_defs Let_def)
  then have "\<not> wf_state t" by (auto simp: wf_state_def wf_heap_def)
  moreover have "step Any (initial env t0) (t, NotStarted)"
    unfolding initial_def by (rule step.called, rule call.creating [OF _ t]) simp
  ultimately show ?thesis by blast
qed

text \<open>
  C22. Nothing that has an address loses it: with sound inputs, along every run of the program from a reachable
  state, nodes stay allocated and keep their printed address, and once the program runs it keeps
  running with the same node as this host, under the same address, and the same address mode.
\<close>

theorem identities_permanent:
  assumes "(step Sound)\<^sup>*\<^sup>* (initial env t0) (s, p)" and "(step Sound)\<^sup>*\<^sup>* (s, p) (t, q)"
  shows "(\<forall>r < length (heap s). r < length (heap t) \<and> addr t r = addr s r) \<and>
    (p \<noteq> NotStarted \<longrightarrow> q \<noteq> NotStarted \<and> thisHost t = thisHost s \<and> ipLen t = ipLen s)"
proof -
  have "sys_ok (s, p)" using run.reachable_inv [OF _ assms(1)] by blast
  then have "settled (s, p) (t, q)" using run.run_keeps [OF assms(2)] by blast
  then show ?thesis using extends_addressOf [of "heap s" "heap t"] less_length_mono [of "heap s" "heap t"] by auto
qed

theorem identities_permanent_witness:
  "\<exists>t. (step Sound)\<^sup>*\<^sup>* (initial (\<lambda>_. []) 0) (t, begun t) \<and> thisHost t \<noteq> None \<and>
     (\<forall>u q. (step Sound)\<^sup>*\<^sup>* (t, begun t) (u, q) \<longrightarrow> thisHost u = thisHost t)"
proof -
  obtain t where t: "(step Sound)\<^sup>*\<^sup>* (initial (\<lambda>_. []) 0) (t, begun t)" using sample_start by blast
  then have "sys_ok (t, begun t)" using run.reachable_inv by blast
  then show ?thesis using t identities_permanent [OF t] by (intro exI [of _ t]) (auto simp: begun_def)
qed

text \<open>
  In every reachable state of the running program, the periodic timeout pass succeeds, and a
  received datagram that carries enough bytes is decoded without a panic and its gossip and broadcast
  are taken over without a panic.
\<close>

theorem running_program_never_stuck_on_input:
  assumes "(step Sound)\<^sup>*\<^sup>* (initial env t0) (s, Running ts l)" and "valid_ip src" and "enough (ipLen s) b"
  shows "(\<exists>t. startTimeoutCheckLoop ord s = Inr t) \<and>
    (\<exists>msg err u. decodeMessage src b s = Inr (msg, err, u) \<and>
      (err = None \<longrightarrow> (\<exists>v w. updateStatusesFromMessage msg (sync_heartbeat msg u) = Inr v \<and> receiveBroadcast (broadcast msg) v = Inr w)))"
proof -
  have s: "wf_state s" "thisHost s \<noteq> None" using run.reachable_inv [OF _ assms(1)] by auto
  obtain t where "startTimeoutCheckLoop ord s = Inr t" using timeout_pass_ok [OF s(1), of ord] by (auto elim!: yieldsE)
  moreover obtain msg err u where dec: "decodeMessage src b s = Inr (msg, err, u)"
    and u: "wf_state u" "grows s u" "message_alloc (heap u) msg" "err = None \<longrightarrow> sender msg \<noteq> None"
    using decodeMessage_total [OF s(1) assms(2,3)] by (auto elim!: yieldsE)
  moreover have "\<exists>w. absorb msg u = Inr w" if "err = None"
    using u that s(2) grows_same(6) [OF u(2)] absorb_ok [OF u(1,3)] by (auto elim!: yieldsE)
  ultimately show ?thesis unfolding absorb_def by (auto elim!: bindR_InrE)
qed

theorem running_program_never_stuck_on_input_witness:
  "\<exists>t. (step Sound)\<^sup>*\<^sup>* (initial (\<lambda>_. []) 0) (t, begun t) \<and> (\<exists>u. startTimeoutCheckLoop [] t = Inr u)"
proof -
  obtain t where t: "(step Sound)\<^sup>*\<^sup>* (initial (\<lambda>_. []) 0) (t, begun t)" using sample_start by blast
  have "valid_ip [10, 0, 0, 1]" "enough (ipLen t) (full_slice (replicate 11 0))"
    by (simp_all add: valid_ip_def ip_len_defs enough_def)
  from running_program_never_stuck_on_input [OF t [unfolded begun_def] this] show ?thesis using t by blast
qed

text \<open>
  Multicast stays off: when \<open>Begin\<close> finds multicast disabled, the program never listens for
  announcements and never announces itself, whatever the configuration becomes later.
\<close>

theorem multicast_off_silent:
  assumes "\<not> fst (GetMulticastEnabled (environ s) (config s))" and "(step i)\<^sup>*\<^sup>* (s, begun s) (t, Running ts l)"
  shows "Announcing a \<notin> set ts \<and> ListeningMulticast a \<notin> set ts"
proof -
  have "no_multicast (s, begun s)" using assms(1) by (auto simp: begun_def begin_services_def)
  then show ?thesis using off.reachable_inv [OF _ assms(2)] by fastforce
qed

theorem multicast_off_silent_witness:
  "Announcing ''224.0.0.0:9998'' \<notin> set (map Starting (begin_services (two_hosts\<lparr>config := SetMulticastEnabled False (config two_hosts)\<rparr>)))"
  (is "_ \<notin> set (map _ (begin_services ?s))")
proof -
  have "\<not> fst (GetMulticastEnabled (environ ?s) (config ?s))"
    by (simp add: GetMulticastEnabled_def SetMulticastEnabled_def)
  then show ?thesis
    using multicast_off_silent [of ?s Any ?s "map Starting (begin_services ?s)" Fresh "''224.0.0.0:9998''"] by (simp add: begun_def)
qed

end
