(* ===== verification/Protocol.thy ===== *)
theory Protocol
  imports System
begin

text \<open>
  How two hosts talk to each other: a ping is answered by an acknowledgement, and the
  acknowledgement settles the ping. A host that can write the addresses it knows is stopped only by
  datagrams of a few kinds; between hosts of the IPv4 family only by too short ones and by ping requests without members.
\<close>

section \<open>Where decoded nodes come from\<close>

definition grows_by :: "(IP \<Rightarrow> bool) \<Rightarrow> smudge \<Rightarrow> smudge \<Rightarrow> bool" where
  "grows_by Q s t \<longleftrightarrow> (\<exists>ns. t = s\<lparr>heap := heap s @ ns\<rparr> \<and> (\<forall>n \<in> set ns. Q (ip n)))"

lemma grows_by_refl [simp]: "grows_by Q s s"
  by (auto simp: grows_by_def intro!: exI [of _ "[]"])

lemma grows_by_trans:
  assumes "grows_by Q s t" and "grows_by Q t u" shows "grows_by Q s u"
proof -
  obtain ns where ns: "t = s\<lparr>heap := heap s @ ns\<rparr>" "\<forall>n \<in> set ns. Q (ip n)" using assms(1) unfolding grows_by_def by blast
  obtain ms where ms: "u = t\<lparr>heap := heap t @ ms\<rparr>" "\<forall>n \<in> set ms. Q (ip n)" using assms(2) unfolding grows_by_def by blast
  have "u = s\<lparr>heap := heap s @ (ns @ ms)\<rparr> \<and> (\<forall>n \<in> set (ns @ ms). Q (ip n))" using ns ms by auto
  then show ?thesis unfolding grows_by_def by blast
qed

lemma grows_by_ipLen: "grows_by Q s t \<Longrightarrow> ipLen t = ipLen s"
  by (auto simp: grows_by_def)

lemma resolve_by: "resolve a p s = (r, t) \<Longrightarrow> Q a \<Longrightarrow> grows_by Q s t"
  by (auto simp: resolve_def CreateNodeByIP_def grows_by_def split: option.splits intro: exI [of _ "[]"])

definition wire_ok :: "(IP \<Rightarrow> bool) \<Rightarrow> nat \<Rightarrow> bool" where
  "wire_ok Q n \<longleftrightarrow> (\<forall>b p a. read_ip n b p = Inr a \<longrightarrow> Q a)"

lemma decode_member_by:
  assumes "wire_ok Q (ipLen s)"
  shows "ensures (decode_member bytes p s) (\<lambda>(mm, q, t). grows_by Q s t)"
proof -
  have "grows_by Q s u" if "read_ip (ipLen s) bytes i = Inr a" "resolve a x s = (r, t)"
      "read_ip (ipLen t) bytes j = Inr b" "resolve b y t = (q, u)" for i a x r t j b y q u
  proof -
    have t: "grows_by Q s t" using assms that by (intro resolve_by [OF that(2)]) (auto simp: wire_ok_def)
    then have "grows_by Q t u" using assms that grows_by_ipLen [OF t] by (intro resolve_by [OF that(4)]) (auto simp: wire_ok_def)
    with t show ?thesis by (rule grows_by_trans)
  qed
  then show ?thesis unfolding decode_member_def Let_def
    by (auto intro!: ensures_bind split: prod.splits)
qed

lemma decode_members_by:
  assumes "wire_ok Q (ipLen s)"
  shows "ensures (decode_members bytes p ms s) (\<lambda>(ms', t). grows_by Q s t)"
  using assms
proof (induction bytes p ms s rule: decode_members.induct)
  case (1 bytes p ms s)
  show ?case
  proof (cases "p < length (live bytes)")
    case False
    then show ?thesis by (subst decode_members.simps) simp
  next
    case True
    have "ensures (bindR (decode_member bytes p s) (\<lambda>r. decode_members bytes (fst (snd r)) (ms @ [fst r]) (snd (snd r))))
      (\<lambda>(ms', t). grows_by Q s t)"
    proof (rule ensures_bind)
      fix r assume r: "decode_member bytes p s = Inr r"
      obtain mm q t where rt: "r = (mm, q, t)" by (cases r) auto
      have t: "grows_by Q s t" using ensuresD [OF decode_member_by [OF "1.prems"] r] rt by simp
      have "ensures (decode_members bytes (fst (snd r)) (ms @ [fst r]) (snd (snd r))) (\<lambda>(ms', u). grows_by Q (snd (snd r)) u)"
        using "1.prems" grows_by_ipLen [OF t] rt by (intro "1.IH" [OF True r]) simp
      then show "ensures (decode_members bytes (fst (snd r)) (ms @ [fst r]) (snd (snd r))) (\<lambda>(ms', u). grows_by Q s u)"
        by (rule ensures_weaken) (use t rt grows_by_trans in auto)
    qed
    then show ?thesis using True by (subst decode_members.simps) simp
  qed
qed

lemma decodeBroadcast_by:
  assumes "wire_ok Q (ipLen s)"
  shows "ensures (decodeBroadcast bytes s) (\<lambda>(b, err, t). grows_by Q s t)"
  unfolding decodeBroadcast_def Let_def
  by (auto intro!: ensures_bind split: prod.splits option.splits)
    (use assms in \<open>auto simp: wire_ok_def intro: resolve_by\<close>)

lemma decodeMessage_by:
  assumes "wire_ok Q (ipLen s)" and "Q src"
  shows "ensures (decodeMessage src bytes s) (\<lambda>(m, err, t). grows_by Q s t)"
proof -
  have members: "grows_by Q s u" if "resolve src x s = (r, t)" "decodeMembers k mb t = Inr (ms, u)" for x r t k mb ms u
  proof -
    have t: "grows_by Q s t" using that(1) assms(2) by (rule resolve_by)
    then have "grows_by Q t u"
      using assms(1) grows_by_ipLen [OF t] that(2) ensuresD [OF decode_members_by [of Q t mb 0 "[]"]]
      by (auto simp: decodeMembers_def)
    with t show ?thesis by (rule grows_by_trans)
  qed
  have bcast: "grows_by Q s u" if "grows_by Q s t" "decodeBroadcast bb t = Inr (b, err, u)" for t bb b err u
    using that assms(1) grows_by_ipLen [OF that(1)] ensuresD [OF decodeBroadcast_by [of Q t bb] that(2)]
      grows_by_trans [OF that(1)] by simp
  show ?thesis unfolding decodeMessage_def Let_def
    by (auto intro!: ensures_bind split: prod.splits)
      (auto intro: members bcast resolve_by [where Q = Q, OF _ assms(2)] elim!: bindR_InrE split: if_splits)
qed

section \<open>Steps that add no node\<close>

definition stable :: "smudge \<Rightarrow> smudge \<Rightarrow> bool" where
  "stable s t \<longleftrightarrow> extends (heap s) (heap t) \<and> length (heap t) = length (heap s) \<and> ipLen t = ipLen s"

lemma stable_refl [simp]: "stable s s"
  by (simp add: stable_def)

lemma stable_trans: "stable s t \<Longrightarrow> stable t u \<Longrightarrow> stable s u"
  by (auto simp: stable_def intro: extends_trans)

lemma stable_simps [simp]:
  "stable s (updateNodeStatus r st hb src s)" "stable s (s\<lparr>pendingAcks := ps\<rparr>)" "stable s (sync_heartbeat msg s)"
  "stable s (s\<lparr>spawned := gs\<rparr>)" "stable s (s\<lparr>pingdata := pd\<rparr>)"
  by (simp_all add: stable_def sync_heartbeat_def)

lemma stable_tx: "tx_frame s t \<Longrightarrow> stable s t"
  by (simp add: stable_def tx_frame_same)

lemma stable_modify: "(\<And>n. same_id n (f n)) \<Longrightarrow> stable s (modify_node r f s)"
  by (simp add: stable_def extends_modify)

text \<open>The same, with nothing sent, no ping started or settled and no goroutine started.\<close>

definition still :: "smudge \<Rightarrow> smudge \<Rightarrow> bool" where
  "still s t \<longleftrightarrow> stable s t \<and> sent t = sent s \<and> pendingAcks t = pendingAcks s \<and> spawned t = spawned s \<and>
     clock t = clock s \<and> pingdata t = pingdata s"

text \<open>The same, with no broadcast accepted.\<close>

definition silent :: "smudge \<Rightarrow> smudge \<Rightarrow> bool" where
  "silent s t \<longleftrightarrow> still s t \<and> broadcasts t = broadcasts s"

lemma still_stable: "still s t \<Longrightarrow> stable s t"
  by (simp add: still_def)

lemma still_trans: "still s t \<Longrightarrow> still t u \<Longrightarrow> still s u"
  by (auto simp: still_def intro: stable_trans)

lemma silent_refl [simp]: "silent s s"
  by (simp add: silent_def still_def)

lemma silent_trans: "silent s t \<Longrightarrow> silent t u \<Longrightarrow> silent s u"
  by (auto simp: silent_def intro: still_trans)

lemma silent_simps [simp]: "silent s (updateNodeStatus r st hb src s)" "silent s (sync_heartbeat msg s)"
  by (simp_all add: silent_def still_def) (simp add: sync_heartbeat_def)

lemma AddNode_silent:
  assumes "wf_state s" and "r < length (heap s)" and "AddNode r s = Inr (q, t)"
  shows "silent s t"
proof -
  have st: "status (node s r) \<noteq> StatusForwardTo"
    using wf_heap_nth [OF wf_stateD(1)] assms by (auto simp: wf_node_def)
  have "ipLen (prepared r s) = ipLen s" "silent s (s\<lparr>heap := heap (prepared r s)\<rparr>)"
    "broadcasts (prepared r s) = broadcasts s" "sent (prepared r s) = sent s" "pendingAcks (prepared r s) = pendingAcks s"
    "spawned (prepared r s) = spawned s" "clock (prepared r s) = clock s" "pingdata (prepared r s) = pingdata s"
    by (simp_all add: silent_def still_def stable_def) (simp_all add: prepared_def Let_def UpdateNodeStatus_def)
  then show ?thesis using assms(3) AddNode_new [OF _ st]
    by (cases "nodeMap_contains (heap s) (knownNodes s) r") (auto simp: AddNode_known silent_def still_def stable_def)
qed

lemma update_from_member_silent:
  assumes "wf_state s" and "member_alloc (heap s) m" and "update_from_member m s = Inr t"
  shows "silent s t"
proof -
  have "silent s u" if l: "learn_status m s = Inr u" and f: "mm_status m \<noteq> StatusForwardTo" for u
  proof -
    let ?u = "updateNodeStatus (mm_node m) (mm_status m) (mm_heartbeat m) (mm_source m) s"
    have "wf_state ?u" "mm_node m < length (heap ?u)"
      using assms f by (simp_all add: wf_state_updateNodeStatus member_alloc_def)
    then have "silent ?u u" using l AddNode_silent by (auto simp: learn_status_def elim!: bindR_InrE)
    then show ?thesis by (rule silent_trans [OF silent_simps(1)])
  qed
  then show ?thesis using assms(3) by (auto simp: update_from_member_def split: if_splits option.splits)
qed

lemma update_members_silent:
  assumes "wf_state s" and "\<forall>m \<in> set ms. member_alloc (heap s) m" and "thisHost s \<noteq> None"
  shows "ensures (foldR update_from_member ms s) (\<lambda>t. (wf_state t \<and> keeps s t) \<and> silent s t)"
proof (rule ensures_foldR)
  show "(wf_state s \<and> keeps s s) \<and> silent s s" using assms(1) by simp
  fix m t assume m: "m \<in> set ms" and t: "(wf_state t \<and> keeps s t) \<and> silent s t"
  have a: "member_alloc (heap t) m" using m t assms(2) member_alloc_keeps by blast
  have host: "thisHost t \<noteq> None" using t assms(3) by (simp add: keeps_def)
  show "ensures (update_from_member m t) (\<lambda>u. (wf_state u \<and> keeps s u) \<and> silent s u)"
  proof (rule ensures_weaken [OF yields_ensures [OF update_from_member_ok [OF _ a host]]])
    fix u assume u: "update_from_member m t = Inr u" and ok: "wf_state u \<and> keeps t u"
    have "silent t u" using update_from_member_silent [OF _ a u] t by blast
    then show "(wf_state u \<and> keeps s u) \<and> silent s u" using ok t keeps_trans silent_trans by blast
  qed (use t in blast)
qed

lemma updateStatuses_silent:
  assumes "wf_state s" and "message_alloc (heap s) msg" and "sender msg = Some r" and "thisHost s \<noteq> None"
    and "updateStatusesFromMessage msg s = Inr t"
  shows "silent s t"
proof -
  obtain u q where u: "foldR update_from_member (members msg) s = Inr u" and t: "AddNode r (hear_sender msg r u) = Inr (q, t)"
    using assms(5) unfolding updateStatuses_stages [OF assms(3)] by (auto elim!: bindR_InrE)
  have "\<forall>m \<in> set (members msg). member_alloc (heap s) m" using assms(2) by (simp add: message_alloc_def)
  from ensuresD [OF update_members_silent [OF assms(1) this assms(4)] u]
  have ok: "wf_state u" "keeps s u" "silent s u" by auto
  have r: "r < length (heap u)" using ok(2) assms(2,3) keeps_length by (auto simp: message_alloc_def)
  have "wf_state (hear_sender msg r u)" using hear_sender_ok [OF ok(1) r] by blast
  moreover have h: "silent u (hear_sender msg r u)" by (simp add: hear_sender_def)
  ultimately have "silent (hear_sender msg r u) t"
    using AddNode_silent [OF _ _ t] r by (simp add: silent_def still_def stable_def)
  then show ?thesis using silent_trans ok(3) h by blast
qed

lemma receiveBroadcast_still:
  assumes "wf_state s" and "\<And>b. ob = Some b \<Longrightarrow> fresh_broadcast (heap s) b" and "receiveBroadcast ob s = Inr t"
  shows "still s t \<and> heap t = heap s \<and> origins t \<subseteq> origins s \<union> b_origin ` set_option ob"
proof (cases ob)
  case None
  then show ?thesis using assms(3) by (simp add: receiveBroadcast_def still_def)
next
  case (Some b)
  note b = assms(2) [OF Some, unfolded fresh_broadcast_def]
  have wf: "wf_map (broadcasts s)" using wf_stateD(6) [OF assms(1)] by (simp add: broadcasts_ok_def)
  let ?l = "label_of (heap s) (b_origin b) (b_index b)"
  let ?u = "s\<lparr>broadcasts := AList.update ?l (b\<lparr>b_label := ?l\<rparr>) (broadcasts s),
    notified := notified s @ map (\<lambda>k. OnBroadcast k (b\<lparr>b_label := ?l\<rparr>)) (broadcastListeners s)\<rparr>"
  have "still s ?u" "heap ?u = heap s" "still s s" by (simp_all add: still_def stable_def)
  moreover have "origins ?u \<subseteq> insert (b_origin b) (origins s)"
    by (auto simp: origins_def set_update_wf [OF wf] split: if_splits)
  moreover have "t = ?u \<or> t = s"
    using assms(3) b receiveBroadcast_cases [OF assms(1), of b] unfolding Some by (simp split: if_splits)
  ultimately show ?thesis by (auto simp: Some)
qed

lemma absorb_still:
  assumes "wf_state s" and "message_alloc (heap s) msg" and "sender msg = Some r" and "thisHost s \<noteq> None"
    and "absorb msg s = Inr t"
  shows "still s t \<and> origins t \<subseteq> origins s \<union> b_origin ` set_option (broadcast msg)"
proof -
  let ?s = "sync_heartbeat msg s"
  have s: "wf_state ?s" "message_alloc (heap ?s) msg" "thisHost ?s \<noteq> None" using assms by (simp_all add: sync_heartbeat_ok)
  obtain v where v: "updateStatusesFromMessage msg ?s = Inr v" and t: "receiveBroadcast (broadcast msg) v = Inr t"
    using assms(5) unfolding absorb_def by (auto elim!: bindR_InrE)
  have vk: "wf_state v" "keeps ?s v"
    using ensuresD [OF yields_ensures [OF updateStatuses_ok [OF s(1,2) assms(3) s(3)]] v] by auto
  have sv: "silent s v" using silent_trans [OF silent_simps(2) updateStatuses_silent [OF s(1,2) assms(3) s(3) v]] .
  have "\<And>b. broadcast msg = Some b \<Longrightarrow> fresh_broadcast (heap v) b"
    using message_alloc_keeps [OF vk(2) s(2)] by (auto simp: message_alloc_def)
  from receiveBroadcast_still [OF vk(1) this t] have "still v t" "origins t \<subseteq> origins v \<union> b_origin ` set_option (broadcast msg)"
    by auto
  moreover have "origins v = origins s" using sv by (simp add: silent_def origins_def)
  ultimately show ?thesis using sv still_trans by (auto simp: silent_def)
qed

lemma receiveVerbAck_stable:
  assumes "sender msg = Some r"
  shows "ensures (receiveVerbAckUDP msg s) (\<lambda>(err, t). stable s t \<and> broadcasts t = broadcasts s)"
proof (cases "map_of (pendingAcks s) (pack_key s r (senderHeartbeat msg))")
  case None
  then show ?thesis using assms by (simp add: receiveVerbAck_unmatched)
next
  case (Some pack)
  let ?s = "modify_node r (Touch (now s)) s"
  have s: "stable s ?s" by (rule stable_modify) simp
  have nt: "ensures (notePingResponseTime pack ?s) (\<lambda>t. stable ?s t \<and> broadcasts t = broadcasts s)"
    unfolding notePingResponseTime_def Let_def split_beta
    by (intro ensures_bind) (auto intro: stable_trans [OF stable_modify stable_simps(5)] simp: same_id_def)
  then have "ensures (settle_pack pack ?s) (\<lambda>t. stable ?s t \<and> broadcasts t = broadcasts s)"
    by (simp add: settle_pack_def split: option.splits)
  moreover have "stable s (t\<lparr>pendingAcks := ps\<rparr>)" if "stable ?s t" for t ps
    using stable_trans [OF stable_trans [OF s that] stable_simps(2)] .
  ultimately show ?thesis unfolding receiveVerbAck_matched [OF assms Some]
    by (intro ensures_bind) (auto dest: ensuresD)
qed

section \<open>Hosts of one address family\<close>

text \<open>The host runs in IPv4 mode and every node it has heard of has an IPv4 address.\<close>

definition all_v4 :: "smudge \<Rightarrow> bool" where
  "all_v4 s \<longleftrightarrow> ipLen s = IPv4len \<and> (\<forall>n \<in> set (heap s). To4 (ip n) \<noteq> [])"

lemma To4_length: "To4 a \<noteq> [] \<Longrightarrow> length (To4 a) = IPv4len"
  by (auto simp: To4_def ip_len_defs split: if_splits)

lemma all_v4_fits:
  assumes "wf_state s" and "all_v4 s" and "r < length (heap s)" shows "fits (ipLen s) (ip (node s r))"
  using assms wf_heap_nth [OF wf_stateD(1) [OF assms(1)] assms(3)]
  by (simp add: all_v4_def fits_def norm_ip_def wf_node_def To4_length)

lemma all_v4_enc_ok:
  assumes "wf_state s" and "all_v4 s" shows "enc_ok s"
proof -
  have "fits (ipLen s) (ip (node s (b_origin b)))" if "(k, b) \<in> set (broadcasts s)" for k b
    using that wf_stateD(6) [OF assms(1)] by (intro all_v4_fits [OF assms]) (auto simp: broadcasts_ok_def)
  then show ?thesis using assms(2) by (auto simp: enc_ok_def all_v4_def member_ip_def To4_length)
qed

lemma all_v4_stable:
  assumes "stable s t" and "all_v4 s" shows "all_v4 t"
proof -
  have "ip (node t r) = ip (node s r)" if "r < length (heap s)" for r
    using assms(1) that extends_ip_port by (auto simp: stable_def)
  then show ?thesis using assms by (simp add: all_v4_def stable_def all_set_conv_all_nth)
qed

lemma all_v4_grows: "grows_by (\<lambda>a. To4 a \<noteq> []) s t \<Longrightarrow> all_v4 s \<Longrightarrow> all_v4 t"
  by (auto simp: grows_by_def all_v4_def)

lemma wire_v4: "wire_ok (\<lambda>a. To4 a \<noteq> []) IPv4len"
  by (auto simp: wire_ok_def read_ip_def ip_len_defs To4_def IPv4_def v4InV6Prefix_def elim!: bindR_InrE)

text \<open>Sending stays possible when the only new broadcasts come from origins that can be written.\<close>

lemma enc_ok_origins: "enc_ok s \<longleftrightarrow> (\<forall>n \<in> set (heap s). length (member_ip (ipLen s) (ip n)) = ipLen s) \<and>
    (\<forall>r \<in> origins s. fits (ipLen s) (ip (node s r)))"
  by (auto simp: enc_ok_def origins_def)

lemma origins_alloc: "wf_state s \<Longrightarrow> r \<in> origins s \<Longrightarrow> r < length (heap s)"
  using wf_stateD(6) [of s] by (auto simp: origins_def broadcasts_ok_def)

lemma enc_ok_stable:
  assumes "wf_state s" and "stable s t" and "enc_ok s" and "origins t \<subseteq> origins s \<union> X"
    and "\<forall>r \<in> X. r < length (heap s) \<and> fits (ipLen s) (ip (node s r))"
  shows "enc_ok t"
proof -
  have "ip (node t r) = ip (node s r)" if "r < length (heap s)" for r
    using assms(2) that extends_ip_port by (auto simp: stable_def)
  moreover have "r < length (heap s) \<and> fits (ipLen s) (ip (node s r))" if "r \<in> origins t" for r
    using that assms(1,3-5) origins_alloc by (auto simp: enc_ok_origins)
  ultimately show ?thesis using assms(2,3) by (simp add: enc_ok_origins stable_def all_set_conv_all_nth)
qed

lemma enc_ok_grows:
  assumes "wf_state s" and "grows_by (\<lambda>a. length (member_ip (ipLen s) a) = ipLen s) s t" and "enc_ok s"
  shows "enc_ok t"
proof -
  obtain ns where t: "t = s\<lparr>heap := heap s @ ns\<rparr>" and ns: "\<forall>n \<in> set ns. length (member_ip (ipLen s) (ip n)) = ipLen s"
    using assms(2) unfolding grows_by_def by blast
  have "node t r = node s r" if "r \<in> origins s" for r using origins_alloc [OF assms(1) that] by (simp add: t nth_append)
  moreover have "origins t = origins s" by (simp add: t origins_def)
  ultimately show ?thesis using assms(3) ns by (auto simp: enc_ok_origins t)
qed

lemma wire_fits: "n = IPv4len \<or> n = IPv6len \<Longrightarrow> wire_ok (\<lambda>a. length (member_ip n a) = n) n"
  by (auto simp: wire_ok_def read_ip_def ip_len_defs To4_def To16_def IPv4_def v4InV6Prefix_def member_ip_def sslice_def Let_def
      elim!: bindR_InrE split: if_splits)

lemma verb_total:
  assumes "wf_state s" and "enc_ok s" and "thisHost s \<noteq> None" and "message_alloc (heap s) msg" and "sender msg = Some r"
    and "nodeMap_contains (heap s) (knownNodes s) r" and "verb msg = verbPingRequest \<longrightarrow> members msg \<noteq> []"
  shows "yields (receive_verb ch msg s) (\<lambda>(err, t). wf_state t \<and> stable s t \<and> origins t \<subseteq> origins s)"
    (is "yields _ ?Q")
proof -
  obtain this where host: "thisHost s = Some this" using assms(3) by auto
  have r: "r < length (heap s)" using assms(4,5) by (simp add: message_alloc_def)
  have known: "getByAddress (knownNodes s) (addr s r) \<noteq> None" using assms(6) by (simp add: contains_iff)
  have tx: "yields (transmitVerbGenericUDP ch nd None vb c (s\<lparr>pendingAcks := ps\<rparr>)) ?Q"
    if "packs_ok (heap s) ps" "nd < length (heap s)" for nd vb c ps
  proof -
    let ?s = "s\<lparr>pendingAcks := ps\<rparr>"
    have wf: "wf_state ?s" using assms(1) that(1) by simp
    have "yields (transmitVerbGenericUDP ch nd None vb c ?s) (\<lambda>_. True)"
      by (rule transmit_total [OF wf, of this "addr s r"]) (use assms(2) host known in \<open>simp_all add: enc_ok_def\<close>)
    then obtain err t where t: "transmitVerbGenericUDP ch nd None vb c ?s = Inr (err, t)" by (auto elim!: yieldsE)
    have ok: "wf_state t" "tx_frame ?s t" using ensuresD [OF transmit_ok [OF wf] t] that(2) by auto
    have "origins t \<subseteq> origins s" using tx_frame_same(18) [OF ok(2)] by (simp add: origins_def)
    then show ?thesis using t ok stable_trans [OF stable_simps(2) stable_tx [OF ok(2)]] by simp
  qed
  have ack: "yields (transmitVerbAckUDP ch r c s) ?Q" for c
    using tx [of "pendingAcks s" r verbAck c] wf_stateD(5) [OF assms(1)] r by (simp add: transmitVerbAckUDP_def)
  have acked: "yields (receiveVerbAckUDP msg s) ?Q"
    by (rule yields_weaken [OF receiveVerbAck_ok [OF assms(1,5)]])
      (use ensuresD [OF receiveVerbAck_stable [OF assms(5), of s]] in \<open>fastforce simp: origins_def\<close>)
  have fwd: "yields (receiveVerbForwardUDP ch msg s) ?Q" if "verb msg = verbPingRequest"
  proof -
    obtain m ms where m: "members msg = m # ms" using assms(7) \<open>verb msg = verbPingRequest\<close> by (cases "members msg") auto
    then have nd: "mm_node m < length (heap s)" using assms(4) by (simp add: message_alloc_def member_alloc_def)
    have "packs_ok (heap s) (AList.update k \<lparr>startTime = now s, p_node = mm_node m, callback = sender msg,
        callbackCode = mm_heartbeat m, packType = packNFP\<rparr> (pendingAcks s))" for k
      using nd r by (intro packs_ok_update wf_stateD assms(1)) (simp add: pack_ok_def assms(5))
    then show ?thesis using tx [OF _ nd] assms(1) m by (simp add: receiveVerbForwardUDP_def getIdx_def Let_def)
  qed
  show ?thesis using ack acked fwd assms(1,5)
    by (simp add: receive_verb_def receiveVerbPingUDP_def receiveVerbNonForwardPingUDP_def del: verb_defs)
qed

text \<open>
  C20. Which datagrams can stop a host, in both address modes. A running host that can write the
  address of every node and broadcast origin it has heard of handles without a panic every datagram
  that carries enough bytes, comes from an address it can write, is not a ping request without members
  and carries no broadcast whose origin it could not write again; whatever the network does. Afterwards the
  state is well-formed and the host can still write all addresses, so the same holds for the next datagram.
\<close>

theorem host_handles_datagrams:
  assumes "wf_state s" and "enc_ok s" and "thisHost s \<noteq> None"
    and "valid_ip src" and "length (member_ip (ipLen s) src) = ipLen s" and "enough (ipLen s) b"
    and "\<And>msg u. decodeMessage src b s = Inr (msg, None, u) \<Longrightarrow> verb msg = verbPingRequest \<Longrightarrow> members msg \<noteq> []"
    and "\<And>msg u bc. decodeMessage src b s = Inr (msg, None, u) \<Longrightarrow> broadcast msg = Some bc \<Longrightarrow> fits (ipLen s) (ip (node u (b_origin bc)))"
  shows "\<exists>err t. receiveMessageUDP ch src b s = Inr (err, t) \<and> wf_state t \<and> enc_ok t"
proof -
  obtain msg err u where dec: "decodeMessage src b s = Inr (msg, err, u)"
    and u: "wf_state u" "grows s u" "message_alloc (heap u) msg" "err = None \<longrightarrow> sender msg \<noteq> None"
    using decodeMessage_total [OF assms(1,4,6)] by (auto elim!: yieldsE)
  have enc: "enc_ok u"
    using ensuresD [OF decodeMessage_by [OF wire_fits [OF wf_stateD(10) [OF assms(1)]] assms(5)] dec]
    by (intro enc_ok_grows [OF assms(1) _ assms(2)]) simp
  have len: "ipLen u = ipLen s" using grows_same [OF u(2)] by simp
  show ?thesis
  proof (cases err)
    case (Some e)
    then show ?thesis using dec u enc by (simp add: receiveMessage_stages)
  next
    case None
    then obtain r where r: "sender msg = Some r" using u(4) by auto
    have host: "thisHost u \<noteq> None" using grows_same(6) [OF u(2)] assms(3) by simp
    obtain v where v: "absorb msg u = Inr v" "wf_state v" "keeps u v" "nodeMap_contains (heap v) (knownNodes v) r"
      using absorb_ok [OF u(1,3) r host] by (auto elim!: yieldsE)
    note st = absorb_still [OF u(1,3) r host v(1)]
    have "enc_ok v"
      by (rule enc_ok_stable [OF u(1) still_stable [OF conjunct1 [OF st]] enc conjunct2 [OF st]])
        (use u(3) assms(8) dec None len in \<open>auto simp: message_alloc_def fresh_broadcast_def\<close>)
    moreover have "yields (receive_verb ch msg v) (\<lambda>(err, t). wf_state t \<and> stable v t \<and> origins t \<subseteq> origins v)"
      using v r host \<open>enc_ok v\<close> message_alloc_keeps [OF v(3) u(3)] assms(7) [of msg u] dec None
      by (intro verb_total) (auto simp: keeps_def)
    ultimately show ?thesis using dec None v(1) enc_ok_stable [OF v(2), of _ "{}"]
      by (fastforce elim!: yieldsE simp: receiveMessage_stages)
  qed
qed

lemma v4_decoded:
  assumes "wf_state s" and "all_v4 s" and "thisHost s \<noteq> None" and "valid_ip src" and "To4 src \<noteq> []"
    and "decodeMessage src b s = Inr (msg, err, u)"
  shows "wf_state u \<and> all_v4 u \<and> grows s u \<and> message_alloc (heap u) msg \<and> thisHost u \<noteq> None"
proof -
  note u = ensuresD [OF decodeMessage_ok [OF assms(1,4)] assms(6), unfolded prod.case]
  have wire: "wire_ok (\<lambda>a. To4 a \<noteq> []) (ipLen s)" using wire_v4 assms(2) by (simp add: all_v4_def)
  then have "all_v4 u"
    using ensuresD [OF decodeMessage_by [where Q = "\<lambda>a. To4 a \<noteq> []", OF wire assms(5)] assms(6)] assms(2) all_v4_grows by simp
  then show ?thesis using u grows_same(6) [of s u] assms(3) by auto
qed

lemma v4_handled:
  assumes "wf_state s" and "all_v4 s" and "thisHost s \<noteq> None" and "valid_ip src" and "To4 src \<noteq> []"
    and "decodeMessage src b s = Inr (msg, None, u)" and "verb msg = verbPingRequest \<longrightarrow> members msg \<noteq> []"
  obtains v err t where "absorb msg u = Inr v" and "wf_state v" and "receive_verb ch msg v = Inr (err, t)"
    and "receiveMessageUDP ch src b s = Inr (err, t)" and "wf_state t" and "all_v4 t"
proof -
  have u: "wf_state u" "all_v4 u" "grows s u" "message_alloc (heap u) msg" "thisHost u \<noteq> None"
    using v4_decoded [OF assms(1-6)] by simp_all
  obtain r where r: "sender msg = Some r" using ensuresD [OF decodeMessage_ok [OF assms(1,4)] assms(6)] by auto
  obtain v where v: "absorb msg u = Inr v" "wf_state v" "keeps u v" "nodeMap_contains (heap v) (knownNodes v) r"
    using absorb_ok [OF u(1,4) r u(5)] by (auto elim!: yieldsE)
  have v4: "all_v4 v" using all_v4_stable [OF still_stable [OF conjunct1 [OF absorb_still [OF u(1,4) r u(5) v(1)]]] u(2)] .
  then have "yields (receive_verb ch msg v) (\<lambda>(err, t). wf_state t \<and> stable v t \<and> origins t \<subseteq> origins v)"
    using v r u(5) all_v4_enc_ok [OF v(2)] message_alloc_keeps [OF v(3) u(4)] assms(7)
    by (intro verb_total) (auto simp: keeps_def)
  then obtain err t where t: "receive_verb ch msg v = Inr (err, t)" "wf_state t" "stable v t" by (auto elim!: yieldsE)
  then show ?thesis using that [OF v(1,2) t(1)] assms(6) v(1) all_v4_stable [OF t(3) v4] by (simp add: receiveMessage_stages)
qed

text \<open>
  Within one address family no datagram stops a host. A running host in IPv4 mode that has
  heard only of IPv4 nodes handles every datagram from an IPv4 source that carries enough bytes, and
  is not a ping request without members, without a panic, whatever the network does; afterwards
  the state is well-formed and still all nodes are IPv4 ones, so the same holds for the next datagram.
\<close>

theorem ipv4_host_handles_datagrams:
  assumes "wf_state s" and "all_v4 s" and "thisHost s \<noteq> None" and "valid_ip src" and "To4 src \<noteq> []" and "enough (ipLen s) b"
    and "\<And>msg u. decodeMessage src b s = Inr (msg, None, u) \<Longrightarrow> verb msg = verbPingRequest \<Longrightarrow> members msg \<noteq> []"
  shows "\<exists>err t. receiveMessageUDP ch src b s = Inr (err, t) \<and> wf_state t \<and> all_v4 t"
proof -
  obtain msg err u where dec: "decodeMessage src b s = Inr (msg, err, u)"
    using decodeMessage_total [OF assms(1,4,6)] by (auto elim!: yieldsE)
  show ?thesis
  proof (cases err)
    case (Some e)
    then show ?thesis using dec v4_decoded [OF assms(1-5) dec] by (simp add: receiveMessage_stages)
  next
    case None
    then have "verb msg = verbPingRequest \<longrightarrow> members msg \<noteq> []" using dec assms(7) by blast
    from v4_handled [OF assms(1-5) dec [unfolded None] this] show ?thesis by metis
  qed
qed

lemma sample_enough: "enough (ipLen two_hosts) (sample_datagram verbPing)"
  by (simp add: enough_def sample_datagram_def message_image_def payload_image_def header_image_def newMessage_def
      nth_append)

lemma two_hosts_v4: "all_v4 two_hosts" "To4 [10, 0, 0, 2] \<noteq> []"
  by (simp add: all_v4_def) (simp add: To4_def ip_len_defs)

lemma sample_ping: "decodeMessage [10, 0, 0, 2] (sample_datagram verbPing) two_hosts = Inr (msg, None, u) \<Longrightarrow>
    verb msg \<noteq> verbPingRequest"
  using sample_decodes [of verbPing] by auto

theorem host_handles_datagrams_witness:
  "\<exists>err t. receiveMessageUDP calm [10, 0, 0, 2] (sample_datagram verbPing) two_hosts = Inr (err, t) \<and> enc_ok t"
proof -
  have "fits (ipLen two_hosts) (ip (node u (b_origin bc)))"
    if dec: "decodeMessage [10, 0, 0, 2] (sample_datagram verbPing) two_hosts = Inr (msg, None, u)" and "broadcast msg = Some bc"
    for msg u bc
  proof -
    note u = ensuresD [OF decodeMessage_ok [OF wf_two_hosts sample_src] dec, unfolded prod.case]
    have "all_v4 u" using v4_decoded [OF wf_two_hosts two_hosts_v4(1) _ sample_src two_hosts_v4(2) dec] by simp
    moreover have "b_origin bc < length (heap u)" using u that(2) by (auto simp: message_alloc_def fresh_broadcast_def)
    ultimately have "fits (ipLen u) (ip (node u (b_origin bc)))" using u by (intro all_v4_fits) auto
    then show ?thesis using u grows_same [of two_hosts u] by simp
  qed
  moreover have "length (member_ip (ipLen two_hosts) [10, 0, 0, 2]) = ipLen two_hosts"
    by (simp add: member_ip_def To4_def ip_len_defs)
  ultimately show ?thesis
    using host_handles_datagrams [OF wf_two_hosts two_hosts_enc _ sample_src _ sample_enough, of calm] sample_ping by auto
qed

theorem ipv4_host_handles_datagrams_witness:
  "\<exists>err t. receiveMessageUDP calm [10, 0, 0, 2] (sample_datagram verbPing) two_hosts = Inr (err, t) \<and> all_v4 t"
  using ipv4_host_handles_datagrams [OF wf_two_hosts two_hosts_v4(1) _ sample_src two_hosts_v4(2) sample_enough, of calm]
    sample_ping by auto

section \<open>Pings and acknowledgements\<close>

lemma receive_split:
  assumes "wf_state s" and "valid_ip src" and "thisHost s \<noteq> None"
    and "decodeMessage src b s = Inr (msg, None, u)" and "receiveMessageUDP ch src b s = Inr (err, t)"
  obtains r v where "sender msg = Some r" and "r < length (heap u)" and "wf_state v" and "keeps u v"
    and "message_alloc (heap v) msg" and "still u v" and "grows s u" and "receive_verb ch msg v = Inr (err, t)"
proof -
  note u = ensuresD [OF decodeMessage_ok [OF assms(1,2)] assms(4), unfolded prod.case]
  obtain r where r: "sender msg = Some r" using u by auto
  have host: "thisHost u \<noteq> None" using u assms(3) grows_same(6) [of s u] by auto
  obtain v where v: "absorb msg u = Inr v" "receive_verb ch msg v = Inr (err, t)"
    using assms(5) unfolding receiveMessage_stages assms(4) by (auto elim!: bindR_InrE)
  have wf: "wf_state u" "message_alloc (heap u) msg" using u by auto
  have ok: "wf_state v" "keeps u v" using ensuresD [OF yields_ensures [OF absorb_ok [OF wf r host]] v(1)] by auto
  show ?thesis
  proof (rule that [OF r _ ok])
    show "r < length (heap u)" using wf(2) r by (simp add: message_alloc_def)
    show "message_alloc (heap v) msg" using message_alloc_keeps [OF ok(2) wf(2)] .
    show "still u v" using absorb_still [OF wf r host v(1)] by blast
    show "grows s u" using u by simp
  qed (rule v(2))
qed

text \<open>
  The bytes are the encoding of a message of this host with the given verb and heartbeat. The
  encoder ran in the course of the transmission, when emission counters may have been other than at its end.
\<close>

definition emitted :: "smudge \<Rightarrow> node_ref \<Rightarrow> messageVerb \<Rightarrow> uint32 \<Rightarrow> byte list \<Rightarrow> bool" where
  "emitted t this vb code bytes \<longleftrightarrow> (\<exists>h msg. counters_only (heap t) h \<and> message_encode h (ipLen t) msg = Inr bytes \<and>
     verb msg = vb \<and> senderHeartbeat msg = code \<and> sender msg = Some this)"

lemma transmit_emits:
  assumes "wf_state s" and "nd < length (heap s)" and "thisHost s = Some this"
    and "transmitVerbGenericUDP ch nd fwd vb code s = Inr (None, t)"
  shows "\<exists>bytes. sent t = sent s @ [(addr s nd, bytes)] \<and> emitted t this vb code bytes"
proof -
  obtain ns msg h bytes where tr: "transmission nd (start_message fwd vb code s) ns msg h bytes s t"
    using transmit_spec [OF assms(1,2,4)] by blast
  have fr: "tx_frame s t" using ensuresD [OF transmit_ok [OF assms(1,2)] assms(4)] by simp
  then have "counters_only (heap t) h"
    using tr tx_frame_counters [OF fr] by (simp add: transmission_def counters_only_def)
  then have "emitted t this vb code bytes"
    using tr assms(3) start_members [of fwd vb code s] tx_frame_same(3) [OF fr]
    by (auto simp: transmission_def emitted_def)
  then show ?thesis using tr by (auto simp: transmission_def)
qed

text \<open>
  C5. Pings are answered: a host that handles a ping or a non-forwarding ping without an error
  has sent exactly one datagram, to the address of the sender, which is the encoding of an acknowledgement
  from this host that carries the heartbeat of the ping.
\<close>

theorem ping_answered:
  assumes "wf_state s" and "valid_ip src" and "thisHost s = Some this"
    and "decodeMessage src b s = Inr (msg, None, u)" and "verb msg = verbPing \<or> verb msg = verbNonForwardingPing"
    and "receiveMessageUDP ch src b s = Inr (None, t)"
  shows "\<exists>r bytes. sender msg = Some r \<and> sent t = sent s @ [(addr u r, bytes)] \<and>
    emitted t this verbAck (senderHeartbeat msg) bytes"
proof -
  have "thisHost s \<noteq> None" using assms(3) by simp
  from receive_split [OF assms(1,2) this assms(4,6)] obtain r v
    where r: "sender msg = Some r" "r < length (heap u)" and v: "wf_state v" "keeps u v" "message_alloc (heap v) msg"
      "still u v" and g: "grows s u" and rv: "receive_verb ch msg v = Inr (None, t)" by blast
  have tx: "transmitVerbGenericUDP ch r None verbAck (senderHeartbeat msg) v = Inr (None, t)"
    using rv assms(5) r(1)
    by (auto simp: receive_verb_def receiveVerbPingUDP_def receiveVerbNonForwardPingUDP_def transmitVerbAckUDP_def)
  have rl: "r < length (heap v)" using v(3) r(1) by (simp add: message_alloc_def)
  have same: "thisHost v = Some this" "sent v = sent s"
    using v(2,4) g grows_same(3,6,8) [OF g] assms(3) by (simp_all add: keeps_def still_def)
  have "addr v r = addr u r" using keeps_addr [OF v(2) r(2)] .
  then show ?thesis using transmit_emits [OF v(1) rl same(1) tx] r(1) same(2) by auto
qed

lemma length_alist_update: "length (AList.update k v xs) \<le> Suc (length xs)"
  by (induction xs) auto

lemma AddNode_size: "AddNode r s = Inr (q, t) \<Longrightarrow> nodeMap_length (knownNodes t) \<le> Suc (nodeMap_length (knownNodes s))"
  by (auto simp: AddNode_def Let_def UpdateNodeStatus_def ins_node_def nodeMap_add_def nodeMap_length_def length_alist_update
      split: if_splits)

lemma receiveBroadcast_known: "receiveBroadcast b s = Inr t \<Longrightarrow> knownNodes t = knownNodes s"
  by (auto simp: receiveBroadcast_def doBroadcastUpdate_eq Let_def elim!: bindR_InrE split: option.splits if_splits prod.splits)

lemma update_members_size:
  "foldR update_from_member ms s = Inr t \<Longrightarrow> nodeMap_length (knownNodes t) \<le> nodeMap_length (knownNodes s) + length ms"
proof (induction ms arbitrary: s)
  case (Cons m ms)
  then obtain u where u: "update_from_member m s = Inr u" "foldR update_from_member ms u = Inr t" by (auto elim!: bindR_InrE)
  have "nodeMap_length (knownNodes u) \<le> Suc (nodeMap_length (knownNodes s))"
    using u(1) by (auto simp: update_from_member_def learn_status_def elim!: bindR_InrE dest!: AddNode_size split: if_splits option.splits)
  then show ?case using Cons.IH [OF u(2)] by simp
qed simp

lemma absorb_size:
  assumes "absorb msg s = Inr t" and "sender msg = Some r"
  shows "nodeMap_length (knownNodes t) \<le> nodeMap_length (knownNodes s) + length (members msg) + 1"
proof -
  obtain u q v where "foldR update_from_member (members msg) (sync_heartbeat msg s) = Inr u"
    and "AddNode r (hear_sender msg r u) = Inr (q, v)" and "receiveBroadcast (broadcast msg) v = Inr t"
    using assms unfolding absorb_def updateStatuses_stages [OF assms(2)] by (auto elim!: bindR_InrE)
  then show ?thesis using update_members_size AddNode_size receiveBroadcast_known
    by (fastforce simp: hear_sender_def sync_heartbeat_def split: if_splits)
qed

text \<open>On a working network the verbs return no error as long as the cluster is not too large.\<close>

lemma verb_no_error:
  assumes "wf_state s" and "message_alloc (heap s) msg" and "sender msg = Some r" and "dial_ok ch" and "write_ok ch"
    and "pingRequestCount s \<le> 62" and "receive_verb ch msg s = Inr (err, t)"
  shows "err = None"
proof -
  have "transmitVerbGenericUDP ch nd None vb c (s\<lparr>pendingAcks := ps\<rparr>) = Inr (err, t) \<Longrightarrow> packs_ok (heap s) ps \<Longrightarrow> err = None"
    for nd vb c ps
    using assms(1,4-6) by (intro transmit_error [where s = "s\<lparr>pendingAcks := ps\<rparr>"]) (auto simp: pingRequestCount_def)
  note tx = this this [of _ _ _ "pendingAcks s"]
  have r: "r < length (heap s)" using assms(2,3) by (simp add: message_alloc_def)
  have packs: "packs_ok (heap s) (pendingAcks s)" using wf_stateD(5) [OF assms(1)] .
  have "pack_ok (heap s) \<lparr>startTime = now s, p_node = mm_node m, callback = Some r, callbackCode = mm_heartbeat m, packType = packNFP\<rparr>"
    if "m \<in> set (members msg)" for m
    using that r assms(2) by (simp add: pack_ok_def message_alloc_def member_alloc_def)
  note new = packs_ok_update [OF packs this]
  have "\<forall>s'. receiveVerbAckUDP msg s = Inr (err, s') \<longrightarrow> err = None"
    using receiveVerbAck_ok [OF assms(1,3)] by (auto elim!: yieldsE)
  then show ?thesis using assms(3,7) tx new packs
    by (auto simp: receive_verb_def receiveVerbPingUDP_def receiveVerbNonForwardPingUDP_def transmitVerbAckUDP_def
        receiveVerbForwardUDP_def getIdx_def Let_def elim!: bindR_InrE split: if_splits)
qed

lemma v4_handled_calm:
  assumes "wf_state s" and "all_v4 s" and "thisHost s \<noteq> None" and "valid_ip src" and "To4 src \<noteq> []"
    and "decodeMessage src b s = Inr (msg, None, u)" and "verb msg = verbPingRequest \<longrightarrow> members msg \<noteq> []"
    and "nodeMap_length (knownNodes s) + length (members msg) < 10"
  shows "\<exists>t. receiveMessageUDP calm src b s = Inr (None, t) \<and> wf_state t \<and> all_v4 t"
proof -
  obtain v err t where v: "absorb msg u = Inr v" "wf_state v" "receive_verb calm msg v = Inr (err, t)"
    and t: "receiveMessageUDP calm src b s = Inr (err, t)" "wf_state t" "all_v4 t"
    using v4_handled [OF assms(1-7)] by blast
  note u = v4_decoded [OF assms(1-6)]
  obtain r where r: "sender msg = Some r" using ensuresD [OF decodeMessage_ok [OF assms(1,4)] assms(6)] by auto
  have k: "keeps u v" "nodeMap_contains (heap v) (knownNodes v) r"
    using ensuresD [OF yields_ensures [OF absorb_ok [OF _ _ r]] v(1)] u by auto
  have "nodeMap_length (knownNodes v) \<le> 10" using absorb_size [OF v(1) r] grows_same [of s u] u assms(8) by simp
  moreover have "0 < nodeMap_length (knownNodes v)" using k(2) by (auto simp: contains_iff getByAddress_def nodeMap_length_def)
  ultimately have "pingRequestCount v \<le> 62"
    using log_count_mono [of "nodeMap_length (knownNodes v)" 10] by (simp add: pingRequestCount_def)
  then have "err = None"
    using verb_no_error [OF v(2) _ r _ _ _ v(3)] u message_alloc_keeps [OF k(1)] by (simp add: calm_def)
  then show ?thesis using t by blast
qed

lemma sample_ping_received:
  "\<exists>t. receiveMessageUDP calm [10, 0, 0, 2] (sample_datagram verbPing) two_hosts = Inr (None, t)"
proof -
  obtain msg u where dec: "decodeMessage [10, 0, 0, 2] (sample_datagram verbPing) two_hosts = Inr (msg, None, u)"
    and "verb msg = verbPing" "members msg = []" using sample_decodes [of verbPing] by auto
  then show ?thesis
    using v4_handled_calm [OF wf_two_hosts two_hosts_v4(1) _ sample_src two_hosts_v4(2) dec] by (auto simp: nodeMap_length_def)
qed

theorem ping_answered_witness:
  "\<exists>t bytes to. receiveMessageUDP calm [10, 0, 0, 2] (sample_datagram verbPing) two_hosts = Inr (None, t) \<and>
     sent t = [(to, bytes)]"
proof -
  obtain msg u where dec: "decodeMessage [10, 0, 0, 2] (sample_datagram verbPing) two_hosts = Inr (msg, None, u)"
    and m: "verb msg = verbPing" using sample_decodes [of verbPing] by auto
  obtain t where t: "receiveMessageUDP calm [10, 0, 0, 2] (sample_datagram verbPing) two_hosts = Inr (None, t)"
    using sample_ping_received by blast
  show ?thesis using ping_answered [OF wf_two_hosts sample_src _ dec _ t, of 0] m t by auto
qed

text \<open>
  Acknowledgements settle pings: when a host has handled an acknowledgement, no ping of that
  sender with that heartbeat is pending any more.
\<close>

theorem ack_received_settles:
  assumes "wf_state s" and "valid_ip src" and "thisHost s \<noteq> None"
    and "decodeMessage src b s = Inr (msg, None, u)" and "verb msg = verbAck" and "sender msg = Some r"
    and "receiveMessageUDP ch src b s = Inr (err, t)"
  shows "err = None \<and> map_of (pendingAcks t) (pack_key u r (senderHeartbeat msg)) = None"
proof -
  from receive_split [OF assms(1-4,7)] obtain q v
    where q: "sender msg = Some q" "q < length (heap u)" and v: "wf_state v" "keeps u v"
      and rv: "receive_verb ch msg v = Inr (err, t)" by blast
  then have "receiveVerbAckUDP msg v = Inr (err, t)" using assms(5) by (simp add: receive_verb_def)
  moreover have "pack_key v r c = pack_key u r c" for c
    using keeps_addr [OF v(2)] q assms(6) by (simp add: pack_key_def)
  ultimately show ?thesis
    using ensuresD [OF yields_ensures [OF receiveVerbAck_ok [OF v(1) assms(6)]]] by fastforce
qed

theorem ack_received_settles_witness:
  "\<exists>msg u r t. decodeMessage [10, 0, 0, 2] (sample_datagram verbAck) two_hosts = Inr (msg, None, u) \<and>
     receiveMessageUDP calm [10, 0, 0, 2] (sample_datagram verbAck) two_hosts = Inr (None, t) \<and>
     map_of (pendingAcks t) (pack_key u r 9) = None"
proof -
  obtain msg u r where dec: "decodeMessage [10, 0, 0, 2] (sample_datagram verbAck) two_hosts = Inr (msg, None, u)"
    and m: "verb msg = verbAck" "sender msg = Some r" "senderHeartbeat msg = 9"
    using sample_decodes [of verbAck] by auto
  obtain t where t: "receiveMessageUDP calm [10, 0, 0, 2] (sample_datagram verbAck) two_hosts = Inr (None, t)"
    using sample_ack_received by blast
  show ?thesis using ack_received_settles [OF wf_two_hosts sample_src _ dec m(1,2) t] dec t m(3) by auto
qed

end
