(* ===== verification/Gossip.thy ===== *)
theory Gossip
  imports Protocol
begin

text \<open>
  What the gossip of \<open>src/membership.go\<close> is for: every host keeps a table of statuses
  and heartbeats by address. The table of a state is its \<open>view\<close>. The specification is two
  operations on tables, \<open>merge\<close> for a piece of news and \<open>heard\<close> for the sender of a
  message; the handlers on the heap of nodes refine them.
\<close>

section \<open>The specification\<close>

type_synonym table = "string \<rightharpoonup> NodeStatus \<times> uint32"
type_synonym news = "string \<times> NodeStatus \<times> uint32"

definition current :: "table \<Rightarrow> string \<Rightarrow> NodeStatus \<times> uint32" where
  "current v a = (case v a of None \<Rightarrow> (StatusUnknown, 0) | Some e \<Rightarrow> e)"

fun merge :: "string \<Rightarrow> news \<Rightarrow> table \<Rightarrow> table" where
  "merge self (a, st, hb) v =
     (if hb < snd (current v a) \<or> st = StatusForwardTo \<or> (st = StatusDead \<and> a = self) then v
      else v(a \<mapsto> (if st = StatusUnknown \<and> v a = None then StatusAlive else st,
                    if st = fst (current v a) then snd (current v a) else hb)))"

definition heard :: "string \<Rightarrow> uint32 \<Rightarrow> table \<Rightarrow> table" where
  "heard a hb v =
     (case v a of
        None \<Rightarrow> v(a \<mapsto> (StatusAlive, hb))
      | Some (st, old) \<Rightarrow>
          if old < hb then v(a \<mapsto> (StatusAlive, if st = StatusAlive then old else hb)) else v)"

section \<open>The abstraction\<close>

definition view :: "smudge \<Rightarrow> table" where
  "view s a = map_option (\<lambda>r. (status (node s r), heartbeat (node s r))) (getByAddress (knownNodes s) a)"

definition news_of :: "smudge \<Rightarrow> messageMember \<Rightarrow> news" where
  "news_of s m = (addr s (mm_node m), mm_status m, mm_heartbeat m)"

text \<open>
  A pointer is canonical when it points to the known node of its address, or to a new node of
  an address that is not known. The decoder makes only such pointers (for nodes with a port).
\<close>

definition canonical :: "smudge \<Rightarrow> node_ref \<Rightarrow> bool" where
  "canonical s r \<longleftrightarrow> (case getByAddress (knownNodes s) (addr s r) of
     None \<Rightarrow> status (node s r) = StatusUnknown \<and> heartbeat (node s r) = 0
   | Some q \<Rightarrow> q = r)"

lemma canonical_current:
  "canonical s r \<Longrightarrow> current (view s) (addr s r) = (status (node s r), heartbeat (node s r))"
  by (auto simp: canonical_def current_def view_def split: option.splits)

lemma canonical_other:
  assumes "wf_state s" and "canonical s r" and "getByAddress (knownNodes s) a = Some q" and "a \<noteq> addr s r"
  shows "q \<noteq> r"
  using assms map_ok_lookup [OF wf_stateD(2) [OF assms(1)] assms(3)] by auto

text \<open>A state that differs from another at one node, which it knows.\<close>

lemma view_update:
  assumes "wf_state s" and "canonical s r"
    and "\<And>k. getByAddress (knownNodes t) k = (if k = addr s r then Some r else getByAddress (knownNodes s) k)"
    and "\<And>q. q \<noteq> r \<Longrightarrow> node t q = node s q"
  shows "view t = (view s)(addr s r \<mapsto> (status (node t r), heartbeat (node t r)))"
proof
  fix a
  show "view t a = ((view s)(addr s r \<mapsto> (status (node t r), heartbeat (node t r)))) a"
    using assms(3) [of a] assms(4) canonical_other [OF assms(1,2), of a]
    by (cases "getByAddress (knownNodes s) a") (auto simp: view_def)
qed

lemma AddNode_lookup:
  assumes "wf_state s" and "r < length (heap s)" and "AddNode r s = Inr (q, t)"
  shows "getByAddress (knownNodes t) k =
    (if k = addr s r \<and> getByAddress (knownNodes s) k = None then Some r else getByAddress (knownNodes s) k)"
proof (cases "nodeMap_contains (heap s) (knownNodes s) r")
  case True
  then show ?thesis using assms(3) by (auto simp: AddNode_known contains_iff)
next
  case False
  have st: "status (node s r) \<noteq> StatusForwardTo"
    using wf_heap_nth [OF wf_stateD(1)] assms by (auto simp: wf_node_def)
  have "addr (prepared r s) r = addr s r" using assms(2) by (simp add: extends_addressOf [OF prepared_simps(3)])
  then show ?thesis using False assms(3) AddNode_new [OF False st] by (auto simp: reg.look_ins contains_iff)
qed

section \<open>Refinement of the handlers\<close>

text \<open>What updating and adding a canonical node does to the table, and to other canonical nodes.\<close>

definition filed :: "smudge \<Rightarrow> node_ref \<Rightarrow> smudge \<Rightarrow> bool" where
  "filed s r t \<longleftrightarrow> wf_state t \<and> keeps s t \<and>
     (\<forall>k. getByAddress (knownNodes t) k = (if k = addr s r then Some r else getByAddress (knownNodes s) k)) \<and>
     (\<forall>q. q \<noteq> r \<longrightarrow> node t q = node s q)"

lemma filed_view:
  "wf_state s \<Longrightarrow> canonical s r \<Longrightarrow> filed s r t \<Longrightarrow>
     view t = (view s)(addr s r \<mapsto> (status (node t r), heartbeat (node t r)))"
  by (rule view_update) (simp_all add: filed_def)

lemma filed_canonical:
  assumes "filed s r t" and "canonical s q" and "q < length (heap s)" and "addr s q \<noteq> addr s r"
  shows "canonical t q"
proof -
  have "addr t q = addr s q" using assms(1,3) keeps_addr by (simp add: filed_def)
  moreover have "node t q = node s q" using assms(1,4) by (auto simp: filed_def)
  ultimately show ?thesis using assms by (simp add: canonical_def filed_def split: option.splits)
qed

lemma add_updated:
  assumes "wf_state s" and "canonical s r" and "r < length (heap s)" and "st \<noteq> StatusForwardTo" and "ref_ok (heap s) src"
  shows "\<exists>q t. AddNode r (updateNodeStatus r st hb src s) = Inr (q, t) \<and> filed s r t \<and>
    heartbeat (node t r) = (if status (node s r) = st then heartbeat (node s r) else hb) \<and>
    status (node t r) = (if st = StatusUnknown \<and> view s (addr s r) = None then StatusAlive else st)"
proof -
  let ?u = "updateNodeStatus r st hb src s"
  have u: "wf_state ?u" "r < length (heap ?u)" using assms by (simp_all add: wf_state_updateNodeStatus)
  obtain q t where add: "AddNode r ?u = Inr (q, t)" and t: "wf_state t" "keeps ?u t"
    using AddNode_keeps [OF u] by (auto elim!: yieldsE)
  have a: "addr ?u r = addr s r" using assms(3) by (simp add: extends_addressOf [OF updateNodeStatus_extends])
  note n = updateNodeStatus_node [OF assms(3), of st hb src] AddNode_nodes [OF u add]
  have "getByAddress (knownNodes t) k = (if k = addr s r then Some r else getByAddress (knownNodes s) k)" for k
    using AddNode_lookup [OF u add, of k] a assms(2) by (auto simp: canonical_def split: option.splits)
  then have "filed s r t" using t keeps_trans [OF keeps_updateNodeStatus t(2)] n by (simp add: filed_def)
  then show ?thesis using add n a by (auto simp: status_written_def contains_iff view_def)
qed

lemma update_from_member_view:
  assumes "wf_state s" and "member_alloc (heap s) m" and "thisHost s = Some this"
    and "mm_status m \<noteq> StatusForwardTo \<Longrightarrow> canonical s (mm_node m)"
  shows "\<exists>t. update_from_member m s = Inr t \<and> view t = merge (addr s this) (news_of s m) (view s) \<and>
    (t = s \<or> mm_status m \<noteq> StatusForwardTo \<and> filed s (mm_node m) t)"
proof (cases "disregarded s this m")
  case True
  then have "merge (addr s this) (news_of s m) (view s) = view s"
    using assms(4) canonical_current [of s "mm_node m"]
    by (cases "mm_status m = StatusForwardTo") (auto simp: disregarded_def news_of_def)
  then show ?thesis using True assms(3) by (simp add: update_from_member_cases)
next
  case False
  then have f: "mm_status m \<noteq> StatusForwardTo" and c: "canonical s (mm_node m)" using assms(4) by (auto simp: disregarded_def)
  obtain q t where t: "AddNode (mm_node m) (updateNodeStatus (mm_node m) (mm_status m) (mm_heartbeat m) (mm_source m) s) = Inr (q, t)"
    "filed s (mm_node m) t"
    "heartbeat (node t (mm_node m)) = (if status (node s (mm_node m)) = mm_status m then heartbeat (node s (mm_node m)) else mm_heartbeat m)"
    "status (node t (mm_node m)) = (if mm_status m = StatusUnknown \<and> view s (addr s (mm_node m)) = None then StatusAlive else mm_status m)"
    using add_updated [OF assms(1) c _ f] assms(2) unfolding member_alloc_def by blast
  have "update_from_member m s = Inr t" using False assms(3) t(1) by (simp add: update_from_member_cases learn_status_def)
  moreover have "view t = merge (addr s this) (news_of s m) (view s)"
    using False filed_view [OF assms(1) c t(2)] t(3,4) canonical_current [OF c] f by (auto simp: news_of_def disregarded_def)
  ultimately show ?thesis using t(2) f by blast
qed

text \<open>The nodes a message brings news of.\<close>

definition subjects :: "messageMember list \<Rightarrow> node_ref list" where
  "subjects ms = map mm_node (filter (\<lambda>m. mm_status m \<noteq> StatusForwardTo) ms)"

text \<open>No two pieces of news, nor the sender and a piece of news, are about the same address.\<close>

definition well_told :: "smudge \<Rightarrow> messageMember list \<Rightarrow> node_ref \<Rightarrow> bool" where
  "well_told s ms r \<longleftrightarrow> distinct (map (addr s) (r # subjects ms)) \<and> (\<forall>n \<in> set (r # subjects ms). canonical s n)"

lemma subjects_simps [simp]:
  "subjects [] = []"
  "subjects (m # ms) = (if mm_status m = StatusForwardTo then subjects ms else mm_node m # subjects ms)"
  by (simp_all add: subjects_def)

lemma subjects_alloc:
  "\<forall>m \<in> set ms. member_alloc (heap s) m \<Longrightarrow> n \<in> set (subjects ms) \<Longrightarrow> n < length (heap s)"
  by (auto simp: subjects_def member_alloc_def)

lemma well_told_step:
  assumes "well_told s (m # ms) r" and "r < length (heap s)" and "\<forall>m \<in> set ms. member_alloc (heap s) m"
    and "t = s \<or> mm_status m \<noteq> StatusForwardTo \<and> filed s (mm_node m) t"
  shows "well_told t ms r"
proof (cases "t = s")
  case True
  then show ?thesis using assms(1) by (auto simp: well_told_def split: if_splits)
next
  case False
  then have f: "mm_status m \<noteq> StatusForwardTo" "filed s (mm_node m) t" using assms(4) by auto
  have n: "n < length (heap s)" if "n \<in> set (r # subjects ms)" for n using that assms(2) subjects_alloc [OF assms(3)] by auto
  have a: "addr t n = addr s n" if "n \<in> set (r # subjects ms)" for n
    using f(2) keeps_addr n [OF that] by (simp add: filed_def)
  then have eq: "map (addr t) (r # subjects ms) = map (addr s) (r # subjects ms)" by simp
  have c: "canonical t n" if "n \<in> set (r # subjects ms)" for n
  proof (rule filed_canonical [OF f(2) _ n [OF that]])
    have "addr s (mm_node m) \<notin> addr s ` set (r # subjects ms)" using assms(1) f(1) by (auto simp: well_told_def)
    then show "addr s n \<noteq> addr s (mm_node m)" using that by (metis imageI)
  qed (use assms(1) that f(1) in \<open>auto simp: well_told_def\<close>)
  have "distinct (map (addr s) (r # subjects ms))" using assms(1) f(1) by (simp add: well_told_def)
  then show ?thesis unfolding well_told_def eq using c by blast
qed

lemma update_members_view:
  assumes "wf_state s" and "\<forall>m \<in> set ms. member_alloc (heap s) m" and "thisHost s = Some this"
    and "well_told s ms r" and "r < length (heap s)"
  shows "\<exists>t. foldR update_from_member ms s = Inr t \<and> wf_state t \<and> keeps s t \<and> canonical t r \<and>
    view t = fold (merge (addr s this)) (map (news_of s) ms) (view s)"
  using assms
proof (induction ms arbitrary: s)
  case Nil
  then show ?case by (simp add: well_told_def)
next
  case (Cons m ms)
  have h: "this < length (heap s)" using wf_stateD(7) [OF Cons.prems(1)] Cons.prems(3) by simp
  have "\<exists>t. update_from_member m s = Inr t \<and> view t = merge (addr s this) (news_of s m) (view s) \<and>
    (t = s \<or> mm_status m \<noteq> StatusForwardTo \<and> filed s (mm_node m) t)"
    using Cons.prems by (intro update_from_member_view) (auto simp: well_told_def subjects_def)
  then obtain t where t: "update_from_member m s = Inr t" "view t = merge (addr s this) (news_of s m) (view s)"
    "t = s \<or> mm_status m \<noteq> StatusForwardTo \<and> filed s (mm_node m) t" by blast
  have k: "wf_state t" "keeps s t" using t(3) Cons.prems(1) by (auto simp: filed_def)
  have "\<forall>m \<in> set ms. member_alloc (heap t) m" "r < length (heap t)"
    using Cons.prems member_alloc_keeps [OF k(2)] keeps_length [OF k(2)] by auto
  moreover have "thisHost t = Some this" using k(2) Cons.prems(3) by (simp add: keeps_def)
  moreover have "well_told t ms r"
    using Cons.prems(2) by (intro well_told_step [OF Cons.prems(4,5) _ t(3)]) simp
  ultimately obtain u where u: "foldR update_from_member ms t = Inr u" "wf_state u" "keeps t u" "canonical u r"
    "view u = fold (merge (addr t this)) (map (news_of t) ms) (view t)"
    using Cons.IH [OF k(1)] by blast
  have "addr t this = addr s this" using keeps_addr [OF k(2) h] .
  moreover have "map (news_of t) ms = map (news_of s) ms"
    using Cons.prems(2) keeps_addr [OF k(2)] by (auto simp: news_of_def member_alloc_def)
  ultimately show ?case using t(1,2) u keeps_trans [OF k(2) u(3)] by (simp del: map_eq_conv)
qed

lemma updateStatuses_view:
  assumes "wf_state s" and "message_alloc (heap s) msg" and "thisHost s = Some this" and "sender msg = Some r"
    and "well_told s (members msg) r"
  shows "\<exists>t. updateStatusesFromMessage msg s = Inr t \<and> wf_state t \<and> keeps s t \<and>
    view t = heard (addr s r) (senderHeartbeat msg) (fold (merge (addr s this)) (map (news_of s) (members msg)) (view s))"
proof -
  have r: "r < length (heap s)" and ms: "\<forall>m \<in> set (members msg). member_alloc (heap s) m"
    using assms(2,4) by (simp_all add: message_alloc_def)
  obtain u where u: "foldR update_from_member (members msg) s = Inr u" "wf_state u" "keeps s u" "canonical u r"
    "view u = fold (merge (addr s this)) (map (news_of s) (members msg)) (view s)"
    using update_members_view [OF assms(1) ms assms(3,5) r] by blast
  have a: "addr u r = addr s r" and ru: "r < length (heap u)" using keeps_addr [OF u(3) r] keeps_length [OF u(3)] r by auto
  have host: "ref_ok (heap u) (thisHost u)" using wf_stateD(7) [OF u(2)] .
  let ?st = "if heartbeat (node u r) < senderHeartbeat msg then StatusAlive else status (node u r)"
  have eq: "hear_sender msg r u = updateNodeStatus r ?st (senderHeartbeat msg) (thisHost u) u"
    by (simp add: hear_sender_def updateNodeStatus_same)
  have "?st \<noteq> StatusForwardTo" using wf_heap_nth [OF wf_stateD(1) [OF u(2)] ru] by (simp add: wf_node_def)
  from add_updated [OF u(2,4) ru this host] obtain q t where t: "AddNode r (hear_sender msg r u) = Inr (q, t)" "filed u r t"
    "heartbeat (node t r) = (if status (node u r) = ?st then heartbeat (node u r) else senderHeartbeat msg)"
    "status (node t r) = (if ?st = StatusUnknown \<and> view u (addr u r) = None then StatusAlive else ?st)"
    unfolding eq by blast
  have "updateStatusesFromMessage msg s = Inr t" unfolding updateStatuses_stages [OF assms(4)] using u(1) t(1) by simp
  moreover have "view t = heard (addr u r) (senderHeartbeat msg) (view u)"
    using filed_view [OF u(2,4) t(2)] t(3,4) u(4) word_gt_0 [of "senderHeartbeat msg"]
    by (auto simp: heard_def canonical_def view_def split: option.splits)
  ultimately show ?thesis using t(2) u(5) a keeps_trans [OF u(3)] by (auto simp: filed_def)
qed

section \<open>What the decoder yields\<close>

text \<open>Decoded pointers are allocated, and canonical unless the node was stated with port zero.\<close>

definition proper :: "smudge \<Rightarrow> node_ref \<Rightarrow> bool" where
  "proper s r \<longleftrightarrow> r < length (heap s) \<and> (port (node s r) \<noteq> 0 \<longrightarrow> canonical s r)"

lemma canonical_grows: "grows s t \<Longrightarrow> r < length (heap s) \<Longrightarrow> canonical t r = canonical s r"
  by (simp add: canonical_def grows_node grows_same extends_addressOf [OF grows_extends] split: option.splits)

lemma proper_grows: "grows s t \<Longrightarrow> proper s r \<Longrightarrow> proper t r"
  using less_length_mono [OF grows_extends] by (auto simp: proper_def canonical_grows grows_node)

lemma resolve_proper:
  assumes "wf_state s" and "valid_ip a" and "resolve a p s = (r, t)" shows "proper t r"
proof (cases "getByIP (listenPortOf s) (knownNodes s) a p")
  case None
  then have t: "t = s\<lparr>heap := heap s @ [\<lparr>ip = a, port = p, timestamp = now s, address = [], pingMillis = PingNoData,
      status = StatusUnknown, emitCounter = 0, heartbeat = 0, statusSource = None\<rparr>]\<rparr>" "r = length (heap s)"
    using assms(3) by (auto simp: resolve_def CreateNodeByIP_def)
  have "getByAddress (knownNodes t) (addr t r) = None" if "p \<noteq> 0"
    using None resolve_addr [OF assms(1,2) that assms(3)] that t(1) by (simp add: getByIP_def)
  then show ?thesis by (simp add: proper_def canonical_def t)
next
  case (Some q)
  then have "r = q" "t = s" using assms(3) by (simp_all add: resolve_def)
  moreover have "q < length (heap s)" "getByAddress (knownNodes s) (addr s q) = Some q"
    using Some map_ok_lookup [OF wf_stateD(2) [OF assms(1)]] by (auto simp: getByIP_def Let_def)
  ultimately show ?thesis by (simp add: proper_def canonical_def)
qed

lemma decode_member_proper:
  assumes "wf_state s" shows "ensures (decode_member bytes p s) (\<lambda>(mm, q, t). proper t (mm_node mm))"
proof -
  have "proper u r" if "length a = 16" "length c = 16" "resolve a ap s = (r, t)" "resolve c cp t = (q, u)" for a ap c cp r t q u
    using resolve_ok [OF assms _ that(3)] resolve_ok [OF _ _ that(4)] resolve_proper [OF assms _ that(3)] that valid_ip_16 proper_grows
    by blast
  then show ?thesis unfolding decode_member_def Let_def
    by (auto intro!: ensures_bind split: prod.splits dest!: read_ip_length)
qed

text \<open>A fact about a member that decoding it establishes and that new nodes keep holds of all decoded members.\<close>

lemma decode_members_each:
  assumes "wf_state s" and "grows s0 s" and "\<forall>mm \<in> set ms. P s mm"
    and decoded: "\<And>p s mm q t. wf_state s \<Longrightarrow> grows s0 s \<Longrightarrow> decode_member bytes p s = Inr (mm, q, t) \<Longrightarrow> P t mm"
    and grown: "\<And>s t mm. grows s t \<Longrightarrow> P s mm \<Longrightarrow> P t mm"
  shows "ensures (decode_members bytes p ms s) (\<lambda>(ms', t). wf_state t \<and> grows s t \<and> (\<forall>mm \<in> set ms'. P t mm))"
  using assms
proof (induction bytes p ms s rule: decode_members.induct)
  case (1 bytes p ms s)
  let ?Q = "\<lambda>s (ms', t). wf_state t \<and> grows s t \<and> (\<forall>mm \<in> set ms'. P t mm)"
  show ?case
  proof (cases "p < length (live bytes)")
    case False
    then show ?thesis using "1.prems" by (subst decode_members.simps) simp
  next
    case True
    have "ensures (bindR (decode_member bytes p s) (\<lambda>r. decode_members bytes (fst (snd r)) (ms @ [fst r]) (snd (snd r)))) (?Q s)"
    proof (rule ensures_bind)
      fix r assume r: "decode_member bytes p s = Inr r"
      obtain mm q t where rt: "r = (mm, q, t)" by (cases r) auto
      have t: "wf_state t" "grows s t" using ensuresD [OF decode_member_ok [OF "1.prems"(1)] r] rt by simp_all
      have "P t mm" using "1.prems"(4) [OF "1.prems"(1,2)] r rt by blast
      then have "ensures (decode_members bytes (fst (snd r)) (ms @ [fst r]) (snd (snd r))) (?Q (snd (snd r)))"
        using "1.prems"(3) t "1.prems"(5) [OF t(2)] grows_trans [OF "1.prems"(2) t(2)] rt "1.prems"(4,5)
        by (intro "1.IH" [OF True r]) auto
      then show "ensures (decode_members bytes (fst (snd r)) (ms @ [fst r]) (snd (snd r))) (?Q s)"
        by (rule ensures_weaken) (use t rt grows_trans in auto)
    qed
    then show ?thesis using True by (subst decode_members.simps) simp
  qed
qed

lemma decode_members_proper:
  assumes "wf_state s" and "\<forall>mm \<in> set ms. proper s (mm_node mm)"
  shows "ensures (decode_members bytes p ms s) (\<lambda>(ms', t). wf_state t \<and> grows s t \<and> (\<forall>mm \<in> set ms'. proper t (mm_node mm)))"
  using assms(1) nodes.grows_refl assms(2)
  by (rule decode_members_each) (use ensuresD [OF decode_member_proper] proper_grows in auto)

lemma decodeMessage_proper:
  assumes "wf_state s" and "valid_ip src"
  shows "ensures (decodeMessage src bytes s) (\<lambda>(m, err, t).
    (\<forall>r. sender m = Some r \<longrightarrow> proper t r) \<and> (\<forall>mm \<in> set (members m). proper t (mm_node mm)))"
proof -
  have src: "wf_state t \<and> proper t r" if "resolve src x s = (r, t)" for x r t
    using resolve_ok [OF assms that] resolve_proper [OF assms that] by blast
  have ms: "proper u r \<and> wf_state u \<and> (\<forall>mm \<in> set ms. proper u (mm_node mm))"
    if "resolve src x s = (r, t)" "decodeMembers k mb t = Inr (ms, u)" for x r t k mb ms u
    using src [OF that(1)] that(2) ensuresD [OF decode_members_proper [of t "[]" mb 0]] proper_grows by (auto simp: decodeMembers_def)
  have bc: "proper u r" if "wf_state t" "proper t r" "decodeBroadcast bb t = Inr (b, err, u)" for t r bb b err u
    using ensuresD [OF decodeBroadcast_ok [OF that(1)] that(3)] that(2) proper_grows by auto
  show ?thesis unfolding decodeMessage_def Let_def
    by (auto intro!: ensures_bind simp: newMessage_def split: prod.splits)
      (use src ms bc in \<open>blast elim: bindR_InrE | auto dest: src ms bc elim!: bindR_InrE split: if_splits\<close>)+
qed

section \<open>Datagrams\<close>

lemma view_quiet:
  assumes "wf_state s" and "quiet s t" and "knownNodes t = knownNodes s" shows "view t = view s"
proof
  fix a
  show "view t a = view s a"
    using assms(2,3) map_ok_lookup [OF wf_stateD(2) [OF assms(1)], of a]
    by (cases "getByAddress (knownNodes s) a") (auto simp: view_def quiet_def)
qed

lemma transmit_known:
  assumes "wf_state s" and "nd < length (heap s)"
  shows "ensures (transmitVerbGenericUDP ch nd fwd vb code s) (\<lambda>(err, t). knownNodes t = knownNodes s)"
  by (rule ensures_weaken [OF transmit_ok [OF assms]]) (auto dest: tx_frame_same(1))

lemma notePing_known: "ensures (notePingResponseTime pack s) (\<lambda>t. knownNodes t = knownNodes s)"
  unfolding notePingResponseTime_def Let_def split_beta by (intro ensures_bind) simp

lemma receiveVerbAck_known:
  assumes "sender msg = Some r"
  shows "ensures (receiveVerbAckUDP msg s) (\<lambda>(err, t). knownNodes t = knownNodes s)"
proof (cases "map_of (pendingAcks s) (pack_key s r (senderHeartbeat msg))")
  case None
  then show ?thesis using assms by (simp add: receiveVerbAck_unmatched)
next
  case (Some pack)
  have "ensures (settle_pack pack (modify_node r (Touch (now s)) s)) (\<lambda>t. knownNodes t = knownNodes s)"
    using notePing_known [of pack "modify_node r (Touch (now s)) s"] by (auto simp: settle_pack_def split: option.splits)
  note settled = ensuresD [OF this]
  show ?thesis unfolding receiveVerbAck_matched [OF assms Some]
    by (rule ensures_bind) (simp add: settled)
qed

lemma receiveVerbForward_known:
  assumes "wf_state s" and "message_alloc (heap s) msg" and "sender msg \<noteq> None"
    and "receiveVerbForwardUDP ch msg s = Inr (err, t)"
  shows "knownNodes t = knownNodes s"
proof -
  obtain m where m: "getIdx (members msg) 0 = Inr m" using assms(4) by (auto simp: receiveVerbForwardUDP_def elim!: bindR_InrE)
  then have "m \<in> set (members msg)" by (auto simp: getIdx_def split: if_splits)
  then have nd: "mm_node m < length (heap s)" using assms(2) by (auto simp: message_alloc_def member_alloc_def)
  define p where "p = \<lparr>startTime = now s, p_node = mm_node m, callback = sender msg, callbackCode = mm_heartbeat m, packType = packNFP\<rparr>"
  define u where "u = s\<lparr>pendingAcks := AList.update (pack_key s (mm_node m) (mm_heartbeat m)) p (pendingAcks s)\<rparr>"
  have "pack_ok (heap s) p" using nd assms(2,3) by (simp add: pack_ok_def message_alloc_def p_def)
  then have "wf_state u" unfolding u_def by (rule wf_state_new_pack [OF assms(1)])
  moreover have "mm_node m < length (heap u)" using nd by (simp add: u_def)
  ultimately have tx: "knownNodes t = knownNodes u" if "transmitVerbGenericUDP ch (mm_node m) None vb c u = Inr (err, t)" for vb c
    using ensuresD [OF transmit_known that] by simp
  show ?thesis
  proof (cases "mm_status m = StatusForwardTo")
    case True
    then have "transmitVerbGenericUDP ch (mm_node m) None verbNonForwardingPing (mm_heartbeat m) u = Inr (err, t)"
      using assms(4) by (simp only: receiveVerbForwardUDP_def m bindR_simps Let_def if_True p_def u_def simp_thms)
    then show ?thesis using tx by (simp add: u_def)
  next
    case False
    then show ?thesis using assms(4) by (simp add: receiveVerbForwardUDP_def m)
  qed
qed

lemma receive_verb_known:
  assumes "wf_state s" and "message_alloc (heap s) msg" and "sender msg = Some r"
  shows "ensures (receive_verb ch msg s) (\<lambda>(err, t). knownNodes t = knownNodes s)"
proof -
  have "r < length (heap s)" using assms(2,3) by (simp add: message_alloc_def)
  then have "ensures (transmitVerbAckUDP ch r c s) (\<lambda>(err, t). knownNodes t = knownNodes s)" for c
    unfolding transmitVerbAckUDP_def by (intro transmit_known assms(1))
  moreover have "ensures (receiveVerbForwardUDP ch msg s) (\<lambda>(err, t). knownNodes t = knownNodes s)"
    using receiveVerbForward_known [OF assms(1,2)] assms(3)
    by (auto simp: ensures_def split: sum.splits)
  ultimately show ?thesis using receiveVerbAck_known [OF assms(3)]
    by (simp add: receive_verb_def receiveVerbPingUDP_def receiveVerbNonForwardPingUDP_def assms(3) del: verb_defs)
qed

lemma sync_heartbeat_told [simp]:
  "view (sync_heartbeat msg s) = view s" "news_of (sync_heartbeat msg s) = news_of s"
  "canonical (sync_heartbeat msg s) r = canonical s r" "well_told (sync_heartbeat msg s) ms r = well_told s ms r"
proof -
  show "view (sync_heartbeat msg s) = view s" "news_of (sync_heartbeat msg s) = news_of s"
    by (simp_all add: sync_heartbeat_def view_def [abs_def] news_of_def [abs_def])
  show c: "canonical (sync_heartbeat msg s) r = canonical s r" for r
    by (simp add: sync_heartbeat_def canonical_def split: option.splits)
  show "well_told (sync_heartbeat msg s) ms r = well_told s ms r"
    unfolding well_told_def c by (simp add: sync_heartbeat_ok)
qed

text \<open>Nothing that follows the status updates touches the table.\<close>

lemma view_after_updates:
  assumes "wf_state s" and "message_alloc (heap s) msg" and "thisHost s \<noteq> None" and "sender msg = Some r"
    and "updateStatusesFromMessage msg (sync_heartbeat msg s) = Inr v"
    and "absorb msg s = Inr u" and "receive_verb ch msg u = Inr (err, t)"
  shows "view t = view v"
proof -
  let ?s = "sync_heartbeat msg s"
  have s: "wf_state ?s" "message_alloc (heap ?s) msg" "thisHost ?s \<noteq> None" using assms by (simp_all add: sync_heartbeat_ok)
  have v: "wf_state v" "keeps ?s v" using ensuresD [OF yields_ensures [OF updateStatuses_ok [OF s(1,2) assms(4) s(3)]] assms(5)] by auto
  have w: "wf_state u \<and> receive_frame v u"
    using assms(5,6) receiveBroadcast_ok [OF v(1), of "broadcast msg"] message_alloc_keeps [OF v(2) s(2)]
    by (auto simp: absorb_def message_alloc_def)
  then have "view u = view v" by (simp add: view_def [abs_def] receive_frame_def)
  moreover have "message_alloc (heap u) msg" using message_alloc_keeps [OF v(2) s(2)] w by (simp add: receive_frame_def)
  then have "view t = view u"
    using w ensuresD [OF receive_verb_quiet assms(7)] ensuresD [OF receive_verb_known assms(7)] assms(4)
    by (intro view_quiet) auto
  ultimately show ?thesis by simp
qed

lemma received_view:
  assumes "wf_state s" and "message_alloc (heap s) msg" and "thisHost s = Some this" and "sender msg = Some r"
    and "well_told s (members msg) r" and "absorb msg s = Inr u" and "receive_verb ch msg u = Inr (err, t)"
  shows "view t = heard (addr s r) (senderHeartbeat msg)
    (fold (merge (addr s this)) (map (news_of s) (members msg)) (view s))"
proof -
  let ?s = "sync_heartbeat msg s"
  have s: "wf_state ?s" "message_alloc (heap ?s) msg" "thisHost ?s = Some this" "well_told ?s (members msg) r"
    using assms by (simp_all add: sync_heartbeat_ok)
  obtain v where v: "updateStatusesFromMessage msg ?s = Inr v"
    "view v = heard (addr s r) (senderHeartbeat msg) (fold (merge (addr s this)) (map (news_of s) (members msg)) (view s))"
    using updateStatuses_view [OF s(1-3) assms(4) s(4)] by (auto simp: sync_heartbeat_ok)
  then show ?thesis using view_after_updates [OF assms(1,2) _ assms(4) v(1) assms(6,7)] assms(3) by simp
qed

lemma decoded_well_told:
  assumes "wf_state s" and "valid_ip src" and "decodeMessage src b s = Inr (msg, err, u)" and "sender msg = Some r"
    and "distinct (map (addr u) (r # subjects (members msg)))"
    and "\<forall>n \<in> set (r # subjects (members msg)). port (node u n) \<noteq> 0"
  shows "well_told u (members msg) r"
proof -
  have p: "\<forall>r. sender msg = Some r \<longrightarrow> proper u r" "\<forall>mm \<in> set (members msg). proper u (mm_node mm)"
    using ensuresD [OF decodeMessage_proper [OF assms(1,2)] assms(3)] by auto
  have "canonical u n" if "n \<in> set (r # subjects (members msg))" for n
    using that p assms(4,6) by (auto simp: proper_def subjects_def)
  then show ?thesis using assms(5) unfolding well_told_def by blast
qed

lemma decoded_view:
  assumes "wf_state s" and "valid_ip src" and "decodeMessage src b s = Inr (msg, err, u)"
  shows "view u = view s"
proof (rule view_quiet [OF assms(1)])
  have "grows s u" using ensuresD [OF decodeMessage_ok [OF assms(1,2)] assms(3)] by auto
  then show "quiet s u" "knownNodes u = knownNodes s" by (simp_all add: quiet_grows grows_same)
qed

lemma datagram_view:
  assumes "wf_state s" and "valid_ip src" and "thisHost s = Some this"
    and "decodeMessage src b s = Inr (msg, None, u)" and "sender msg = Some r" and "well_told u (members msg) r"
    and "receiveMessageUDP ch src b s = Inr (err, t)"
  shows "view t = heard (addr u r) (senderHeartbeat msg)
    (fold (merge (addr s this)) (map (news_of u) (members msg)) (view s))"
proof -
  have u: "wf_state u" "grows s u" "message_alloc (heap u) msg"
    using ensuresD [OF decodeMessage_ok [OF assms(1,2)] assms(4)] by auto
  have host: "thisHost u = Some this" using grows_same(6) [OF u(2)] assms(3) by simp
  obtain v where v: "absorb msg u = Inr v" "receive_verb ch msg v = Inr (err, t)"
    using assms(7) unfolding receiveMessage_stages assms(4) by (auto elim!: bindR_InrE)
  have "addr u this = addr s this"
    using extends_addressOf [OF grows_extends [OF u(2)]] wf_stateD(7) [OF assms(1)] assms(3) by simp
  then show ?thesis
    using received_view [OF u(1,3) host assms(5,6) v] decoded_view [OF assms(1,2,4)] by simp
qed

text \<open>
  C1. Handling a datagram refines the specification. When the sender and the nodes that the
  message brings news of have different addresses, all with a port, the table of the host afterwards is the
  table before with every piece of news merged in, in the order of the message, and the sender heard last;
  whatever the verb, the broadcast and the network.
\<close>

theorem datagram_refines_merge:
  assumes "wf_state s" and "valid_ip src" and "thisHost s = Some this"
    and "decodeMessage src b s = Inr (msg, None, u)" and "sender msg = Some r"
    and "distinct (map (addr u) (r # subjects (members msg)))"
    and "\<forall>n \<in> set (r # subjects (members msg)). port (node u n) \<noteq> 0"
    and "receiveMessageUDP ch src b s = Inr (err, t)"
  shows "view t = heard (addr u r) (senderHeartbeat msg)
    (fold (merge (addr s this)) (map (news_of u) (members msg)) (view s))"
  by (rule datagram_view [OF assms(1-5) decoded_well_told [OF assms(1,2,4-7)] assms(8)])

section \<open>From host to host\<close>

lemma sendable_counters:
  assumes "counters_only h h'" and "r < length h" shows "sendable h' n r = sendable h n r"
  using counters_only_node [OF assms] by (simp add: sendable_def wf_node_def)

lemma bcast_sendable_counters:
  assumes "counters_only h h'" and "b_origin b < length h" shows "bcast_sendable h' t b = bcast_sendable h t b"
  using counters_only_node [OF assms] by (simp add: bcast_sendable_def has_origin_def wf_node_def)

text \<open>What a receiver makes of members that are the same as those sent.\<close>

lemma same_members_news:
  assumes "list_all2 (\<lambda>mm mm'. same_member h mm (heap u) mm') ms ms'"
  shows "map (news_of u) ms' = map (\<lambda>mm. (addressOf h (mm_node mm), mm_status mm, mm_heartbeat mm)) ms"
    and "map (addr u) (subjects ms') = map (addressOf h) (subjects ms)"
  using assms by (induction rule: list_all2_induct) (auto simp: same_member_def news_of_def)

lemma same_members_ports:
  assumes "list_all2 (\<lambda>mm mm'. same_member h mm (heap u) mm') ms ms'" and "wf_state u"
    and "\<forall>mm \<in> set ms. member_sendable h n mm" and "r \<in> set (subjects ms')"
  shows "port (node u r) \<noteq> 0"
proof -
  obtain mm' where mm': "mm' \<in> set ms'" "r = mm_node mm'" using assms(4) by (auto simp: subjects_def)
  obtain mm where mm: "mm \<in> set ms" "same_member h mm (heap u) mm'"
    using assms(1) mm'(1) by (auto simp: list_all2_conv_all_nth in_set_conv_nth) (metis nth_mem)
  have "sendable h n (mm_node mm)" using assms(3) mm(1) by (simp add: member_sendable_def)
  moreover have "wf_node (node u r)" "addr u r = addressOf h (mm_node mm)"
    using mm(2) mm'(2) wf_heap_nth [OF wf_stateD(1) [OF assms(2)]] by (simp_all add: same_member_def)
  ultimately show ?thesis using addressOf_eqD [of "heap u" r h "mm_node mm"] by (simp add: sendable_def)
qed

lemma subjects_append [simp]: "subjects (xs @ ys) = subjects xs @ subjects ys"
  by (simp add: subjects_def)

lemma subjects_gossip:
  assumes "wf_state s" and "\<forall>n \<in> set ns. n < length (heap s)"
  shows "subjects (map (gossip_of s) ns) = ns"
  using assms(2) wf_heap_nth [OF wf_stateD(1) [OF assms(1)]]
  by (induction ns) (auto simp: gossip_of_def wf_node_def)

lemma start_subjects: "subjects (members (start_message fwd vb code s)) = []"
  by (simp add: start_message_def newMessage_def split: option.splits)

lemma start_news:
  "fold (merge self) (map (\<lambda>mm. (f mm, mm_status mm, g mm)) (members (start_message fwd vb code s))) v = v"
  by (simp add: start_message_def newMessage_def split: option.splits)

lemma transmitted_sendable:
  assumes "wf_state s" and "\<forall>r < length (heap s). sendable (heap s) k r" and "counters_only (heap s) h"
    and "ref_ok (heap s) fwd" and "\<forall>n \<in> set ns. n < length (heap s)"
    and "mm \<in> set (members (start_message fwd vb code s) @ map (gossip_of s) ns)"
  shows "member_sendable h k mm" and "mm_node mm < length (heap s)"
proof -
  obtain n where n: "n < length (heap s)" "mm_node mm = n" "mm_source mm = statusSource (node s n)"
    using assms(4-6) by (auto simp: start_message_def newMessage_def gossip_of_def split: option.splits)
  then have "ref_ok (heap s) (statusSource (node s n))" using wf_stateD(1) [OF assms(1)] by (simp add: wf_heap_def)
  then show "member_sendable h k mm"
    using n assms(2) sendable_counters [OF assms(3)] by (auto simp: member_sendable_def)
  show "mm_node mm < length (heap s)" using n by simp
qed

text \<open>The news a host tells about a node.\<close>

definition told :: "smudge \<Rightarrow> node_ref \<Rightarrow> news" where
  "told s n = (addr s n, status (node s n), heartbeat (node s n))"

text \<open>
  Two hosts that understand each other: the sender's nodes can be written on the wire, the
  receiver accepts the sender's broadcasts, both use one address mode, and the datagram comes from the sender's address.
\<close>

definition in_touch :: "smudge \<Rightarrow> node_ref \<Rightarrow> IP \<Rightarrow> smudge \<Rightarrow> bool" where
  "in_touch s a src t \<longleftrightarrow> wf_state s \<and> wf_state t \<and> thisHost s = Some a \<and> ipLen t = ipLen s \<and>
     valid_ip src \<and> nodeAddressString src (port (node s a)) = addr s a \<and>
     (\<forall>r < length (heap s). sendable (heap s) (ipLen s) r) \<and>
     (\<forall>(k, x) \<in> set (broadcasts s). bcast_sendable (heap s) t x)"

lemma in_touch_sender:
  assumes "in_touch s a src t" and "counters_only (heap s) h"
  shows "a < length (heap s)" and "port (h ! a) = port (node s a)" and "port (node s a) \<noteq> 0"
proof -
  show a: "a < length (heap s)" using assms(1) wf_stateD(7) [of s] by (auto simp: in_touch_def)
  show "port (h ! a) = port (node s a)" "port (node s a) \<noteq> 0"
    using counters_only_node [OF assms(2) a] assms(1) a by (simp_all add: in_touch_def sendable_def)
qed

lemma transmitted_broadcast:
  assumes "in_touch s a src t" and "transmission nd (start_message fwd vb code s) ns msg h bytes s s'"
    and "broadcast msg = Some x"
  shows "bcast_sendable h t x"
proof -
  note T = assms(2) [unfolded transmission_def]
  obtain k where k: "(k, x) \<in> set (broadcasts s)" using T assms(3) start_members(3) [of fwd vb code s] by auto
  have "broadcasts_ok (heap s) (broadcasts s)" using assms(1) wf_stateD(6) by (simp add: in_touch_def)
  then have "b_origin x < length (heap s)" using k by (auto simp: broadcasts_ok_def)
  then show ?thesis using k assms(1) T bcast_sendable_counters [of "heap s" h x t] by (auto simp: in_touch_def)
qed

lemma transmitted_decoded:
  assumes "in_touch s a src t" and "ref_ok (heap s) fwd" and "vb < 4" and "\<forall>n \<in> set ns. n < length (heap s)"
    and "transmission nd (start_message fwd vb code s) ns msg h bytes s s'"
  shows "\<exists>m' u q. decodeMessage src \<lparr>live = bytes, spare = sp\<rparr> t = Inr (m', None, u) \<and> wf_state u \<and>
    verb m' = vb \<and> sender m' = Some q \<and> senderHeartbeat m' = code \<and> addr u q = addr s a \<and>
    list_all2 (\<lambda>mm mm'. same_member h mm (heap u) mm') (members msg) (members m')"
proof -
  note T = assms(5) [unfolded transmission_def]
  have s: "wf_state s" "wf_state t" "thisHost s = Some a" "ipLen t = ipLen s" "valid_ip src"
    "nodeAddressString src (port (node s a)) = addr s a" "\<forall>r < length (heap s). sendable (heap s) (ipLen s) r"
    using assms(1) by (simp_all add: in_touch_def)
  have h: "counters_only (heap s) h" using T by simp
  note pa = in_touch_sender [OF assms(1) h]
  have msg: "sender msg = Some a" "verb msg = vb" "senderHeartbeat msg = code" "length (members msg) < 64"
    using T start_members [of fwd vb code s] s(3) by auto
  have "\<forall>mm \<in> set (members msg). member_sendable h (ipLen t) mm"
    using transmitted_sendable(1) [OF s(1,7) h assms(2,4), of _ vb code] T s(4) by simp
  then show ?thesis
    using message_sent [OF s(2,5) msg(1), of h sp] msg(2-4) assms(3) pa transmitted_broadcast [OF assms(1,5)] T s(4,6) by auto
qed

lemma transmitted_told:
  assumes "wf_state s" and "wf_state u" and "\<forall>n \<in> set ns. n < length (heap s) \<and> addr s n \<noteq> addr s a"
    and "distinct (map (addr s) ns)" and "transmission nd (start_message fwd vb code s) ns msg h bytes s s'"
    and "list_all2 (\<lambda>mm mm'. same_member h mm (heap u) mm') (members msg) (members m')" and "addr u q = addr s a"
  shows "distinct (map (addr u) (q # subjects (members m')))"
    and "map (news_of u) (members m') = map (\<lambda>mm. (addressOf h (mm_node mm), mm_status mm, mm_heartbeat mm))
      (members (start_message fwd vb code s)) @ map (told s) ns"
proof -
  note T = assms(5) [unfolded transmission_def]
  have h: "counters_only (heap s) h" and ms: "members msg = members (start_message fwd vb code s) @ map (gossip_of s) ns"
    using T by simp_all
  have addr: "addressOf h n = addr s n" if "n < length (heap s)" for n
    using extends_addressOf [OF counters_only_extends [OF h] that] .
  have sub: "map (addr u) (subjects (members m')) = map (addr s) ns"
    unfolding same_members_news(2) [OF assms(6)] ms
    using assms(3) addr subjects_gossip [OF assms(1), of ns] by (simp add: start_subjects)
  have "addr s a \<notin> set (map (addr s) ns)" using assms(3) by auto
  then show "distinct (map (addr u) (q # subjects (members m')))"
    using assms(4,7) by (simp only: list.map distinct.simps sub simp_thms)
  show "map (news_of u) (members m') = map (\<lambda>mm. (addressOf h (mm_node mm), mm_status mm, mm_heartbeat mm))
      (members (start_message fwd vb code s)) @ map (told s) ns"
    unfolding same_members_news(1) [OF assms(6)] ms using assms(3) addr by (simp add: told_def gossip_of_def)
qed

lemma transmitted_ports:
  assumes "in_touch s a src t" and "ref_ok (heap s) fwd" and "\<forall>n \<in> set ns. n < length (heap s)"
    and "transmission nd (start_message fwd vb code s) ns msg h bytes s s'"
    and "wf_state u" and "q < length (heap u)" and "addr u q = addr s a"
    and "list_all2 (\<lambda>mm mm'. same_member h mm (heap u) mm') (members msg) (members m')"
  shows "\<forall>n \<in> set (q # subjects (members m')). port (node u n) \<noteq> 0"
proof -
  note T = assms(4) [unfolded transmission_def]
  have h: "counters_only (heap s) h" using T by simp
  have s: "wf_state s" "\<forall>r < length (heap s). sendable (heap s) (ipLen s) r" using assms(1) by (simp_all add: in_touch_def)
  note a = in_touch_sender [OF assms(1) h]
  have "port (node u q) = port (node s a)"
    using addressOf_eqD [OF wf_heap_nth wf_heap_nth assms(7)] wf_stateD(1) s(1) assms(5,6) a(1) by blast
  moreover have "\<forall>mm \<in> set (members msg). member_sendable h (ipLen s) mm"
    using transmitted_sendable(1) [OF s h assms(2,3), of _ vb code] T by simp
  ultimately show ?thesis using a(3) same_members_ports [OF assms(8,5)] by auto
qed

text \<open>One exchange: what was sent and what the receiver decodes.\<close>

definition exchanged :: "smudge \<Rightarrow> node_ref \<Rightarrow> node_ref \<Rightarrow> node_ref list \<Rightarrow> messageVerb \<Rightarrow> uint32 \<Rightarrow> message \<Rightarrow> smudge \<Rightarrow> node_ref \<Rightarrow> bool" where
  "exchanged s a nd ns vb code m u q \<longleftrightarrow>
     distinct (map (addr s) ns) \<and> (\<forall>n \<in> set ns. n < length (heap s) \<and> addr s n \<notin> {addr s nd, addr s a}) \<and>
     verb m = vb \<and> sender m = Some q \<and> senderHeartbeat m = code \<and> addr u q = addr s a \<and>
     distinct (map (addr u) (q # subjects (members m))) \<and> (\<forall>n \<in> set (q # subjects (members m)). port (node u n) \<noteq> 0) \<and>
     (\<forall>self v. fold (merge self) (map (news_of u) (members m)) v = fold (merge self) (map (told s) ns) v)"

lemma exchange:
  assumes "in_touch s a src t" and "nd < length (heap s)" and "ref_ok (heap s) fwd" and "vb < 4"
    and "transmitVerbGenericUDP ch nd fwd vb code s = Inr (None, s')" and "sent s' = sent s @ [(to, bytes)]"
  shows "\<exists>ns m u q. decodeMessage src \<lparr>live = bytes, spare = sp\<rparr> t = Inr (m, None, u) \<and> exchanged s a nd ns vb code m u q"
proof -
  have s: "wf_state s" "wf_state t" "thisHost s = Some a" "valid_ip src" using assms(1) by (simp_all add: in_touch_def)
  obtain ns msg h bs where tx: "transmission nd (start_message fwd vb code s) ns msg h bs s s'"
    and ns: "distinct (map (addr s) ns)" "\<forall>n \<in> set ns. n < length (heap s) \<and> \<not> excluded (heap s) [nd, a] n"
    using transmit_spec [OF s(1) assms(2,5)] s(3) by auto
  have "bs = bytes" using tx assms(6) by (simp add: transmission_def)
  note tx = tx [unfolded this]
  have ns': "\<forall>n \<in> set ns. n < length (heap s) \<and> addr s n \<notin> {addr s nd, addr s a}" "\<forall>n \<in> set ns. n < length (heap s)"
    "\<forall>n \<in> set ns. n < length (heap s) \<and> addr s n \<noteq> addr s a"
    using ns(2) by (auto simp: excluded_iff)
  obtain m u q where dec: "decodeMessage src \<lparr>live = bytes, spare = sp\<rparr> t = Inr (m, None, u)" and u: "wf_state u"
    and m: "verb m = vb" "sender m = Some q" "senderHeartbeat m = code" "addr u q = addr s a"
    and same: "list_all2 (\<lambda>mm mm'. same_member h mm (heap u) mm') (members msg) (members m)"
    using transmitted_decoded [OF assms(1,3,4) ns'(2) tx] by blast
  have q: "q < length (heap u)" using ensuresD [OF decodeMessage_ok [OF s(2,4)] dec] m(2) by (simp add: message_alloc_def)
  note told = transmitted_told [OF s(1) u ns'(3) ns(1) tx same m(4)]
  have "fold (merge self) (map (news_of u) (members m)) v = fold (merge self) (map (told s) ns) v" for self v
    unfolding told(2) by (simp add: start_news)
  then show ?thesis
    using dec m ns(1) ns'(1) told(1) transmitted_ports [OF assms(1,3) ns'(2) tx u q m(4) same] unfolding exchanged_def by blast
qed

lemma exchange_view:
  assumes "wf_state t" and "valid_ip src" and "thisHost t = Some b" and "decodeMessage src b' t = Inr (m, None, u)"
    and "exchanged s a nd ns vb code m u q" and "receiveMessageUDP ch src b' t = Inr (err, t')"
  shows "view t' = heard (addr s a) code (fold (merge (addr t b)) (map (told s) ns) (view t))"
proof -
  note ex = assms(5) [unfolded exchanged_def]
  have q: "sender m = Some q" using ex by blast
  have "well_told u (members m) q" using ex by (intro decoded_well_told [OF assms(1,2,4) q]) blast+
  from datagram_view [OF assms(1-4) q this assms(6)] show ?thesis using ex by simp
qed

text \<open>
  C2. Gossip is delivered. When a host sends any message and a host that it is in touch with
  handles that datagram, the receiver's table has the sender heard and, merged in, the sender's records
  of some nodes: each of a different address, and none of them the sender or the target.
\<close>

theorem gossip_delivered:
  assumes "in_touch s a src t" and "nd < length (heap s)" and "ref_ok (heap s) fwd" and "vb < 4"
    and "transmitVerbGenericUDP ch nd fwd vb code s = Inr (None, s')" and "sent s' = sent s @ [(to, bytes)]"
    and "thisHost t = Some b" and "receiveMessageUDP ch' src \<lparr>live = bytes, spare = sp\<rparr> t = Inr (err, t')"
  shows "\<exists>ns. distinct (map (addr s) ns) \<and> (\<forall>n \<in> set ns. n < length (heap s) \<and> addr s n \<notin> {addr s nd, addr s a}) \<and>
    view t' = heard (addr s a) code (fold (merge (addr t b)) (map (told s) ns) (view t))"
proof -
  obtain ns m u q where "decodeMessage src \<lparr>live = bytes, spare = sp\<rparr> t = Inr (m, None, u)" and ex: "exchanged s a nd ns vb code m u q"
    using exchange [OF assms(1-6)] by blast
  moreover have "wf_state t" "valid_ip src" using assms(1) by (simp_all add: in_touch_def)
  ultimately have "view t' = heard (addr s a) code (fold (merge (addr t b)) (map (told s) ns) (view t))"
    using assms(7,8) exchange_view by blast
  then show ?thesis using ex by (auto simp: exchanged_def)
qed

text \<open>The second of the two hosts, and an acknowledgement from the first.\<close>

definition peer :: smudge where
  "peer = two_hosts\<lparr>thisHost := Some 1\<rparr>"

lemma peer_wf: "wf_state peer"
  using wf_two_hosts by (simp add: peer_def wf_state_def)

lemma peers_in_touch: "in_touch two_hosts 0 [10, 0, 0, 1] peer"
proof -
  have "nodeAddressString [10, 0, 0, 1] 9999 = ''10.0.0.1:9999''" "valid_ip [10, 0, 0, 1]"
    by (simp_all add: nodeAddressString_def IP_String_def To4_def ip_len_defs decimal.simps digit_char_def char_of_def bit_0 valid_ip_def)
  moreover have "sendable (heap two_hosts) (ipLen two_hosts) r" if "r < length (heap two_hosts)" for r
    using that by (cases r) (auto simp: sendable_def member_ip_def ip_len_defs)
  ultimately show ?thesis using peer_wf by (simp add: in_touch_def) (simp add: peer_def)
qed

lemma calm_ack: "\<exists>t. transmitVerbGenericUDP calm 1 None verbAck 9 two_hosts = Inr (None, t)"
proof -
  have "yields (transmitVerbGenericUDP calm 1 None verbAck 9 two_hosts) (\<lambda>_. True)"
    by (rule transmit_total [of _ 0 "''10.0.0.1:9999''"]) (simp_all add: two_hosts_enc getByAddress_def)
  then obtain err t where t: "transmitVerbGenericUDP calm 1 None verbAck 9 two_hosts = Inr (err, t)"
    by (auto elim!: yieldsE)
  moreover have "err = None" by (rule transmit_error [OF wf_two_hosts _ _ _ t]) (simp_all add: calm_def)
  ultimately show ?thesis by auto
qed

lemma ack_handled:
  assumes "wf_state s" and "valid_ip src" and "thisHost s \<noteq> None"
    and "decodeMessage src b s = Inr (msg, None, u)" and "verb msg = verbAck"
  shows "\<exists>t. receiveMessageUDP ch src b s = Inr (None, t)"
proof -
  note u = ensuresD [OF decodeMessage_ok [OF assms(1,2)] assms(4), unfolded prod.case]
  obtain r where r: "sender msg = Some r" using u by auto
  have host: "thisHost u \<noteq> None" using u assms(3) grows_same(6) [of s u] by auto
  obtain v where v: "absorb msg u = Inr v" "wf_state v"
    using absorb_ok [OF _ _ r host] u by (auto elim!: yieldsE)
  obtain t where "receiveVerbAckUDP msg v = Inr (None, t)"
    using receiveVerbAck_ok [OF v(2) r] by (auto elim!: yieldsE)
  then show ?thesis unfolding receiveMessage_stages assms(4) using v(1) assms(5) by (simp add: receive_verb_def)
qed

lemma sample_exchange:
  "\<exists>s' to bytes ns m u q t'. transmitVerbGenericUDP calm 1 None verbAck 9 two_hosts = Inr (None, s') \<and>
     sent s' = [(to, bytes)] \<and> decodeMessage [10, 0, 0, 1] \<lparr>live = bytes, spare = []\<rparr> peer = Inr (m, None, u) \<and>
     exchanged two_hosts 0 1 ns verbAck 9 m u q \<and>
     receiveMessageUDP calm [10, 0, 0, 1] \<lparr>live = bytes, spare = []\<rparr> peer = Inr (None, t')"
proof -
  obtain s' where s': "transmitVerbGenericUDP calm 1 None verbAck 9 two_hosts = Inr (None, s')" using calm_ack by blast
  then obtain to bytes where sent: "sent s' = sent two_hosts @ [(to, bytes)]"
    using ensuresD [OF transmit_ok [OF wf_two_hosts] s'] by auto
  obtain ns m u q where dec: "decodeMessage [10, 0, 0, 1] \<lparr>live = bytes, spare = []\<rparr> peer = Inr (m, None, u)"
    and ex: "exchanged two_hosts 0 1 ns verbAck 9 m u q"
    using exchange [OF peers_in_touch _ _ _ s' sent, of "[]"] by auto
  have "\<exists>t'. receiveMessageUDP calm [10, 0, 0, 1] \<lparr>live = bytes, spare = []\<rparr> peer = Inr (None, t')"
    using peers_in_touch ex by (intro ack_handled [OF peer_wf _ _ dec]) (simp_all add: in_touch_def exchanged_def peer_def)
  then show ?thesis using s' sent dec ex by auto
qed

text \<open>The peer knows the first host as alive, with heartbeat 5, and hears it with heartbeat 9: nothing changes.\<close>

theorem datagram_refines_merge_witness:
  "\<exists>b msg u r t. decodeMessage [10, 0, 0, 1] b peer = Inr (msg, None, u) \<and> receiveMessageUDP calm [10, 0, 0, 1] b peer = Inr (None, t) \<and>
     view t = heard (addr u r) 9 (fold (merge (addr peer 1)) (map (news_of u) (members msg)) (view peer))"
proof -
  obtain bytes ns m u q t' where dec: "decodeMessage [10, 0, 0, 1] \<lparr>live = bytes, spare = []\<rparr> peer = Inr (m, None, u)"
    and ex: "exchanged two_hosts 0 1 ns verbAck 9 m u q"
    and rx: "receiveMessageUDP calm [10, 0, 0, 1] \<lparr>live = bytes, spare = []\<rparr> peer = Inr (None, t')"
    using sample_exchange by blast
  have "valid_ip [10, 0, 0, 1]" "thisHost peer = Some 1" using peers_in_touch by (simp_all add: in_touch_def peer_def)
  note t = datagram_refines_merge [OF peer_wf this dec _ _ _ rx]
  have "senderHeartbeat m = 9" using ex by (simp add: exchanged_def)
  then show ?thesis using dec rx t [of q, unfolded \<open>senderHeartbeat m = 9\<close>] ex unfolding exchanged_def by blast
qed

theorem gossip_delivered_witness:
  "\<exists>s' to bytes t' ns. transmitVerbGenericUDP calm 1 None verbAck 9 two_hosts = Inr (None, s') \<and> sent s' = [(to, bytes)] \<and>
     receiveMessageUDP calm [10, 0, 0, 1] \<lparr>live = bytes, spare = []\<rparr> peer = Inr (None, t') \<and>
     view t' = heard ''10.0.0.1:9999'' 9 (fold (merge ''10.0.0.2:9999'') (map (told two_hosts) ns) (view peer))"
proof -
  obtain s' to bytes t' where s': "transmitVerbGenericUDP calm 1 None verbAck 9 two_hosts = Inr (None, s')"
    and sent: "sent s' = [(to, bytes)]"
    and rx: "receiveMessageUDP calm [10, 0, 0, 1] \<lparr>live = bytes, spare = []\<rparr> peer = Inr (None, t')"
    using sample_exchange by blast
  show ?thesis using gossip_delivered [OF peers_in_touch _ _ _ s' _ _ rx, of to 1] s' sent rx
    by (auto simp: peer_def)
qed

end
