(* ===== verification/Indirect.thy ===== *)
theory Indirect
  imports Gossip "HOL-Library.Sublist"
begin

text \<open>
  Indirect pings, the part of the protocol that spans three hosts. A host whose ping was not
  answered in time asks some others to ping the node in its place; each of them sends a non-forwarding
  ping and relays the acknowledgement. The theory specifies what the asking host sends, what the asked
  host does with the request and with the answer, and what the asking host does when the relayed
  acknowledgement arrives.
\<close>

section \<open>Asking others\<close>

text \<open>The entry that waits for a relayed acknowledgement; its callback is the node to be pinged.\<close>

definition ping_request :: "smudge \<Rightarrow> node_ref \<Rightarrow> node_ref \<Rightarrow> pendingAck" where
  "ping_request s n dn = \<lparr>startTime = now s, p_node = n, callback = Some dn, callbackCode = 0, packType = packPingReq\<rparr>"

text \<open>What asking keeps: everything but emission counters, gossip pools, pending acknowledgements and the network.\<close>

definition ask_frame :: "smudge \<Rightarrow> smudge \<Rightarrow> bool" where
  "ask_frame s t \<longleftrightarrow> counters_only (heap s) (heap t) \<and> origins t \<subseteq> origins s \<and> knownNodes t = knownNodes s \<and>
     thisHost t = thisHost s \<and> ipLen t = ipLen s \<and> currentHeartbeat t = currentHeartbeat s \<and> clock t = clock s"

lemma ask_frame_refl [simp]: "ask_frame s s"
  by (simp add: ask_frame_def)

lemma ask_frame_trans: "ask_frame s t \<Longrightarrow> ask_frame t u \<Longrightarrow> ask_frame s u"
  by (auto simp: ask_frame_def intro: counters_only_trans)

lemma ask_frame_tx: "tx_frame (s\<lparr>pendingAcks := ps\<rparr>) t \<Longrightarrow> ask_frame s t"
  using tx_frame_same [of "s\<lparr>pendingAcks := ps\<rparr>" t] tx_frame_counters [of "s\<lparr>pendingAcks := ps\<rparr>" t]
  by (simp add: ask_frame_def origins_def)

lemma ask_frame_same:
  assumes "ask_frame s t"
  shows "length (heap t) = length (heap s)" and "pingRequestCount t = pingRequestCount s"
    and "ping_request t n dn = ping_request s n dn"
    and "r < length (heap s) \<Longrightarrow> addr t r = addr s r" and "r < length (heap s) \<Longrightarrow> pack_key t r c = pack_key s r c"
    and "r < length (heap s) \<Longrightarrow> status (node t r) = status (node s r)"
  using assms counters_only_length extends_addressOf [OF counters_only_extends]
  by (auto simp: ask_frame_def pingRequestCount_def ping_request_def now_def pack_key_def counters_only_node)

lemma ask_frame_enc:
  assumes "wf_state s" and "ask_frame s t" and "enc_ok s" shows "enc_ok t"
  by (rule enc_ok_stable [OF assms(1) _ assms(3), of _ "{}"])
    (use assms(2) ask_frame_same(1) [OF assms(2)] in \<open>auto simp: ask_frame_def stable_def counters_only_extends\<close>)

lemma emitted_frame: "ask_frame s t \<Longrightarrow> emitted s this vb c bs \<Longrightarrow> emitted t this vb c bs"
  by (auto simp: emitted_def ask_frame_def counters_only_def)

lemma pack_key_inj: "pack_key s m c = pack_key s n c \<Longrightarrow> addr s m = addr s n"
  by (simp add: pack_key_def)

lemma ask_one:
  assumes "wf_state s" and "enc_ok s" and "thisHost s = Some this" and "0 < nodeMap_length (knownNodes s)"
    and "n < length (heap s)" and "dn < length (heap s)"
  shows "\<exists>err t ds. transmitVerbForwardUDP ch n dn c s = Inr (err, t) \<and> wf_state t \<and> ask_frame s t \<and>
    pendingAcks t = AList.update (pack_key s n c) (ping_request s n dn) (pendingAcks s) \<and> sent t = sent s @ ds \<and>
    (\<forall>(to, bs) \<in> set ds. emitted t this verbPingRequest c bs) \<and>
    (map fst ds = [addr s n] \<or> ds = [] \<and> \<not> (dial_ok ch \<and> write_ok ch \<and> pingRequestCount s \<le> 62))"
proof -
  let ?s = "s\<lparr>pendingAcks := AList.update (pack_key s n c) (ping_request s n dn) (pendingAcks s)\<rparr>"
  have wf: "wf_state ?s" using assms by (intro wf_state_new_pack) (simp_all add: pack_ok_def ping_request_def)
  obtain k where known: "getByAddress (knownNodes ?s) k \<noteq> None" using known_some [OF assms(4)] by auto
  have "yields (transmitVerbGenericUDP ch n (Some dn) verbPingRequest c ?s) (\<lambda>_. True)"
    by (rule transmit_total [OF wf _ _ known, of this]) (use assms in \<open>simp_all add: enc_ok_def\<close>)
  then obtain err t where t: "transmitVerbGenericUDP ch n (Some dn) verbPingRequest c ?s = Inr (err, t)" by (auto elim!: yieldsE)
  then have f: "transmitVerbForwardUDP ch n dn c s = Inr (err, t)"
    by (simp add: transmitVerbForwardUDP_def ping_request_def Let_def)
  have n: "n < length (heap ?s)" "thisHost ?s = Some this" using assms by simp_all
  have ok: "wf_state t" "tx_frame ?s t" and none: "err \<noteq> None \<Longrightarrow> sent t = sent s"
    using ensuresD [OF transmit_ok [OF wf n(1)] t] by auto
  have pend: "pendingAcks t = AList.update (pack_key s n c) (ping_request s n dn) (pendingAcks s)"
    using tx_frame_same(5) [OF ok(2)] by simp
  show ?thesis
  proof (cases err)
    case None
    then obtain bytes where "sent t = sent s @ [(addr s n, bytes)]" "emitted t this verbPingRequest c bytes"
      using transmit_emits [OF wf n t [unfolded None]] by auto
    then show ?thesis using f ok pend ask_frame_tx [OF ok(2)] by (intro exI [of _ "[(addr s n, bytes)]"] exI conjI) auto
  next
    case (Some e)
    have "\<not> (dial_ok ch \<and> write_ok ch \<and> pingRequestCount s \<le> 62)"
      using transmit_error [OF wf _ _ _ t] Some by (auto simp: pingRequestCount_def)
    then show ?thesis using f ok pend none Some ask_frame_tx [OF ok(2)] by (intro exI [of _ "[]"] exI conjI) auto
  qed
qed

text \<open>The loop over the targets; \<open>hb\<close> reads the heartbeat, which asking does not change.\<close>

definition ask_all :: "(nat \<Rightarrow> choices) \<Rightarrow> node_ref \<Rightarrow> (nat \<times> node_ref) list \<Rightarrow> smudge \<Rightarrow> smudge outcome" where
  "ask_all chs dn ins s = foldR (\<lambda>(i, n) s.
     bindR (transmitVerbForwardUDP (chs i) n dn (currentHeartbeat s) s) (\<lambda>(err, s). Inr s)) ins s"

definition asked :: "(nat \<Rightarrow> choices) \<Rightarrow> node_ref \<Rightarrow> node_ref \<Rightarrow> node_ref list \<Rightarrow> smudge \<Rightarrow> (string \<times> byte list) list \<Rightarrow> smudge \<Rightarrow> bool" where
  "asked chs this dn ns s ds t \<longleftrightarrow>
     (\<forall>n \<in> set ns. map_of (pendingAcks t) (pack_key s n (currentHeartbeat s)) = Some (ping_request s n dn)) \<and>
     (\<forall>k. k \<notin> (\<lambda>n. pack_key s n (currentHeartbeat s)) ` set ns \<longrightarrow> map_of (pendingAcks t) k = map_of (pendingAcks s) k) \<and>
     sent t = sent s @ ds \<and> subseq (map fst ds) (map (addr s) ns) \<and>
     (\<forall>(to, bytes) \<in> set ds. emitted t this verbPingRequest (currentHeartbeat s) bytes) \<and>
     ((\<forall>i. dial_ok (chs i) \<and> write_ok (chs i)) \<and> pingRequestCount s \<le> 62 \<longrightarrow> map fst ds = map (addr s) ns)"

lemma asked_Cons:
  assumes "wf_state s" and "ask_frame s u" and "ask_frame u t" and "n < length (heap s)" and "\<forall>m \<in> set ns. m < length (heap s)"
    and "distinct (map (addr s) (n # ns))"
    and "pendingAcks u = AList.update (pack_key s n (currentHeartbeat s)) (ping_request s n dn) (pendingAcks s)"
    and "sent u = sent s @ ds" and "\<forall>(to, bs) \<in> set ds. emitted u this verbPingRequest (currentHeartbeat s) bs"
    and "map fst ds = [addr s n] \<or> ds = [] \<and> \<not> (dial_ok (chs i) \<and> write_ok (chs i) \<and> pingRequestCount s \<le> 62)"
    and "asked chs this dn ns u es t"
  shows "asked chs this dn (n # ns) s (ds @ es) t"
proof -
  note same = ask_frame_same [OF assms(2)]
  have hb: "currentHeartbeat u = currentHeartbeat s" using assms(2) by (simp add: ask_frame_def)
  let ?key = "\<lambda>m. pack_key s m (currentHeartbeat s)"
  have keys: "pack_key u m (currentHeartbeat s) = ?key m" "addr u m = addr s m" if "m \<in> set ns" for m
    using that assms(5) by (simp_all add: same(4,5))
  have img: "(\<lambda>m. pack_key u m (currentHeartbeat s)) ` set ns = ?key ` set ns" "map (addr u) ns = map (addr s) ns"
    using keys by simp_all
  have new: "?key n \<notin> ?key ` set ns"
  proof
    assume "?key n \<in> ?key ` set ns"
    then obtain m where "m \<in> set ns" "?key n = ?key m" by blast
    then show False using pack_key_inj [of s n _ m] assms(6) by auto
  qed
  have A: "\<forall>m \<in> set ns. map_of (pendingAcks t) (?key m) = Some (ping_request s m dn)"
    "\<forall>k. k \<notin> ?key ` set ns \<longrightarrow> map_of (pendingAcks t) k = map_of (pendingAcks u) k" "sent t = sent u @ es"
    "subseq (map fst es) (map (addr s) ns)" "\<forall>(to, bytes) \<in> set es. emitted t this verbPingRequest (currentHeartbeat s) bytes"
    "(\<forall>i. dial_ok (chs i) \<and> write_ok (chs i)) \<and> pingRequestCount s \<le> 62 \<longrightarrow> map fst es = map (addr s) ns"
    using assms(11) keys unfolding asked_def hb img same(2,3) by simp_all
  have "map_of (pendingAcks t) (?key n) = Some (ping_request s n dn)" using A(2) new by (simp add: assms(7) map_of_update)
  then have 1: "\<forall>m \<in> set (n # ns). map_of (pendingAcks t) (?key m) = Some (ping_request s m dn)" using A(1) by simp
  have 2: "\<forall>k. k \<notin> ?key ` set (n # ns) \<longrightarrow> map_of (pendingAcks t) k = map_of (pendingAcks s) k"
    using A(2) by (simp add: assms(7) map_of_update)
  have 3: "subseq (map fst (ds @ es)) (map (addr s) (n # ns))" using A(4) assms(10) by auto
  have "\<forall>(to, bytes) \<in> set ds. emitted t this verbPingRequest (currentHeartbeat s) bytes"
    using assms(9) emitted_frame [OF assms(3)] by blast
  then have 4: "\<forall>(to, bytes) \<in> set (ds @ es). emitted t this verbPingRequest (currentHeartbeat s) bytes"
    using A(5) by (simp only: set_append ball_Un simp_thms)
  have 5: "(\<forall>i. dial_ok (chs i) \<and> write_ok (chs i)) \<and> pingRequestCount s \<le> 62 \<longrightarrow> map fst (ds @ es) = map (addr s) (n # ns)"
    using A(6) assms(10) by auto
  show ?thesis unfolding asked_def using 1 2 3 4 5 A(3) assms(8) by (simp only: append_assoc simp_thms)
qed

lemma ask_all_spec:
  assumes "wf_state s" and "enc_ok s" and "thisHost s = Some this" and "0 < nodeMap_length (knownNodes s)"
    and "\<forall>n \<in> set (map snd ins). n < length (heap s)" and "dn < length (heap s)" and "distinct (map (addr s) (map snd ins))"
  shows "\<exists>t ds. ask_all chs dn ins s = Inr t \<and> wf_state t \<and> ask_frame s t \<and> asked chs this dn (map snd ins) s ds t"
  using assms
proof (induction ins arbitrary: s)
  case Nil
  then show ?case by (auto simp: ask_all_def asked_def)
next
  case (Cons x ins)
  obtain i n where x: "x = (i, n)" by fastforce
  then have n: "n < length (heap s)" "\<forall>n \<in> set (map snd ins). n < length (heap s)" using Cons.prems(5) by simp_all
  obtain err u ds where u: "transmitVerbForwardUDP (chs i) n dn (currentHeartbeat s) s = Inr (err, u)" "wf_state u" "ask_frame s u"
    and pend: "pendingAcks u = AList.update (pack_key s n (currentHeartbeat s)) (ping_request s n dn) (pendingAcks s)"
    and ds: "sent u = sent s @ ds" "\<forall>(to, bs) \<in> set ds. emitted u this verbPingRequest (currentHeartbeat s) bs"
      "map fst ds = [addr s n] \<or> ds = [] \<and> \<not> (dial_ok (chs i) \<and> write_ok (chs i) \<and> pingRequestCount s \<le> 62)"
    using ask_one [OF Cons.prems(1-4) n(1) Cons.prems(6), of "chs i" "currentHeartbeat s"] by (elim exE conjE) (rule that)
  note same = ask_frame_same [OF u(3)]
  have addr: "map (addr u) (map snd ins) = map (addr s) (map snd ins)" using same(4) n(2) by simp
  have "distinct (map (addr u) (map snd ins))" unfolding addr using Cons.prems(7) by simp
  moreover have "\<forall>n \<in> set (map snd ins). n < length (heap u)" "dn < length (heap u)" "thisHost u = Some this"
      "0 < nodeMap_length (knownNodes u)"
    using same(1) n(2) Cons.prems(3,4,6) u(3) by (simp_all add: ask_frame_def)
  ultimately obtain t es where t: "ask_all chs dn ins u = Inr t" "wf_state t" "ask_frame u t" "asked chs this dn (map snd ins) u es t"
    using Cons.IH [OF u(2) ask_frame_enc [OF Cons.prems(1) u(3) Cons.prems(2)]] by blast
  have dist: "distinct (map (addr s) (n # map snd ins))" using Cons.prems(7) x by simp
  have "ask_all chs dn (x # ins) s = Inr t" using u(1) t(1) by (simp add: ask_all_def x)
  then show ?case
    using t(2) ask_frame_trans [OF u(3) t(3)] asked_Cons [OF Cons.prems(1) u(3) t(3) n dist pend ds t(4)] x
    by (intro exI [of _ t] exI [of _ "ds @ es"]) simp
qed

lemma targets_known:
  assumes "wf_state s" and "n \<in> targets s ex"
  shows "getByAddress (knownNodes s) (addr s n) = Some n"
proof -
  obtain k where "(k, n) \<in> set (nodes (knownNodes s))" using assms(2) by (auto simp: targets_def eligible_def)
  moreover from this have "addr s n = k" "wf_map (nodes (knownNodes s))"
    using map_ok_keys [OF wf_stateD(2) [OF assms(1)]] by (auto simp: keys_ok_def)
  ultimately show ?thesis by (simp add: getByAddress_def wf_map_of_iff)
qed

lemma targets_distinct:
  assumes "wf_state s" and "distinct ns" and "set ns \<subseteq> targets s ex" shows "distinct (map (addr s) ns)"
proof -
  have "inj_on (addr s) (set ns)"
    using assms(3) targets_known [OF assms(1)] by (intro inj_onI) (metis option.inject subsetD)
  then show ?thesis using assms(2) by (simp add: distinct_map)
qed

lemma forward_body:
  assumes "wf_state s" and "thisHost s = Some this" and "0 < nodeMap_length (knownNodes s)"
  obtains ns where "distinct ns" and "set ns \<subseteq> targets s [this, p_node pack]"
    and "length ns = min (nat (pingRequestCount s)) (card (targets s [this, p_node pack]))"
    and "\<forall>n \<in> set ns. n < length (heap s)" and "distinct (map (addr s) ns)"
    and "doForwardOnTimeout ord js chs pack s = (if ns = []
      then Inr (updateNodeStatus (p_node pack) StatusDead (currentHeartbeat s) (Some this) s)
      else ask_all chs (p_node pack) (enumerate 0 ns) s)"
proof -
  let ?ex = "[this, p_node pack]"
  have cnt: "\<not> pingRequestCount s < 0" using log_count_nonneg [OF assms(3)] by (simp add: pingRequestCount_def)
  obtain ns where tgt: "getTargetNodes ord js (pingRequestCount s) ?ex s = Inr ns" and ns: "distinct ns" "set ns \<subseteq> targets s ?ex"
    "length ns = min (nat (pingRequestCount s)) (card (targets s ?ex))"
    using getTargetNodes_spec [OF assms(1), of "pingRequestCount s" ord js ?ex] cnt by auto
  show ?thesis
  proof (rule that [OF ns])
    show "\<forall>n \<in> set ns. n < length (heap s)"
      using ns(2) targets_known [OF assms(1)] map_ok_lookup [OF wf_stateD(2) [OF assms(1)]] by blast
    show "distinct (map (addr s) ns)" by (rule targets_distinct [OF assms(1) ns(1,2)])
    show "doForwardOnTimeout ord js chs pack s = (if ns = []
      then Inr (updateNodeStatus (p_node pack) StatusDead (currentHeartbeat s) (Some this) s)
      else ask_all chs (p_node pack) (enumerate 0 ns) s)"
      unfolding doForwardOnTimeout_def assms(2) option.case tgt bindR_simps ask_all_def by simp
  qed
qed

text \<open>
  C12. Asking for indirect pings. On a running host that can write all addresses, a ping that timed out
  is passed on to as many different known and not dead other nodes as the limit allows, or to all there are. For each
  of them, and for nothing else, an entry waits for the relayed acknowledgement, under the address of
  the asked node and the current heartbeat, with the silent node as its callback. At most one ping
  request goes to each, in order, and to all of them when the network works. If there is nobody to ask, the silent
  node is dead at once; no other status changes.
\<close>

theorem forward_on_timeout_spec:
  assumes "wf_state s" and "enc_ok s" and "thisHost s = Some this" and "0 < nodeMap_length (knownNodes s)"
    and "pack_ok (heap s) pack"
  shows "\<exists>t ns ds. doForwardOnTimeout ord js chs pack s = Inr t \<and> wf_state t \<and>
    distinct ns \<and> set ns \<subseteq> targets s [this, p_node pack] \<and>
    length ns = min (nat (pingRequestCount s)) (card (targets s [this, p_node pack])) \<and>
    asked chs this (p_node pack) ns s ds t \<and>
    (\<forall>r < length (heap s). status (node t r) = (if ns = [] \<and> r = p_node pack then StatusDead else status (node s r)))"
proof -
  let ?nd = "p_node pack" and ?ex = "[this, p_node pack]"
  have nd: "?nd < length (heap s)" using assms(5) by (simp add: pack_ok_def)
  have host: "this < length (heap s)" using wf_stateD(7) [OF assms(1)] assms(3) by simp
  obtain ns where ns: "distinct ns" "set ns \<subseteq> targets s ?ex" "length ns = min (nat (pingRequestCount s)) (card (targets s ?ex))"
      "\<forall>n \<in> set ns. n < length (heap s)" "distinct (map (addr s) ns)"
    and body: "doForwardOnTimeout ord js chs pack s = (if ns = [] then Inr (updateNodeStatus ?nd StatusDead (currentHeartbeat s) (Some this) s)
      else ask_all chs ?nd (enumerate 0 ns) s)"
    using assms(1,3,4) by (rule forward_body)
  show ?thesis
  proof (cases "ns = []")
    case True
    let ?t = "updateNodeStatus ?nd StatusDead (currentHeartbeat s) (Some this) s"
    have "wf_state ?t" using host by (intro wf_state_updateNodeStatus assms(1) nd) simp_all
    moreover have "asked chs this ?nd ns s [] ?t" using True by (simp add: asked_def)
    moreover have "status (node ?t r) = (if r = ?nd then StatusDead else status (node s r))" for r
      using updateNodeStatus_node [OF nd] by (simp add: status_written_def)
    ultimately show ?thesis using body ns True by (intro exI [of _ ?t] exI [of _ ns] exI [of _ "[]"]) simp
  next
    case False
    have snd: "map snd (enumerate 0 ns) = ns" by (simp add: enumerate_eq_zip)
    obtain t ds where t: "ask_all chs ?nd (enumerate 0 ns) s = Inr t" "wf_state t" "ask_frame s t" "asked chs this ?nd ns s ds t"
      using ask_all_spec [OF assms(1-4) _ nd, of "enumerate 0 ns" chs] ns(4,5) unfolding snd by blast
    then show ?thesis using body ns False ask_frame_same(6) [OF t(3)] by (intro exI [of _ t] exI [of _ ns] exI [of _ ds]) simp
  qed
qed

text \<open>A third host beside the two.\<close>

definition trio :: smudge where
  "trio = two_hosts\<lparr>heap := [host_node 1, host_node 2, host_node 3], knownNodes :=
     \<lparr>nodes = [(''10.0.0.1:9999'', 0), (''10.0.0.2:9999'', 1), (''10.0.0.3:9999'', 2)]\<rparr>\<rparr>"

lemma trio_addr [simp]:
  "addressOf [host_node 1, host_node 2, host_node 3] 0 = ''10.0.0.1:9999''"
  "addressOf [host_node 1, host_node 2, host_node 3] (Suc 0) = ''10.0.0.2:9999''"
  "addressOf [host_node 1, host_node 2, host_node 3] 2 = ''10.0.0.3:9999''"
proof -
  have "IPv4 a b c d \<noteq> []" for a b c d by (simp add: IPv4_def)
  then show "addressOf [host_node 1, host_node 2, host_node 3] 0 = ''10.0.0.1:9999''"
    "addressOf [host_node 1, host_node 2, host_node 3] (Suc 0) = ''10.0.0.2:9999''"
    "addressOf [host_node 1, host_node 2, host_node 3] 2 = ''10.0.0.3:9999''"
    by (simp_all add: addressOf_wf nodeAddressString_def IP_String_def decimal.simps digit_char_def char_of_def bit_0)
qed

lemma trio_simps [simp]:
  "heap trio = [host_node 1, host_node 2, host_node 3]" "thisHost trio = Some 0" "sent trio = []" "spawned trio = []"
  "knownNodes trio = \<lparr>nodes = [(''10.0.0.1:9999'', 0), (''10.0.0.2:9999'', 1), (''10.0.0.3:9999'', 2)]\<rparr>"
  "ipLen trio = IPv4len" "broadcasts trio = []" "currentHeartbeat trio = 7" "pendingAcks trio = []"
  by (simp_all add: trio_def)

lemma wf_trio: "wf_state trio"
  by (simp add: trio_def wf_state_def wf_parts pd_ok_new) (simp add: nodeMap_init_def keys_ok_def wf_map_def)

lemma trio_enc: "enc_ok trio"
  by (simp add: enc_ok_def member_ip_def ip_len_defs)

lemma trio_count: "pingRequestCount trio = 3" "0 < nodeMap_length (knownNodes trio)"
  using log_count_table(5) by (simp_all add: pingRequestCount_def nodeMap_length_def eval_nat_numeral)

text \<open>The second host did not answer: with a third one to ask, that one gets a ping request; with none, the second is dead.\<close>

theorem forward_on_timeout_spec_witness:
  "(\<exists>t. doForwardOnTimeout [] [] (\<lambda>_. calm) late two_hosts = Inr t \<and> status (node t 1) = StatusDead) \<and>
   (\<exists>t bytes. doForwardOnTimeout [] [] (\<lambda>_. calm) late trio = Inr t \<and> sent t = [(''10.0.0.3:9999'', bytes)])"
proof (intro conjI)
  have ok: "pack_ok (heap two_hosts) late" "pack_ok (heap trio) late" by (simp_all add: pack_ok_def late_def)
  have t2: "targets two_hosts [0, p_node late] = {}"
    by (rule equals0I) (auto simp: targets_def eligible_def excluded_def late_def)
  have t3: "targets trio [0, p_node late] = {2}"
    by (auto simp: targets_def eligible_def excluded_def late_def)
  note spec = forward_on_timeout_spec [OF wf_two_hosts two_hosts_enc _ _ ok(1), of 0 "[]" "[]" "\<lambda>_. calm", unfolded t2 t3]
    forward_on_timeout_spec [OF wf_trio trio_enc _ trio_count(2) ok(2), of 0 "[]" "[]" "\<lambda>_. calm", unfolded t2 t3]
  show "\<exists>t. doForwardOnTimeout [] [] (\<lambda>_. calm) late two_hosts = Inr t \<and> status (node t 1) = StatusDead"
    using spec(1) by (auto simp: nodeMap_length_def late_def)
  obtain t ns ds where t: "doForwardOnTimeout [] [] (\<lambda>_. calm) late trio = Inr t" "set ns \<subseteq> {2}" "length ns = 1"
    "asked (\<lambda>_. calm) 0 (p_node late) ns trio ds t"
    using spec(2) trio_count by auto
  then have "ns = [2]" by (cases ns) auto
  then have "map fst ds = [''10.0.0.3:9999'']" "sent t = ds" using t(4) trio_count by (auto simp: asked_def calm_def)
  then show "\<exists>t bytes. doForwardOnTimeout [] [] (\<lambda>_. calm) late trio = Inr t \<and> sent t = [(''10.0.0.3:9999'', bytes)]"
    using t(1) by (cases ds) auto
qed

section \<open>Pinging in place of another\<close>

text \<open>The entry of a host that pings on behalf of \<open>a\<close>.\<close>

definition proxy_ping :: "smudge \<Rightarrow> messageMember \<Rightarrow> node_ref \<Rightarrow> pendingAck" where
  "proxy_ping s m a = \<lparr>startTime = now s, p_node = mm_node m, callback = Some a, callbackCode = mm_heartbeat m, packType = packNFP\<rparr>"

lemma request_forwarded:
  assumes "wf_state s" and "valid_ip src" and "thisHost s = Some this"
    and "decodeMessage src b s = Inr (msg, None, u)" and "verb msg = verbPingRequest"
    and "members msg = m # ms" and "mm_status m = StatusForwardTo"
    and "receiveMessageUDP ch src b s = Inr (None, t)"
  shows "\<exists>a bytes. sender msg = Some a \<and> a < length (heap u) \<and> wf_state t \<and> keeps u t \<and> thisHost t = Some this \<and>
    spawned t = spawned s \<and> now t = now s \<and>
    sent t = sent s @ [(addr u (mm_node m), bytes)] \<and> emitted t this verbNonForwardingPing (mm_heartbeat m) bytes \<and>
    pendingAcks t = AList.update (pack_key u (mm_node m) (mm_heartbeat m)) (proxy_ping s m a) (pendingAcks s)"
proof -
  have "thisHost s \<noteq> None" using assms(3) by simp
  from receive_split [OF assms(1,2) this assms(4,8)] obtain a v
    where a: "sender msg = Some a" "a < length (heap u)" and v: "wf_state v" "keeps u v" "message_alloc (heap v) msg"
      "still u v" and g: "grows s u" and rv: "receive_verb ch msg v = Inr (None, t)" by blast
  have "clock u = clock s" using g by (auto simp: grows_def)
  then have same: "thisHost v = Some this" "sent v = sent s" "pendingAcks v = pendingAcks s" "spawned v = spawned s" "now v = now s"
    using v(2,4) grows_same [OF g] assms(3) by (simp_all add: keeps_def still_def now_def)
  let ?k = "pack_key u (mm_node m) (mm_heartbeat m)"
  let ?v = "v\<lparr>pendingAcks := AList.update ?k (proxy_ping s m a) (pendingAcks v)\<rparr>"
  have nd: "mm_node m < length (heap v)" "a < length (heap v)"
    using v(3) assms(6) a(1) by (simp_all add: message_alloc_def member_alloc_def)
  have mu: "mm_node m < length (heap u)" using nd(1) v(4) by (simp add: still_def stable_def)
  have addr: "addr v (mm_node m) = addr u (mm_node m)" using keeps_addr [OF v(2) mu] .
  then have tx: "transmitVerbGenericUDP ch (mm_node m) None verbNonForwardingPing (mm_heartbeat m) ?v = Inr (None, t)"
    using rv assms(5-7) a(1) same(5)
    by (simp add: receive_verb_def receiveVerbForwardUDP_def getIdx_def pack_key_def proxy_ping_def Let_def)
  have wf: "wf_state ?v" using nd by (intro wf_state_new_pack [OF v(1)]) (simp add: pack_ok_def proxy_ping_def)
  have nd': "mm_node m < length (heap ?v)" "thisHost ?v = Some this" using nd same by simp_all
  have ok: "wf_state t" "tx_frame ?v t" using ensuresD [OF transmit_ok [OF wf nd'(1)] tx] by auto
  have "keeps u t" using keeps_trans [OF v(2) keeps_trans [OF keeps_updates(1) keeps_tx [OF ok(2)]]] .
  then show ?thesis using transmit_emits [OF wf nd' tx] a ok addr same tx_frame_same [OF ok(2)] by (auto simp: now_def)
qed

text \<open>
  C13. A request for an indirect ping is carried out: a host that handles a ping request without an error has sent exactly one datagram,
  to the node of the request, a non-forwarding ping from this host with the heartbeat of the request. It waits for the
  acknowledgement of that node with an entry whose callback is the asking host; all other entries stay.
\<close>

theorem ping_request_forwarded:
  assumes "wf_state s" and "valid_ip src" and "thisHost s = Some this"
    and "decodeMessage src b s = Inr (msg, None, u)" and "verb msg = verbPingRequest"
    and "members msg = m # ms" and "mm_status m = StatusForwardTo"
    and "receiveMessageUDP ch src b s = Inr (None, t)"
  shows "\<exists>a bytes. sender msg = Some a \<and> sent t = sent s @ [(addr u (mm_node m), bytes)] \<and>
    emitted t this verbNonForwardingPing (mm_heartbeat m) bytes \<and>
    (\<forall>k. map_of (pendingAcks t) k = (if k = pack_key u (mm_node m) (mm_heartbeat m) then Some (proxy_ping s m a) else map_of (pendingAcks s) k))"
  using request_forwarded [OF assms] by (auto simp: map_of_update)

lemma ack_relayed:
  assumes "wf_state s" and "valid_ip src" and "thisHost s \<noteq> None"
    and "decodeMessage src b s = Inr (msg, None, u)" and "verb msg = verbAck" and "sender msg = Some r"
    and "map_of (pendingAcks s) (pack_key u r (senderHeartbeat msg)) = Some p" and "callback p = Some a"
    and "receiveMessageUDP ch src b s = Inr (err, t)"
  shows "err = None \<and> wf_state t \<and> keeps u t \<and> sent t = sent s \<and> pingdata t = pingdata s \<and>
    spawned t = spawned s @ [TransmitVerbAck a (callbackCode p)] \<and>
    pendingAcks t = AList.delete (pack_key u r (senderHeartbeat msg)) (pendingAcks s)"
proof -
  from receive_split [OF assms(1-4,9)] obtain q v
    where q: "sender msg = Some q" "q < length (heap u)" and v: "wf_state v" "keeps u v" "still u v"
      and g: "grows s u" and rv: "receive_verb ch msg v = Inr (err, t)" by blast
  have same: "sent v = sent s" "pendingAcks v = pendingAcks s" "spawned v = spawned s" "pingdata v = pingdata s"
    using v(3) grows_same [OF g] by (simp_all add: still_def)
  have key: "pack_key v r c = pack_key u r c" for c using keeps_addr [OF v(2)] q assms(6) by (simp add: pack_key_def)
  have m: "map_of (pendingAcks v) (pack_key v r (senderHeartbeat msg)) = Some p" using assms(7) same by (simp add: key)
  have rv': "receiveVerbAckUDP msg v = Inr (err, t)" using rv assms(5) by (simp add: receive_verb_def)
  then have t: "err = None" "t = modify_node r (Touch (now v)) v\<lparr>spawned := spawned v @ [TransmitVerbAck a (callbackCode p)],
      pendingAcks := AList.delete (pack_key u r (senderHeartbeat msg)) (pendingAcks v)\<rparr>"
    unfolding receiveVerbAck_matched [OF assms(6) m] using assms(8) by (simp_all add: settle_pack_def key)
  have "keeps u t" unfolding t(2) using keeps_trans [OF v(2) keeps_trans [OF touch_keeps keeps_trans [OF keeps_updates(3) keeps_updates(1)]]] .
  moreover have "wf_state t" using ensuresD [OF yields_ensures [OF receiveVerbAck_ok [OF v(1) assms(6)]] rv'] by simp
  ultimately show ?thesis using t same by simp
qed

text \<open>
  C6. The answer to an indirect ping is relayed: when the pinged node acknowledges with the
  heartbeat of the request, the asked host starts one acknowledgement to the asking host, with that heartbeat, and nothing
  waits for the node any more. Run without an error, it sends it; so the asked host has sent two datagrams
  in all, the ping to the node and the acknowledgement to the asking host.
\<close>

theorem indirect_ping_relayed:
  assumes "wf_state s" and "thisHost s = Some this"
    and "valid_ip src" and "decodeMessage src b s = Inr (req, None, u)" and "verb req = verbPingRequest"
    and "members req = m # ms" and "mm_status m = StatusForwardTo" and "sender req = Some a"
    and "receiveMessageUDP ch src b s = Inr (None, t)"
    and "valid_ip src'" and "decodeMessage src' b' t = Inr (ack, None, v)" and "verb ack = verbAck" and "sender ack = Some r"
    and "addr v r = addr u (mm_node m)" and "senderHeartbeat ack = mm_heartbeat m"
    and "receiveMessageUDP ch' src' b' t = Inr (err, w)"
    and "transmitVerbAckUDP ch'' a (mm_heartbeat m) (w\<lparr>spawned := spawned s\<rparr>) = Inr (None, x)"
  shows "spawned w = spawned s @ [TransmitVerbAck a (mm_heartbeat m)] \<and>
    map_of (pendingAcks x) (pack_key u (mm_node m) (mm_heartbeat m)) = None \<and>
    (\<exists>nfp bytes. sent x = sent s @ [(addr u (mm_node m), nfp), (addr u a, bytes)] \<and>
      emitted t this verbNonForwardingPing (mm_heartbeat m) nfp \<and> emitted x this verbAck (mm_heartbeat m) bytes)"
proof -
  obtain nfp where a: "a < length (heap u)" and t: "wf_state t" "keeps u t" "thisHost t = Some this" "spawned t = spawned s"
    and nfp: "sent t = sent s @ [(addr u (mm_node m), nfp)]" "emitted t this verbNonForwardingPing (mm_heartbeat m) nfp"
    and pend: "pendingAcks t = AList.update (pack_key u (mm_node m) (mm_heartbeat m)) (proxy_ping s m a) (pendingAcks s)"
    using request_forwarded [OF assms(1,3,2,4-7,9)] assms(8) by auto
  let ?k = "pack_key u (mm_node m) (mm_heartbeat m)"
  have key: "pack_key v r (senderHeartbeat ack) = ?k" using assms(14,15) by (simp add: pack_key_def)
  have host: "thisHost t \<noteq> None" using t(3) by simp
  have "map_of (pendingAcks t) (pack_key v r (senderHeartbeat ack)) = Some (proxy_ping s m a)"
    by (simp add: key pend map_of_update)
  from ack_relayed [OF t(1) assms(10) host assms(11-13) this, of a] assms(16)
  have w: "wf_state w" "keeps v w" "sent w = sent t" "spawned w = spawned s @ [TransmitVerbAck a (mm_heartbeat m)]"
    "pendingAcks w = AList.delete ?k (pendingAcks t)"
    using t(4) by (simp_all add: proxy_ping_def key)
  have "keeps t w"
    using keeps_trans [OF keeps_grows w(2)] ensuresD [OF decodeMessage_ok [OF t(1) assms(10)] assms(11)] by simp
  then have k: "keeps u w" using t(2) keeps_trans by blast
  let ?w = "w\<lparr>spawned := spawned s\<rparr>"
  have "\<forall>g \<in> set (spawned s). goroutine_ok (heap w) g" using wf_stateD(8) [OF w(1)] w(4) by simp
  then have wf: "wf_state ?w" using w(1) by (simp add: wf_state_def)
  have al: "a < length (heap ?w)" "thisHost ?w = Some this" "addr ?w a = addr u a"
    using keeps_length [OF k a] keeps_addr [OF k a] \<open>keeps t w\<close> t(3) by (simp_all add: keeps_def)
  obtain bytes where "sent x = sent ?w @ [(addr ?w a, bytes)]" "emitted x this verbAck (mm_heartbeat m) bytes"
    using transmit_emits [OF wf al(1,2) assms(17) [unfolded transmitVerbAckUDP_def]] by blast
  moreover have "pendingAcks x = pendingAcks w"
    using tx_frame_same(5) ensuresD [OF transmit_ok [OF wf al(1)] assms(17) [unfolded transmitVerbAckUDP_def]] by fastforce
  ultimately show ?thesis using w nfp al(3) by (auto simp: map_of_delete)
qed

text \<open>
  C37. The asking host takes the relayed acknowledgement for the end of a ping that it made on behalf of
  the silent node: it starts an acknowledgement with heartbeat zero to that node, which never asked for one,
  and records no response time. It does the same with an acknowledgement of the asked node to a direct ping of the same heartbeat,
  since the request has taken the place of that ping among the pending ones.
\<close>

theorem requester_acks_target:
  assumes "wf_state s" and "thisHost s \<noteq> None" and "n < length (heap s)" and "dn < length (heap s)"
    and "transmitVerbForwardUDP ch n dn c s = Inr (err, t)"
    and "valid_ip src" and "decodeMessage src b t = Inr (msg, None, u)" and "verb msg = verbAck" and "sender msg = Some r"
    and "addr u r = addr s n" and "senderHeartbeat msg = c" and "receiveMessageUDP ch' src b t = Inr (err', w)"
  shows "spawned w = spawned s @ [TransmitVerbAck dn 0] \<and> pingdata w = pingdata s \<and> map_of (pendingAcks w) (pack_key s n c) = None"
proof -
  let ?s = "s\<lparr>pendingAcks := AList.update (pack_key s n c) (ping_request s n dn) (pendingAcks s)\<rparr>"
  have wf: "wf_state ?s" using assms by (intro wf_state_new_pack) (simp_all add: pack_ok_def ping_request_def)
  have tx: "transmitVerbGenericUDP ch n (Some dn) verbPingRequest c ?s = Inr (err, t)"
    using assms(5) by (simp add: transmitVerbForwardUDP_def ping_request_def Let_def)
  have t: "wf_state t" "tx_frame ?s t" using ensuresD [OF transmit_ok [OF wf] tx] assms(3) by auto
  note same = tx_frame_same [OF t(2)]
  have key: "pack_key u r (senderHeartbeat msg) = pack_key s n c" using assms(10,11) by (simp add: pack_key_def)
  have m: "map_of (pendingAcks t) (pack_key u r (senderHeartbeat msg)) = Some (ping_request s n dn)"
    using same(5) by (simp add: key map_of_update)
  have host: "thisHost t \<noteq> None" using same(2) assms(2) by simp
  show ?thesis
    using ack_relayed [OF t(1) assms(6) host assms(7-9) m _ assms(12), of dn] same
    by (simp add: ping_request_def key map_of_delete)
qed

section \<open>An indirect ping among three hosts\<close>

lemma handled_calm_size:
  assumes "wf_state s" and "all_v4 s" and "thisHost s \<noteq> None" and "valid_ip src" and "To4 src \<noteq> []"
    and "decodeMessage src b s = Inr (msg, None, u)" and "verb msg = verbPingRequest \<longrightarrow> members msg \<noteq> []"
    and "nodeMap_length (knownNodes s) + length (members msg) < 10"
  shows "\<exists>t. receiveMessageUDP calm src b s = Inr (None, t) \<and> wf_state t \<and> all_v4 t \<and> thisHost t = thisHost s \<and>
    0 < nodeMap_length (knownNodes t) \<and> nodeMap_length (knownNodes t) \<le> nodeMap_length (knownNodes s) + length (members msg) + 1"
proof -
  obtain t where t: "receiveMessageUDP calm src b s = Inr (None, t)" "wf_state t" "all_v4 t"
    using v4_handled_calm [OF assms] by blast
  note u = v4_decoded [OF assms(1-6)]
  obtain r where r: "sender msg = Some r" using ensuresD [OF decodeMessage_ok [OF assms(1,4)] assms(6)] by auto
  obtain v where v: "absorb msg u = Inr v" "receive_verb calm msg v = Inr (None, t)"
    using t(1) assms(6) by (auto simp: receiveMessage_stages elim!: bindR_InrE)
  have ok: "wf_state v" "keeps u v" "nodeMap_contains (heap v) (knownNodes v) r"
    using ensuresD [OF yields_ensures [OF absorb_ok [OF _ _ r]] v(1)] u by auto
  have alloc: "message_alloc (heap v) msg" using message_alloc_keeps [OF ok(2)] u by blast
  have "knownNodes t = knownNodes v" using ensuresD [OF receive_verb_known [OF ok(1) alloc r] v(2)] by simp
  moreover have "thisHost t = thisHost s"
    using ensuresD [OF receiveMessage_ok [OF assms(1,4,3)] t(1)] by (simp add: keeps_def)
  moreover have "0 < nodeMap_length (knownNodes v)" using ok(3) by (auto simp: contains_iff getByAddress_def nodeMap_length_def)
  ultimately show ?thesis using t absorb_size [OF v(1) r] grows_same [of s u] u by auto
qed

text \<open>The third host asks the first one to ping the second.\<close>

lemma trio_request:
  "\<exists>b req u m. decodeMessage [10, 0, 0, 3] b trio = Inr (req, None, u) \<and> verb req = verbPingRequest \<and> members req = [m] \<and>
     mm_status m = StatusForwardTo \<and> mm_heartbeat m = 7 \<and> addr u (mm_node m) = ''10.0.0.2:9999'' \<and> sender req \<noteq> None"
proof -
  let ?m = "\<lparr>mm_source = None, mm_heartbeat = 7, mm_node = 1, mm_status = StatusForwardTo\<rparr>"
  have "valid_ip [10, 0, 0, 3]" "member_sendable (heap trio) (ipLen trio) ?m"
    by (simp_all add: valid_ip_def member_sendable_def sendable_def member_ip_def ip_len_defs)
  then show ?thesis
    using message_sent [OF wf_trio, of "[10, 0, 0, 3]" "(newMessage verbPingRequest (Some 2) 9)\<lparr>members := [?m]\<rparr>" 2 "heap trio" "[]"]
    by (auto simp: newMessage_def same_member_def list_all2_Cons1) blast
qed

lemma trio_v4: "all_v4 trio"
  by (simp add: all_v4_def)

lemma trio_asked:
  "\<exists>b req u m a t. decodeMessage [10, 0, 0, 3] b trio = Inr (req, None, u) \<and> verb req = verbPingRequest \<and> members req = [m] \<and>
     mm_status m = StatusForwardTo \<and> mm_heartbeat m = 7 \<and> addr u (mm_node m) = ''10.0.0.2:9999'' \<and> sender req = Some a \<and>
     receiveMessageUDP calm [10, 0, 0, 3] b trio = Inr (None, t) \<and> wf_state t \<and> all_v4 t \<and> thisHost t = Some 0 \<and>
     nodeMap_length (knownNodes t) \<le> 5"
proof -
  obtain b req u m a where dec: "decodeMessage [10, 0, 0, 3] b trio = Inr (req, None, u)" and req: "verb req = verbPingRequest"
    "members req = [m]" "mm_status m = StatusForwardTo" "mm_heartbeat m = 7" "addr u (mm_node m) = ''10.0.0.2:9999''" "sender req = Some a"
    using trio_request by (elim exE conjE) auto
  have src: "valid_ip [10, 0, 0, 3]" "To4 [10, 0, 0, 3] \<noteq> []" by (simp_all add: valid_ip_def To4_def ip_len_defs)
  obtain t where "receiveMessageUDP calm [10, 0, 0, 3] b trio = Inr (None, t)" "wf_state t" "all_v4 t" "thisHost t = Some 0"
    "nodeMap_length (knownNodes t) \<le> 5"
    using handled_calm_size [OF wf_trio trio_v4 _ src dec] req by (auto simp: nodeMap_length_def)
  then show ?thesis using dec req by (intro exI conjI)
qed

theorem ping_request_forwarded_witness:
  "\<exists>b t bytes. receiveMessageUDP calm [10, 0, 0, 3] b trio = Inr (None, t) \<and> sent t = [(''10.0.0.2:9999'', bytes)] \<and>
     emitted t 0 verbNonForwardingPing 7 bytes"
proof -
  obtain b req u m t where dec: "decodeMessage [10, 0, 0, 3] b trio = Inr (req, None, u)" and req: "verb req = verbPingRequest"
    "members req = [m]" "mm_status m = StatusForwardTo" and m: "mm_heartbeat m = 7" "addr u (mm_node m) = ''10.0.0.2:9999''"
    and t: "receiveMessageUDP calm [10, 0, 0, 3] b trio = Inr (None, t)" using trio_asked by blast
  have "valid_ip [10, 0, 0, 3]" "thisHost trio = Some 0" by (simp_all add: valid_ip_def ip_len_defs)
  from ping_request_forwarded [OF wf_trio this dec req t] show ?thesis using t m by auto
qed

text \<open>The second host acknowledges with heartbeat 7, to any host of the same address mode.\<close>

lemma second_acks:
  assumes "wf_state t" and "ipLen t = IPv4len" and "thisHost t \<noteq> None"
  shows "\<exists>b ack v r w. decodeMessage [10, 0, 0, 2] b t = Inr (ack, None, v) \<and> verb ack = verbAck \<and> sender ack = Some r \<and>
    addr v r = ''10.0.0.2:9999'' \<and> senderHeartbeat ack = 7 \<and> members ack = [] \<and> receiveMessageUDP calm [10, 0, 0, 2] b t = Inr (None, w)"
proof -
  have "nodeAddressString [10, 0, 0, 2] 9999 = ''10.0.0.2:9999''"
    by (simp add: nodeAddressString_def IP_String_def To4_def ip_len_defs decimal.simps digit_char_def char_of_def bit_0)
  then obtain b ack v r where dec: "decodeMessage [10, 0, 0, 2] b t = Inr (ack, None, v)" and ack: "verb ack = verbAck" "sender ack = Some r"
    "addr v r = ''10.0.0.2:9999''" "senderHeartbeat ack = 7" "members ack = []"
    using message_sent [OF assms(1) sample_src, of "newMessage verbAck (Some 1) 7" 1 "heap trio" "[]"]
    by (auto simp: newMessage_def)
  moreover obtain w where "receiveMessageUDP calm [10, 0, 0, 2] b t = Inr (None, w)"
    using ack_handled [OF assms(1) sample_src assms(3) dec ack(1)] by blast
  ultimately show ?thesis by (intro exI conjI)
qed

theorem requester_acks_target_witness:
  "\<exists>err t b w. transmitVerbForwardUDP calm 1 2 7 trio = Inr (err, t) \<and> receiveMessageUDP calm [10, 0, 0, 2] b t = Inr (None, w) \<and>
     spawned w = [TransmitVerbAck 2 0]"
proof -
  obtain err t ds where t: "transmitVerbForwardUDP calm 1 2 7 trio = Inr (err, t)" "wf_state t" "ask_frame trio t"
    using ask_one [OF wf_trio trio_enc, of 0 1 2 calm 7] by (auto simp: nodeMap_length_def)
  have same: "ipLen t = IPv4len" "thisHost t \<noteq> None" using t(3) by (simp_all add: ask_frame_def)
  obtain b ack v r w where "decodeMessage [10, 0, 0, 2] b t = Inr (ack, None, v)" "verb ack = verbAck" "sender ack = Some r"
    "addr v r = ''10.0.0.2:9999''" "senderHeartbeat ack = 7" and w: "receiveMessageUDP calm [10, 0, 0, 2] b t = Inr (None, w)"
    using second_acks [OF t(2) same] by blast
  then have "spawned w = [TransmitVerbAck 2 0]"
    using requester_acks_target [OF wf_trio _ _ _ t(1) sample_src, of b ack v r calm None w] by simp
  then show ?thesis using t(1) w by blast
qed

lemma transmit_ack_calm:
  assumes "wf_state s" and "all_v4 s" and "thisHost s \<noteq> None" and "0 < nodeMap_length (knownNodes s)"
    and "nodeMap_length (knownNodes s) \<le> 10" and "a < length (heap s)"
  shows "\<exists>t. transmitVerbAckUDP calm a c s = Inr (None, t)"
proof -
  have "pingRequestCount s \<le> 62"
    using log_count_mono [OF assms(4,5)] by (simp add: pingRequestCount_def)
  moreover obtain k where known: "getByAddress (knownNodes s) k \<noteq> None" using known_some [OF assms(4)] by auto
  obtain this where host: "thisHost s = Some this" using assms(3) by blast
  have "yields (transmitVerbGenericUDP calm a None verbAck c s) (\<lambda>_. True)"
    by (rule transmit_total [OF assms(1) all_v4_enc_ok [OF assms(1,2)] host known]) simp
  then obtain err t where "transmitVerbGenericUDP calm a None verbAck c s = Inr (err, t)" by (auto elim!: yieldsE)
  ultimately show ?thesis using transmit_error [OF assms(1), of calm] by (auto simp: transmitVerbAckUDP_def calm_def)
qed

theorem indirect_ping_relayed_witness:
  "\<exists>b t b' w a x nfp to bytes. receiveMessageUDP calm [10, 0, 0, 3] b trio = Inr (None, t) \<and>
     receiveMessageUDP calm [10, 0, 0, 2] b' t = Inr (None, w) \<and> spawned w = [TransmitVerbAck a 7] \<and>
     transmitVerbAckUDP calm a 7 (w\<lparr>spawned := []\<rparr>) = Inr (None, x) \<and>
     sent x = [(''10.0.0.2:9999'', nfp), (to, bytes)]"
proof -
  obtain b req u m a t where dec: "decodeMessage [10, 0, 0, 3] b trio = Inr (req, None, u)"
    and req: "verb req = verbPingRequest" "members req = [m]" "mm_status m = StatusForwardTo" "sender req = Some a"
    and m: "mm_heartbeat m = 7" "addr u (mm_node m) = ''10.0.0.2:9999''"
    and t: "receiveMessageUDP calm [10, 0, 0, 3] b trio = Inr (None, t)" "wf_state t" "all_v4 t" "thisHost t = Some 0"
      "nodeMap_length (knownNodes t) \<le> 5"
    using trio_asked by (elim exE conjE) (rule that)
  have src: "valid_ip [10, 0, 0, 3]" "thisHost trio = Some 0" "thisHost t \<noteq> None" "ipLen t = IPv4len"
    using t(3,4) by (simp_all add: valid_ip_def ip_len_defs all_v4_def)
  obtain b' ack v r where dec': "decodeMessage [10, 0, 0, 2] b' t = Inr (ack, None, v)"
    and ack: "verb ack = verbAck" "sender ack = Some r" "addr v r = ''10.0.0.2:9999''" "senderHeartbeat ack = 7" "members ack = []"
    using second_acks [OF t(2) src(4,3)] by blast
  obtain w where w: "receiveMessageUDP calm [10, 0, 0, 2] b' t = Inr (None, w)" "wf_state w" "all_v4 w" "thisHost w = Some 0"
    "0 < nodeMap_length (knownNodes w)" "nodeMap_length (knownNodes w) \<le> 6"
    using handled_calm_size [OF t(2,3) src(3) sample_src two_hosts_v4(2) dec'] ack t(4,5) by auto
  have al: "a < length (heap w)"
  proof -
    have "a < length (heap u)" using ensuresD [OF decodeMessage_ok [OF wf_trio src(1)] dec] req(4) by (simp add: message_alloc_def)
    moreover have "keeps u t" using request_forwarded [OF wf_trio src(1,2) dec req(1-3) t(1)] by blast
    moreover have "keeps t w" using ensuresD [OF receiveMessage_ok [OF t(2) sample_src src(3)] w(1)] by simp
    ultimately show ?thesis using keeps_length by blast
  qed
  have "wf_state (w\<lparr>spawned := []\<rparr>)" "all_v4 (w\<lparr>spawned := []\<rparr>)" using w(2,3) by (simp_all add: wf_state_def all_v4_def)
  then obtain x where x: "transmitVerbAckUDP calm a 7 (w\<lparr>spawned := []\<rparr>) = Inr (None, x)"
    using transmit_ack_calm [of "w\<lparr>spawned := []\<rparr>" a 7] w(4-6) al by auto
  show ?thesis
    using indirect_ping_relayed [OF wf_trio src(2,1) dec req t(1) sample_src dec' ack(1,2) _ _ w(1), of calm x] ack(3,4) m t(1) w(1) x
    by auto blast
qed

end
