(* ===== verification/Progress.thy ===== *)
theory Progress
  imports Indirect
begin

text \<open>
  The running program does not stop by itself. As long as the host can write the addresses it has heard of
  and knows some node, every goroutine can take its next turn, whatever the network, the map orders and the random
  numbers are. What can stop the program is a datagram, and which ones do is the subject of \<open>Protocol\<close>.
\<close>

section \<open>Operations that always return\<close>

definition able :: "smudge \<Rightarrow> bool" where
  "able s \<longleftrightarrow> wf_state s \<and> enc_ok s \<and> thisHost s \<noteq> None \<and> 0 < nodeMap_length (knownNodes s)"

lemma able_updates [simp]:
  "able s \<Longrightarrow> able (s\<lparr>currentHeartbeat := c\<rparr>)"
  "able s \<Longrightarrow> wf_map ds \<Longrightarrow> able (s\<lparr>deadNodeRetries := ds\<rparr>)"
  "able s \<Longrightarrow> packs_ok (heap s) ps \<Longrightarrow> able (s\<lparr>pendingAcks := ps\<rparr>)"
  "able s \<Longrightarrow> spawned s = gs @ g # hs \<Longrightarrow> able (s\<lparr>spawned := gs @ hs\<rparr>)"
  by (auto simp: able_def enc_ok_def wf_state_def)

lemma send_total:
  assumes "able s" and "ref_ok (heap s) fwd"
  shows "yields (transmitVerbGenericUDP ch nd fwd vb code s) (\<lambda>_. True)"
proof -
  obtain this k where "thisHost s = Some this" "getByAddress (knownNodes s) k \<noteq> None"
    using assms(1) known_some [of "knownNodes s"] by (auto simp: able_def)
  then show ?thesis using assms by (intro transmit_total) (auto simp: able_def)
qed

lemma ping_total:
  assumes "able s" and "nd < length (heap s)" shows "yields (PingNode ch nd s) (\<lambda>_. True)"
proof -
  have "packs_ok (heap s) (AList.update k \<lparr>startTime = t, p_node = nd, callback = None, callbackCode = 0, packType = packPing\<rparr> (pendingAcks s))" for k t
    using assms by (intro packs_ok_update wf_stateD) (simp_all add: able_def pack_ok_def)
  then show ?thesis using assms(1) by (simp add: PingNode_def transmitVerbPingUDP_def Let_def send_total)
qed

lemma backoff_able:
  assumes "able s" and "dead_backoff nd s = (True, t)"
  shows "able t \<and> heap t = heap s"
proof -
  have "wf_map (AList.update k d (deadNodeRetries s))" for k d using assms(1) wf_stateD(4) by (simp add: able_def)
  then show ?thesis using assms by (auto simp: dead_backoff_def Let_def split: if_splits)
qed

lemma visit_total:
  assumes "able s" and "nd < length (heap s)" shows "yields (visit_node ch nd s) (\<lambda>_. True)"
proof -
  obtain go t where g: "(if status (node s nd) = StatusDead then dead_backoff nd s else (True, s)) = (go, t)" by fastforce
  show ?thesis
  proof (cases go)
    case True
    then have t: "able t" "heap t = heap s" using g assms(1) backoff_able by (auto split: if_splits)
    then have "yields (PingNode ch nd (t\<lparr>currentHeartbeat := currentHeartbeat t + 1\<rparr>)) (\<lambda>_. True)"
      using assms(2) by (intro ping_total) simp_all
    then show ?thesis using g True by (auto simp: visit_node_def elim!: yieldsE)
  next
    case False
    then show ?thesis using g by (simp add: visit_node_def)
  qed
qed

lemma loop_total:
  assumes "able s" and "loop_ok (heap s) l" shows "yields (loop_step ord js ch l s) (\<lambda>_. True)"
proof (cases l)
  case (Going ns c)
  then show ?thesis using visit_total [OF assms(1)] assms(2)
    by (cases ns) (auto elim!: yieldsE intro!: yields_bind simp del: Let_def)
qed (use assms in \<open>auto simp: able_def split: option.splits\<close>)

lemma forward_total:
  assumes "able s" and "pack_ok (heap s) p" shows "yields (doForwardOnTimeout ord js chs p s) (\<lambda>_. True)"
proof -
  obtain this where s: "wf_state s" "enc_ok s" "thisHost s = Some this" "0 < nodeMap_length (knownNodes s)"
    using assms(1) by (auto simp: able_def)
  have nd: "p_node p < length (heap s)" using assms(2) by (simp add: pack_ok_def)
  obtain ns where ns: "\<forall>n \<in> set ns. n < length (heap s)" "distinct (map (addr s) ns)"
    and body: "doForwardOnTimeout ord js chs p s = (if ns = [] then Inr (updateNodeStatus (p_node p) StatusDead (currentHeartbeat s) (Some this) s)
      else ask_all chs (p_node p) (enumerate 0 ns) s)"
    using forward_body [OF s(1,3,4)] by metis
  have "map snd (enumerate 0 ns) = ns" by (simp add: enumerate_eq_zip)
  then show ?thesis using body ask_all_spec [OF s _ nd, of "enumerate 0 ns" chs] ns by auto
qed

lemma announce_total:
  assumes "thisHost s \<noteq> None" and "length (clusterNameOf s) \<le> 255"
  shows "yields (announce_once dial write a s) (\<lambda>_. True)"
proof -
  obtain this where "thisHost s = Some this" using assms(1) by blast
  from encode_announcement [OF assms(2) ping_encodes [OF this]] show ?thesis by (simp add: announce_once_def Let_def)
qed

section \<open>Property\<close>

text \<open>
  C21. Nothing but input stops the program. In every state of the running program that sound inputs reach, and in which all addresses can
  be written and some node is known, the main loop, the timeout pass and every goroutine that was started can take their next turn, a broadcast can
  be submitted, and, with a cluster name of at most 255 bytes, the host can announce itself; all this whatever
  the network, the map orders and the random numbers are.
\<close>

theorem goroutines_never_stuck:
  assumes "(step Sound)\<^sup>*\<^sup>* (initial env t0) (s, Running ts l)" and "enc_ok s" and "0 < nodeMap_length (knownNodes s)"
  shows "(\<exists>l' t. loop_step ord js ch l s = Inr (l', t)) \<and>
    (\<exists>t. startTimeoutCheckLoop ord s = Inr t) \<and>
    (\<forall>gs p hs. spawned s = gs @ DoForwardOnTimeout p # hs \<longrightarrow>
       (\<exists>t. doForwardOnTimeout ord js chs p (s\<lparr>spawned := gs @ hs\<rparr>) = Inr t)) \<and>
    (\<forall>gs r c hs. spawned s = gs @ TransmitVerbAck r c # hs \<longrightarrow>
       (\<exists>err t. transmitVerbAckUDP ch r c (s\<lparr>spawned := gs @ hs\<rparr>) = Inr (err, t))) \<and>
    (\<exists>err t. BroadcastBytes bs s = Inr (err, t)) \<and>
    (length (clusterNameOf s) \<le> 255 \<longrightarrow> (\<exists>err again t. announce_once dial write a s = Inr (err, again, t)))"
proof (intro conjI allI impI)
  have s: "wf_state s" "thisHost s \<noteq> None" "loop_ok (heap s) l" using run.reachable_inv [OF _ assms(1)] by auto
  then have able: "able s" using assms(2,3) by (simp add: able_def)
  show "\<exists>l' t. loop_step ord js ch l s = Inr (l', t)" using loop_total [OF able s(3), of ord js ch] by (auto elim!: yieldsE)
  show "\<exists>t. startTimeoutCheckLoop ord s = Inr t" using timeout_pass_ok [OF s(1), of ord] by (auto elim!: yieldsE)
  show "\<exists>t. doForwardOnTimeout ord js chs p (s\<lparr>spawned := gs @ hs\<rparr>) = Inr t" if "spawned s = gs @ DoForwardOnTimeout p # hs" for gs p hs
    using forward_total [OF able_updates(4) [OF able that], of p ord js chs] wf_state_spawned(2) [OF s(1) that]
    by (auto simp: goroutine_ok_def elim!: yieldsE)
  show "\<exists>err t. transmitVerbAckUDP ch r c (s\<lparr>spawned := gs @ hs\<rparr>) = Inr (err, t)" if "spawned s = gs @ TransmitVerbAck r c # hs" for gs r c hs
    using send_total [OF able_updates(4) [OF able that], of None ch r verbAck c] by (auto simp: transmitVerbAckUDP_def elim!: yieldsE)
  show "\<exists>err t. BroadcastBytes bs s = Inr (err, t)" using s(2) by (auto simp: BroadcastBytes_def Let_def split: prod.splits)
  show "\<exists>err again t. announce_once dial write a s = Inr (err, again, t)" if "length (clusterNameOf s) \<le> 255"
    using announce_total [OF s(2) that, of dial "write" a] by (auto elim!: yieldsE)
qed

text \<open>A host that begins with an IPv4 address and without initial hosts has heard of IPv4 nodes only.\<close>

lemma begin_v4:
  assumes "wf_state s" and "all_v4 s" and "valid_ip (listenIPOf s)" and "To4 (listenIPOf s) \<noteq> []" and "initialHostsOf s = []"
    and "begin_setup lookupIP s = Inr t"
  shows "all_v4 t"
proof -
  note up = host_up_ok [OF assms(1,3)]
  have "all_v4 (initGlobalHostEnvironment s)"
    using assms(2,4) init_host(3,6) [OF assms(1,3)] by (simp add: all_v4_def)
  moreover have "host_up s = updateNodeStatus (length (heap s)) StatusAlive 0 (Some (length (heap s))) (initGlobalHostEnvironment s)"
    using assms(4) by (simp add: host_up_def Let_def)
  ultimately have v4: "all_v4 (host_up s)" using all_v4_stable [OF stable_simps(1)] by metis
  obtain q u where u: "AddNode (length (heap s)) (host_up s) = Inr (q, u)" "foldR (add_initial_host lookupIP) (initialHostsOf u) u = Inr t"
    using assms(6) unfolding begin_setup_stages by (auto elim!: bindR_InrE)
  have "initialHostsOf u = initialHostsOf s"
    using same_config_trans [OF up(5) AddNode_config [OF u(1)]] by (simp add: initialHostsOf_def same_config_def)
  then have "t = u" using u(2) assms(5) by simp
  moreover have "stable (host_up s) u" using AddNode_silent [OF up(1,3) u(1)] by (simp add: silent_def still_def)
  ultimately show ?thesis using all_v4_stable v4 by blast
qed

theorem goroutines_never_stuck_witness:
  "\<exists>s l' t u err v. (step Sound)\<^sup>*\<^sup>* (initial (\<lambda>_. []) 0) (s, begun s) \<and> loop_step [] [] calm Fresh s = Inr (l', t) \<and>
     startTimeoutCheckLoop [] s = Inr u \<and> BroadcastBytes [65] s = Inr (err, v)"
proof -
  let ?i = "init_smudge (\<lambda>_. []) 0"
  obtain s where s: "(step Sound)\<^sup>*\<^sup>* (initial (\<lambda>_. []) 0) (s, begun s)" "begin_setup (\<lambda>_. None) ?i = Inr s" using sample_start by blast
  have ip: "valid_ip (listenIPOf ?i)" "To4 (listenIPOf ?i) \<noteq> []"
    by (simp_all add: listen_default valid_ip_def IPv4_def v4InV6Prefix_def To4_def ip_len_defs)
  have "all_v4 ?i" by (simp add: all_v4_def init_smudge_def Let_def split: prod.splits)
  then have v4: "all_v4 s" using begin_v4 [OF wf_state_init _ ip initial_default s(2)] by simp
  obtain this where "wf_state s" "getByAddress (knownNodes s) (addr s this) \<noteq> None"
    using begin_setup_ok [OF wf_state_init ip(1), of "\<lambda>_. None"] initial_default s(2) by (auto elim!: yieldsE)
  moreover from this have "0 < nodeMap_length (knownNodes s)" by (auto simp: getByAddress_def nodeMap_length_def)
  ultimately show ?thesis
    using goroutines_never_stuck [OF s(1) [unfolded begun_def] all_v4_enc_ok [OF _ v4], of "[]" "[]" calm "\<lambda>_. calm" "[65]" True True "[]"] s(1) by blast
qed

end
