(* ===== verification/Rounds.thy ===== *)
theory Rounds
  imports Progress
begin

text \<open>
  Whole rounds of the main loop of \<open>Begin\<close>. A round that nothing else disturbs pings every known node
  other than this host once; a node that stays dead is pinged less and less often and forgotten in the end. Both are
  proved of the loop itself, with its status test, its back-off and the transmission of the ping.
\<close>

section \<open>One ping\<close>

text \<open>What a ping keeps: everything but emission counters, gossip pools, the heartbeat, the waiting entries and the network.\<close>

definition turn_frame :: "smudge \<Rightarrow> smudge \<Rightarrow> bool" where
  "turn_frame s t \<longleftrightarrow> counters_only (heap s) (heap t) \<and> origins t \<subseteq> origins s \<and> knownNodes t = knownNodes s \<and>
     thisHost t = thisHost s \<and> ipLen t = ipLen s \<and> clock t = clock s \<and> deadNodeRetries t = deadNodeRetries s \<and>
     knownNodesModifiedFlag t = knownNodesModifiedFlag s"

lemma turn_frame_refl [simp]: "turn_frame s s" "turn_frame s (s\<lparr>currentHeartbeat := c\<rparr>)"
  by (simp_all add: turn_frame_def origins_def)

lemma turn_frame_trans: "turn_frame s t \<Longrightarrow> turn_frame t u \<Longrightarrow> turn_frame s u"
  by (auto simp: turn_frame_def intro: counters_only_trans)

lemma turn_frame_tx: "tx_frame (s\<lparr>pendingAcks := ps\<rparr>) t \<Longrightarrow> turn_frame s t"
  using tx_frame_same [of "s\<lparr>pendingAcks := ps\<rparr>" t] tx_frame_counters [of "s\<lparr>pendingAcks := ps\<rparr>" t]
  by (simp add: turn_frame_def origins_def)

lemma turn_frame_same:
  assumes "turn_frame s t"
  shows "length (heap t) = length (heap s)" and "pingRequestCount t = pingRequestCount s" and "now t = now s"
    and "r < length (heap s) \<Longrightarrow> addr t r = addr s r" and "r < length (heap s) \<Longrightarrow> pack_key t r c = pack_key s r c"
    and "r < length (heap s) \<Longrightarrow> status (node t r) = status (node s r)"
  using assms counters_only_length extends_addressOf [OF counters_only_extends]
  by (auto simp: turn_frame_def pingRequestCount_def now_def pack_key_def counters_only_node)

lemma turn_frame_able:
  assumes "able s" and "turn_frame s t" and "wf_state t" shows "able t"
proof -
  have "enc_ok t"
    by (rule enc_ok_stable [of s t "{}"])
      (use assms turn_frame_same(1) [OF assms(2)] in \<open>auto simp: able_def turn_frame_def stable_def counters_only_extends\<close>)
  then show ?thesis using assms by (simp add: able_def turn_frame_def)
qed

text \<open>The entry that waits for the acknowledgement of a ping.\<close>

definition ping_entry :: "smudge \<Rightarrow> node_ref \<Rightarrow> pendingAck" where
  "ping_entry s n = \<lparr>startTime = now s, p_node = n, callback = None, callbackCode = 0, packType = packPing\<rparr>"

lemma ping_one:
  assumes "able s" and "thisHost s = Some this" and "n < length (heap s)"
  shows "\<exists>err t ds. PingNode ch n s = Inr (err, t) \<and> able t \<and> turn_frame s t \<and> currentHeartbeat t = currentHeartbeat s \<and>
    pendingAcks t = AList.update (pack_key s n (currentHeartbeat s)) (ping_entry s n) (pendingAcks s) \<and> sent t = sent s @ ds \<and>
    (\<forall>(to, bs) \<in> set ds. emitted t this verbPing (currentHeartbeat s) bs) \<and>
    (map fst ds = [addr s n] \<or> ds = [] \<and> \<not> (dial_ok ch \<and> write_ok ch \<and> pingRequestCount s \<le> 62))"
proof -
  let ?c = "currentHeartbeat s"
  let ?s = "s\<lparr>pendingAcks := AList.update (pack_key s n ?c) (ping_entry s n) (pendingAcks s)\<rparr>"
  have "packs_ok (heap s) (pendingAcks ?s)"
    using assms by (simp, intro packs_ok_update wf_stateD) (simp_all add: able_def pack_ok_def ping_entry_def)
  then have able: "able ?s" using assms(1) by simp
  then have wf: "wf_state ?s" by (simp add: able_def)
  have n: "n < length (heap ?s)" "thisHost ?s = Some this" using assms by simp_all
  obtain err t where t: "transmitVerbGenericUDP ch n None verbPing ?c ?s = Inr (err, t)"
    using send_total [OF able, of None ch n verbPing ?c] by (auto elim!: yieldsE)
  then have p: "PingNode ch n s = Inr (err, t)" by (simp add: PingNode_def transmitVerbPingUDP_def ping_entry_def Let_def)
  have ok: "wf_state t" "tx_frame ?s t" and none: "err \<noteq> None \<Longrightarrow> sent t = sent s"
    using ensuresD [OF transmit_ok [OF wf n(1)] t] by auto
  have t': "turn_frame s t" "able t" "pendingAcks t = pendingAcks ?s" "currentHeartbeat t = ?c"
    using turn_frame_tx [OF ok(2)] turn_frame_able [OF assms(1) _ ok(1)] tx_frame_same(4,5) [OF ok(2)] by simp_all
  show ?thesis
  proof (cases err)
    case None
    then obtain bytes where "sent t = sent s @ [(addr s n, bytes)]" "emitted t this verbPing ?c bytes"
      using transmit_emits [OF wf n t [unfolded None]] by auto
    then show ?thesis using p t' by (intro exI [of _ "[(addr s n, bytes)]"] exI conjI) auto
  next
    case (Some e)
    have "\<not> (dial_ok ch \<and> write_ok ch \<and> pingRequestCount s \<le> 62)"
      using transmit_error [OF wf _ _ _ t] Some by (auto simp: pingRequestCount_def)
    then show ?thesis using p t' none Some by (intro exI [of _ "[]"] exI conjI) auto
  qed
qed

section \<open>An undisturbed round\<close>

text \<open>Steps of the loop with nothing between them, one per element of a list of network results.\<close>

definition loop_run :: "string list \<Rightarrow> nat list \<Rightarrow> choices list \<Rightarrow> loop \<times> smudge \<Rightarrow> (loop \<times> smudge) outcome" where
  "loop_run ord js chs x = foldR (\<lambda>ch (l, s). loop_step ord js ch l s) chs x"

lemma loop_run_simps [simp]:
  "loop_run ord js [] x = Inr x"
  "loop_run ord js (ch # chs) (l, s) = bindR (loop_step ord js ch l s) (loop_run ord js chs)"
  by (simp_all add: loop_run_def [abs_def])

lemma loop_run_append: "loop_run ord js (chs @ chs') x = bindR (loop_run ord js chs x) (loop_run ord js chs')"
  by (simp add: loop_run_def [abs_def] foldR_append)

text \<open>
  The effect of pinging a list of nodes in turn: the heartbeat advances by one for each, an entry
  waits for each under its address and its heartbeat, no other entry changes, and, if \<open>well\<close>, one ping went to each, in order.
\<close>

definition ping_key :: "smudge \<Rightarrow> node_ref list \<Rightarrow> nat \<Rightarrow> string" where
  "ping_key s ns i = pack_key s (ns ! i) (currentHeartbeat s + of_nat (Suc i))"

definition pinged_all :: "bool \<Rightarrow> node_ref \<Rightarrow> node_ref list \<Rightarrow> smudge \<Rightarrow> (string \<times> byte list) list \<Rightarrow> smudge \<Rightarrow> bool" where
  "pinged_all well this ns s ds t \<longleftrightarrow> currentHeartbeat t = currentHeartbeat s + of_nat (length ns) \<and>
     (\<forall>i < length ns. map_of (pendingAcks t) (ping_key s ns i) = Some (ping_entry s (ns ! i))) \<and>
     (\<forall>k. k \<notin> ping_key s ns ` {..<length ns} \<longrightarrow> map_of (pendingAcks t) k = map_of (pendingAcks s) k) \<and>
     sent t = sent s @ ds \<and>
     (well \<longrightarrow> length ds = length ns \<and> (\<forall>i < length ns. fst (ds ! i) = addr s (ns ! i) \<and>
        emitted t this verbPing (currentHeartbeat s + of_nat (Suc i)) (snd (ds ! i))))"

lemma pack_key_eq: "pack_key s m c = pack_key s n d \<Longrightarrow> addr s m = addr s n \<and> c = d"
  using split_at_last_separator [of "addr s m" "CHR '':''" "decimal (unat c)" "addr s n" "decimal (unat d)"]
  by (simp add: pack_key_def word_unat_eq_iff)

lemma emitted_turn: "turn_frame s t \<Longrightarrow> emitted s this vb c bs \<Longrightarrow> emitted t this vb c bs"
  by (auto simp: emitted_def turn_frame_def counters_only_def)

lemma pinged_Cons:
  assumes u: "turn_frame s u" "currentHeartbeat u = currentHeartbeat s + 1"
      "pendingAcks u = AList.update (pack_key s n (currentHeartbeat s + 1)) (ping_entry s n) (pendingAcks s)"
      "sent u = sent s @ ds"
    and d: "well \<Longrightarrow> \<exists>bs. ds = [(addr s n, bs)] \<and> emitted u this verbPing (currentHeartbeat s + 1) bs"
    and t: "turn_frame u t" "pinged_all well this ns u es t"
    and alloc: "\<forall>m \<in> set (n # ns). m < length (heap s)" and dist: "distinct (map (addr s) (n # ns))"
  shows "pinged_all well this (n # ns) s (ds @ es) t"
proof -
  note p = t(2) [unfolded pinged_all_def]
  have key: "ping_key u ns i = ping_key s (n # ns) (Suc i)" "addr u (ns ! i) = addr s (ns ! i)"
    "ping_entry u (ns ! i) = ping_entry s (ns ! i)" if "i < length ns" for i
    using that u(2) alloc turn_frame_same [OF u(1)] by (simp_all add: ping_key_def ping_entry_def algebra_simps)
  have key0: "ping_key s (n # ns) 0 = pack_key s n (currentHeartbeat s + 1)" by (simp add: ping_key_def)
  have keys: "ping_key s (n # ns) ` {..<length (n # ns)} = insert (ping_key s (n # ns) 0) (ping_key u ns ` {..<length ns})"
    using key by (auto simp: lessThan_Suc_eq_insert_0 image_image)
  have new: "ping_key s (n # ns) 0 \<notin> ping_key u ns ` {..<length ns}"
    using dist key(1) by (auto simp: ping_key_def dest!: pack_key_eq)
  have "map_of (pendingAcks t) (ping_key s (n # ns) i) = Some (ping_entry s ((n # ns) ! i))" if "i < length (n # ns)" for i
    using that p new key u(3) by (cases i) (auto simp: key0 map_of_update)
  moreover have "map_of (pendingAcks t) k = map_of (pendingAcks s) k" if "k \<notin> ping_key s (n # ns) ` {..<length (n # ns)}" for k
    using that p unfolding keys by (simp add: u(3) map_of_update key0)
  moreover have "fst ((ds @ es) ! i) = addr s ((n # ns) ! i) \<and>
      emitted t this verbPing (currentHeartbeat s + of_nat (Suc i)) (snd ((ds @ es) ! i))" if "i < length (n # ns)" well for i
    using that d p key(2) u(2) emitted_turn [OF t(1)] by (cases i) (auto simp: add.assoc)
  ultimately show ?thesis using p d u(2,4) unfolding pinged_all_def by auto
qed

lemma visit_alive:
  assumes "status (node s n) \<noteq> StatusDead" and "PingNode ch n (s\<lparr>currentHeartbeat := currentHeartbeat s + 1\<rparr>) = Inr (err, t)"
  shows "visit_node ch n s = Inr (True, t)"
  using assms by (simp add: visit_node_def)

lemma going_run:
  assumes "able s" and "thisHost s = Some this" and "\<not> knownNodesModifiedFlag s" and "length chs = 2 * length ns"
    and "\<forall>n \<in> set ns. n < length (heap s) \<and> status (node s n) \<noteq> StatusDead" and "distinct (map (addr s) ns)"
  shows "\<exists>t ds. loop_run ord js chs (Going ns c, s) = Inr (Going [] (c + length ns), t) \<and> able t \<and> turn_frame s t \<and>
    pinged_all ((\<forall>ch \<in> set chs. dial_ok ch \<and> write_ok ch) \<and> pingRequestCount s \<le> 62) this ns s ds t"
  using assms
proof (induction ns arbitrary: s chs c)
  case Nil
  then show ?case by (simp add: pinged_all_def)
next
  case (Cons n ns)
  obtain ch ch' rest where chs: "chs = ch # ch' # rest" "length rest = 2 * length ns"
    using Cons.prems(4) by (cases chs; cases "tl chs") auto
  let ?s = "s\<lparr>currentHeartbeat := currentHeartbeat s + 1\<rparr>"
  obtain err u ds where u: "PingNode ch n ?s = Inr (err, u)" "able u" "turn_frame ?s u" "currentHeartbeat u = currentHeartbeat s + 1"
    and pend: "pendingAcks u = AList.update (pack_key s n (currentHeartbeat s + 1)) (ping_entry s n) (pendingAcks s)"
    and ds: "sent u = sent s @ ds" "\<forall>(to, bs) \<in> set ds. emitted u this verbPing (currentHeartbeat s + 1) bs"
      "map fst ds = [addr s n] \<or> ds = [] \<and> \<not> (dial_ok ch \<and> write_ok ch \<and> pingRequestCount s \<le> 62)"
    using ping_one [of ?s this n ch] Cons.prems(1,2,5)
    by (auto simp: pack_key_def ping_entry_def now_def pingRequestCount_def)
  have fr: "turn_frame s u" using turn_frame_trans [OF turn_frame_refl(2) u(3)] .
  note same = turn_frame_same [OF fr]
  have addrs: "map (addr u) ns = map (addr s) ns" using Cons.prems(5) same(4) by simp
  have "\<not> knownNodesModifiedFlag u" using fr Cons.prems(3) by (simp add: turn_frame_def)
  moreover have "thisHost u = Some this" using fr Cons.prems(2) by (simp add: turn_frame_def)
  moreover have "\<forall>n \<in> set ns. n < length (heap u) \<and> status (node u n) \<noteq> StatusDead" using Cons.prems(5) same(1,6) by simp
  moreover have "distinct (map (addr u) ns)" unfolding addrs using Cons.prems(6) by simp
  ultimately obtain t es where t: "loop_run ord js rest (Going ns (c + 1), u) = Inr (Going [] (c + 1 + length ns), t)" "able t" "turn_frame u t"
    "pinged_all ((\<forall>ch \<in> set rest. dial_ok ch \<and> write_ok ch) \<and> pingRequestCount u \<le> 62) this ns u es t"
    using Cons.IH [OF u(2), of rest "c + 1"] chs(2) by blast
  have run: "loop_run ord js chs (Going (n # ns) c, s) = Inr (Going [] (c + length (n # ns)), t)"
    using visit_alive [OF _ u(1)] Cons.prems(5) \<open>\<not> knownNodesModifiedFlag u\<close> t(1) by (simp add: chs)
  have "pinged_all ((\<forall>ch \<in> set chs. dial_ok ch \<and> write_ok ch) \<and> pingRequestCount s \<le> 62) this (n # ns) s (ds @ es) t"
  proof (rule pinged_Cons [OF fr u(4) pend ds(1) _ t(3)])
    show "pinged_all ((\<forall>ch \<in> set chs. dial_ok ch \<and> write_ok ch) \<and> pingRequestCount s \<le> 62) this ns u es t"
      using t(4) same(2) by (auto simp: pinged_all_def chs)
    show "\<exists>bs. ds = [(addr s n, bs)] \<and> emitted u this verbPing (currentHeartbeat s + 1) bs"
      if "(\<forall>ch \<in> set chs. dial_ok ch \<and> write_ok ch) \<and> pingRequestCount s \<le> 62"
      using that ds(2,3) by (cases ds) (auto simp: chs)
  qed (use Cons.prems(5,6) in auto)
  then show ?case using run t(2) turn_frame_trans [OF fr t(3)] by blast
qed

lemma known_alloc:
  assumes "wf_state s" and "getByAddress (knownNodes s) k = Some r" shows "r < length (heap s)"
  using map_ok_keys [OF wf_stateD(2) [OF assms(1)]] wf_stateD(2) [OF assms(1)] assms(2)
  by (auto simp: map_ok_def getByAddress_def dest: map_of_SomeD)

lemma upt_ends: "[0..<n + 2] = 0 # [1..<n + 1] @ [n + 1]"
  by (induction n) simp_all

text \<open>
  C17. A round reaches everyone: from the start of a round in which no other goroutine interferes, on a host that can write all addresses, with some other node
  known and none of the others dead, the main loop is back at the start of the next round after exactly \<open>2 * n + 2\<close> of
  its steps, where \<open>n\<close> is the number of known nodes other than this host, whatever the network does. The heartbeat advanced by \<open>n\<close>; an
  entry waits for the acknowledgement of each of these nodes under its own heartbeat, and no other
  entry changed; and on a network that works, in a cluster whose gossip limit fits a message, exactly one ping went to each of them, in
  the order of the round and with these heartbeats.
\<close>

theorem round_pings_every_node:
  assumes "wf_state s" and "enc_ok s" and "thisHost s = Some this" and "\<not> knownNodesModifiedFlag s"
    and "getByAddress (knownNodes s) (addr s q) = Some q" and "addr s q \<noteq> addr s this"
    and "\<forall>r. getByAddress (knownNodes s) (addr s r) = Some r \<and> addr s r \<noteq> addr s this \<longrightarrow> status (node s r) \<noteq> StatusDead"
  shows "\<exists>ns t ds. distinct ns \<and>
    (\<forall>r. r \<in> set ns \<longleftrightarrow> getByAddress (knownNodes s) (addr s r) = Some r \<and> addr s r \<noteq> addr s this) \<and>
    loop_run ord js (map chs [0..<2 * length ns + 2]) (Fresh, s) = Inr (Fresh, t) \<and> wf_state t \<and>
    pinged_all ((\<forall>i. dial_ok (chs i) \<and> write_ok (chs i)) \<and> pingRequestCount s \<le> 62) this ns s ds t"
proof -
  obtain ns where fresh: "\<And>ch. loop_step ord js ch Fresh s = Inr (Going ns 0, s)" and ns: "distinct ns"
    "\<And>r. r \<in> set ns \<longleftrightarrow> getByAddress (knownNodes s) (addr s r) = Some r \<and> addr s r \<noteq> addr s this"
    using fresh_round [OF assms(1,3), of ord js] by blast
  have "0 < nodeMap_length (knownNodes s)" using assms(5) by (auto simp: getByAddress_def nodeMap_length_def)
  then have able: "able s" using assms(1-3) by (simp add: able_def)
  let ?n = "2 * length ns"
  have "inj_on (addr s) (set ns)" using ns(2) by (force simp: inj_on_def)
  moreover have "\<forall>n \<in> set ns. n < length (heap s) \<and> status (node s n) \<noteq> StatusDead" using ns(2) assms(7) known_alloc [OF assms(1)] by blast
  moreover have "length (map chs [1..<?n + 1]) = ?n" by (simp del: upt_Suc)
  ultimately obtain t ds where t: "loop_run ord js (map chs [1..<?n + 1]) (Going ns 0, s) = Inr (Going [] (length ns), t)" "able t"
    "pinged_all ((\<forall>ch \<in> set (map chs [1..<?n + 1]). dial_ok ch \<and> write_ok ch) \<and> pingRequestCount s \<le> 62) this ns s ds t"
    using going_run [OF able assms(3,4), of "map chs [1..<?n + 1]" ns ord js 0] ns(1) by (auto simp: distinct_map)
  have "[0..<?n + 2] = 0 # [1..<?n + 1] @ [?n + 1]" by (rule upt_ends)
  moreover have "ns \<noteq> []" using ns(2) [of q] assms(5,6) by auto
  ultimately have "loop_run ord js (map chs [0..<?n + 2]) (Fresh, s) = Inr (Fresh, t)"
    using fresh t(1) by (simp add: loop_run_append del: upt_Suc)
  moreover have "pinged_all ((\<forall>i. dial_ok (chs i) \<and> write_ok (chs i)) \<and> pingRequestCount s \<le> 62) this ns s ds t"
    using t(3) by (auto simp: pinged_all_def)
  ultimately show ?thesis using ns t(2) by (auto simp: able_def)
qed

theorem round_pings_every_node_witness:
  "\<exists>t bs bs'. loop_run [] [] (replicate 6 calm) (Fresh, trio) = Inr (Fresh, t) \<and>
     (sent t = [(''10.0.0.2:9999'', bs), (''10.0.0.3:9999'', bs')] \<or> sent t = [(''10.0.0.3:9999'', bs), (''10.0.0.2:9999'', bs')])"
proof -
  have alive: "\<forall>r. getByAddress (knownNodes trio) (addr trio r) = Some r \<and> addr trio r \<noteq> addr trio 0 \<longrightarrow> status (node trio r) \<noteq> StatusDead"
  proof (intro allI impI)
    fix r assume "getByAddress (knownNodes trio) (addr trio r) = Some r \<and> addr trio r \<noteq> addr trio 0"
    then have "r < length (heap trio)" using known_alloc [OF wf_trio] by blast
    then show "status (node trio r) \<noteq> StatusDead" by (auto simp: host_node_def less_Suc_eq)
  qed
  have flag: "\<not> knownNodesModifiedFlag trio" by (simp add: trio_def two_hosts_def init_smudge_def Let_def split_beta)
  obtain ns t ds where ns: "distinct ns" "\<forall>r. r \<in> set ns \<longleftrightarrow> getByAddress (knownNodes trio) (addr trio r) = Some r \<and> addr trio r \<noteq> addr trio 0"
    and run: "loop_run [] [] (map (\<lambda>_. calm) [0..<2 * length ns + 2]) (Fresh, trio) = Inr (Fresh, t)"
    and p: "pinged_all ((\<forall>i :: nat. dial_ok calm \<and> write_ok calm) \<and> pingRequestCount trio \<le> 62) 0 ns trio ds t"
    using round_pings_every_node [OF wf_trio trio_enc _ flag _ _ alive, of 2 "[]" "[]" "\<lambda>_. calm"] by (auto simp: getByAddress_def)
  have "r \<in> set ns \<longleftrightarrow> r < 3 \<and> r \<noteq> 0" for r
  proof (cases "r < length (heap trio)")
    case True
    then have "r = 0 \<or> r = 1 \<or> r = 2" by auto
    then show ?thesis using ns(2) by (auto simp: getByAddress_def)
  next
    case False
    then have "\<not> r < 3" "getByAddress (knownNodes trio) (addr trio r) \<noteq> Some r"
      using known_alloc [OF wf_trio] by (simp, blast)
    then show ?thesis using ns(2) by blast
  qed
  then have "set ns = {r. r < 3 \<and> r \<noteq> 0}" by blast
  moreover have "{r :: nat. r < 3 \<and> r \<noteq> 0} = {1, 2}" by auto
  ultimately have set: "set ns = {1, 2}" by (rule trans)
  then have len: "length ns = 2" using distinct_card [OF ns(1)] by simp
  have p': "sent t = ds" "length ds = 2" "\<forall>i < 2. fst (ds ! i) = addr trio (ns ! i)"
    using p len trio_count(1) by (auto simp: pinged_all_def calm_def)
  then obtain x y bs bs' where ds: "ds = [(x, bs), (y, bs')]" by (auto simp: length_Suc_conv numeral_2_eq_2)
  obtain i j where "ns = [i, j]" using len by (auto simp: length_Suc_conv numeral_2_eq_2)
  then have "ns = [1, 2] \<or> ns = [2, 1]" using ns(1) set by (auto simp: doubleton_eq_iff)
  moreover have "x = addr trio (ns ! 0)" "y = addr trio (ns ! 1)"
    using p'(3) [rule_format, of 0] p'(3) [rule_format, of 1] by (simp_all add: ds)
  moreover have "map (\<lambda>_. calm) [0..<2 * length ns + 2] = replicate 6 calm" by (simp add: len map_replicate_const)
  ultimately show ?thesis using run p'(1) unfolding ds by (elim disjE) simp_all
qed

section \<open>Forgetting dead nodes\<close>

text \<open>
  The retry counter of a dead node, the one of a node that has none yet included, and the number of visits it has left: those of the countdown
  and the $2^j$ of every retry \<open>j\<close> to come, up to the tenth.
\<close>

definition counter_of :: "smudge \<Rightarrow> node_ref \<Rightarrow> deadNodeCounter" where
  "counter_of s nd = (case map_of (deadNodeRetries s) (addr s nd) of
     None \<Rightarrow> \<lparr>retry = 1, retryCountdown = 2\<rparr> | Some d \<Rightarrow> d)"

definition visits_left :: "deadNodeCounter \<Rightarrow> nat" where
  "visits_left d = nat (retryCountdown d) + (2048 - 2 ^ nat (retry d + 1))"

definition counter_ok :: "deadNodeCounter \<Rightarrow> bool" where
  "counter_ok d \<longleftrightarrow> 1 \<le> retry d \<and> retry d \<le> 10 \<and> 0 < retryCountdown d \<and> retryCountdown d \<le> 2 ^ nat (retry d)"

definition waits :: "node_ref \<Rightarrow> nat \<Rightarrow> smudge \<Rightarrow> bool" where
  "waits nd k s \<longleftrightarrow> nodeMap_contains (heap s) (knownNodes s) nd \<and> counter_ok (counter_of s nd) \<and>
     visits_left (counter_of s nd) = k"

definition forgotten :: "node_ref \<Rightarrow> smudge \<Rightarrow> bool" where
  "forgotten nd s \<longleftrightarrow> \<not> nodeMap_contains (heap s) (knownNodes s) nd \<and> \<not> has_key (deadNodeRetries s) (addr s nd)"

text \<open>A visit that leaves \<open>k\<close> more is due for a ping when the visits so far are $2^j - 2$ for some \<open>j\<close>.\<close>

definition ping_due :: "nat \<Rightarrow> bool" where
  "ping_due k \<longleftrightarrow> (\<exists>j \<in> {2..10}. k + 2 ^ j = (2048 :: nat))"

lemma visits_left_lower:
  assumes "counter_ok d" and "1 < retryCountdown d"
  defines "e \<equiv> d\<lparr>retryCountdown := retryCountdown d - 1\<rparr>"
  shows "counter_ok e \<and> visits_left d = Suc (visits_left e) \<and> visits_left e \<noteq> 0 \<and> \<not> ping_due (visits_left e)"
proof -
  define r where "r = nat (retry d)"
  define c where "c = nat (retryCountdown d - 1)"
  have r: "nat (retry d + 1) = Suc r" "r \<le> 10" using assms(1) by (auto simp: counter_ok_def r_def)
  have "retryCountdown d \<le> int (2 ^ r)" using assms(1) by (simp add: counter_ok_def r_def)
  then have c: "0 < c" "c < 2 ^ r" using assms(2) by (auto simp: c_def)
  have le: "(2 :: nat) ^ Suc r \<le> 2 ^ 11" using r(2) by (intro power_increasing) simp_all
  have "\<not> c + (2048 - 2 ^ Suc r) + 2 ^ j = 2048" for j
  proof (cases "j \<le> r")
    case True
    then have "(2 :: nat) ^ j \<le> 2 ^ r" by (intro power_increasing) simp_all
    then have "c + 2 ^ j < 2 ^ Suc r" using c(2) unfolding power_Suc by linarith
    then show ?thesis using le by (simp del: power_Suc)
  next
    case False
    then have "(2 :: nat) ^ Suc r \<le> 2 ^ j" by (intro power_increasing) simp_all
    then show ?thesis using c(1) le by simp
  qed
  moreover have "visits_left e = c + (2048 - 2 ^ Suc r)" by (simp add: visits_left_def e_def c_def r(1))
  moreover have "visits_left d = Suc c + (2048 - 2 ^ Suc r)" using assms(2) by (simp add: visits_left_def c_def r(1) Suc_nat_eq_nat_zadd1)
  moreover have "counter_ok e" using assms by (simp add: counter_ok_def)
  ultimately show ?thesis using c(1) by (simp add: ping_due_def)
qed

lemma visits_left_retry:
  assumes "counter_ok d" and "retryCountdown d = 1" and "retry d < 10"
  defines "e \<equiv> d\<lparr>retry := retry d + 1, retryCountdown := 2 ^ nat (retry d + 1)\<rparr>"
  shows "counter_ok e \<and> visits_left d = Suc (visits_left e) \<and> visits_left e \<noteq> 0 \<and> ping_due (visits_left e)"
proof -
  define r where "r = nat (retry d)"
  have r: "nat (retry d + 1) = Suc r" "nat (2 + retry d) = Suc (Suc r)" "Suc r \<in> {2..10}"
    using assms(1,3) by (auto simp: counter_ok_def r_def)
  have le: "(2 :: nat) ^ Suc (Suc r) \<le> 2 ^ 11" using r(3) by (intro power_increasing) simp_all
  have "visits_left e = 2048 - 2 ^ Suc r" using le by (simp add: visits_left_def e_def r nat_power_eq nat_mult_distrib)
  moreover have "visits_left d = Suc (2048 - 2 ^ Suc r)" using assms(2) by (simp add: visits_left_def r)
  moreover have "counter_ok e" using assms(1,3) by (simp add: counter_ok_def e_def)
  ultimately show ?thesis using r(3) le by (auto simp: ping_due_def intro!: bexI [of _ "Suc r"])
qed

lemma backoff_waits:
  assumes "waits nd (Suc k) s" and "wf_map (deadNodeRetries s)"
  shows "if k = 0 then \<exists>t. dead_backoff nd s = (False, t) \<and> forgotten nd t
    else \<exists>m. dead_backoff nd s = (ping_due k, s\<lparr>deadNodeRetries := m\<rparr>) \<and> wf_map m \<and> waits nd k (s\<lparr>deadNodeRetries := m\<rparr>)"
proof -
  let ?d = "counter_of s nd" and ?k = "addr s nd"
  have d: "counter_ok ?d" "visits_left ?d = Suc k" "nodeMap_contains (heap s) (knownNodes s) nd"
    using assms by (simp_all add: waits_def)
  have upd: "waits nd (visits_left e) (s\<lparr>deadNodeRetries := AList.update ?k e (deadNodeRetries s)\<rparr>)" if "counter_ok e" for e
    using d(3) that by (simp add: waits_def counter_of_def map_of_update)
  consider "1 < retryCountdown ?d" | "retryCountdown ?d = 1" "retry ?d < 10" | "retryCountdown ?d = 1" "retry ?d = 10"
    using d(1) by (force simp: counter_ok_def)
  then show ?thesis
  proof cases
    case 1
    let ?e = "?d\<lparr>retryCountdown := retryCountdown ?d - 1\<rparr>"
    have "dead_backoff nd s = (False, s\<lparr>deadNodeRetries := AList.update ?k ?e (deadNodeRetries s)\<rparr>)"
      using 1 by (simp add: dead_backoff_def counter_of_def Let_def)
    then show ?thesis using visits_left_lower [OF d(1) 1] d(2) upd [of ?e] assms(2) by auto
  next
    case 2
    let ?e = "?d\<lparr>retry := retry ?d + 1, retryCountdown := 2 ^ nat (retry ?d + 1)\<rparr>"
    have "dead_backoff nd s = (True, s\<lparr>deadNodeRetries := AList.update ?k ?e (deadNodeRetries s)\<rparr>)"
      using 2 by (simp add: dead_backoff_def counter_of_def [symmetric] Let_def maxDeadNodeRetries_def)
    then show ?thesis using visits_left_retry [OF d(1) 2] d(2) upd [of ?e] assms(2) by auto
  next
    case 3
    let ?s = "s\<lparr>deadNodeRetries := AList.delete ?k (deadNodeRetries s)\<rparr>"
    have "k = 0" using 3 d(2) by (simp add: visits_left_def)
    moreover have "dead_backoff nd s = (False, snd (RemoveNode nd ?s))"
      using 3 by (simp add: dead_backoff_def counter_of_def [symmetric] Let_def maxDeadNodeRetries_def)
    moreover have "addr (snd (RemoveNode nd ?s)) nd = ?k" "deadNodeRetries (snd (RemoveNode nd ?s)) = deadNodeRetries ?s"
      by (simp_all add: RemoveNode_def Let_def addressOf_modify)
    ultimately show ?thesis by (simp add: forgotten_def contains_iff RemoveNode_lookup has_key_delete)
  qed
qed

text \<open>A dead node with \<open>k\<close> visits left on a host that can ping.\<close>

definition fading :: "node_ref \<Rightarrow> nat \<Rightarrow> smudge \<Rightarrow> bool" where
  "fading nd k s \<longleftrightarrow> able s \<and> nd < length (heap s) \<and> status (node s nd) = StatusDead \<and> waits nd k s"

lemma fading_turn:
  assumes "fading nd k s" and "turn_frame s t" and "able t" shows "fading nd k t"
proof -
  have nd: "nd < length (heap s)" using assms(1) by (simp add: fading_def)
  then have "counter_of t nd = counter_of s nd" "nodeMap_contains (heap t) (knownNodes t) nd = nodeMap_contains (heap s) (knownNodes s) nd"
    using assms(2) turn_frame_same(4) [OF assms(2) nd] by (simp_all add: counter_of_def contains_iff turn_frame_def)
  then show ?thesis using assms nd turn_frame_same(1,6) [OF assms(2)] by (simp add: fading_def waits_def)
qed

lemma dead_visit:
  assumes "fading nd (Suc k) s"
  shows "\<exists>pinged t. visit_node ch nd s = Inr (pinged, t) \<and>
    (if k = 0 then \<not> pinged \<and> forgotten nd t else (pinged \<longleftrightarrow> ping_due k) \<and> fading nd k t)"
proof (cases "k = 0")
  case True
  then show ?thesis using assms backoff_waits [of nd k s] wf_stateD(4) [of s] by (auto simp: fading_def able_def visit_node_def)
next
  case False
  have s: "able s" "nd < length (heap s)" "status (node s nd) = StatusDead" "waits nd (Suc k) s" "wf_map (deadNodeRetries s)"
    using assms wf_stateD(4) [of s] by (simp_all add: fading_def able_def)
  obtain m where m: "dead_backoff nd s = (ping_due k, s\<lparr>deadNodeRetries := m\<rparr>)" "wf_map m" "waits nd k (s\<lparr>deadNodeRetries := m\<rparr>)"
    using backoff_waits [OF s(4,5)] False by auto
  define u where "u = s\<lparr>deadNodeRetries := m, currentHeartbeat := currentHeartbeat s + 1\<rparr>"
  have f: "fading nd k (s\<lparr>deadNodeRetries := m\<rparr>)" using s m(2,3) by (simp add: fading_def)
  then have u: "fading nd k u" unfolding u_def by (rule fading_turn) (use s(1) m(2) in \<open>simp_all add: turn_frame_def origins_def\<close>)
  obtain this where "thisHost u = Some this" using s(1) by (auto simp: able_def u_def)
  then obtain err t where t: "PingNode ch nd u = Inr (err, t)" "able t" "turn_frame u t"
    using ping_one [of u this nd ch] u by (auto simp: fading_def)
  have "visit_node ch nd s = (if ping_due k then Inr (True, t) else Inr (False, s\<lparr>deadNodeRetries := m\<rparr>))"
    using s(3) m(1) t(1) by (simp add: visit_node_def u_def)
  then show ?thesis using False f fading_turn [OF u t(3,2)] by simp
qed

definition visits :: "(nat \<Rightarrow> choices) \<Rightarrow> node_ref \<Rightarrow> nat \<Rightarrow> smudge \<Rightarrow> smudge outcome" where
  "visits chs nd n s = foldR (\<lambda>i s. bindR (visit_node (chs i) nd s) (\<lambda>(pinged, s). Inr s)) [0..<n] s"

lemma visits_simps [simp]:
  "visits chs nd 0 s = Inr s"
  "visits chs nd (Suc n) s = bindR (visits chs nd n s) (\<lambda>s. bindR (visit_node (chs n) nd s) (\<lambda>(pinged, s). Inr s))"
  by (simp_all add: visits_def foldR_append bindR_def split: sum.split)

lemma fading_visits: "fading nd (n + k) s \<Longrightarrow> 0 < k \<Longrightarrow> \<exists>t. visits chs nd n s = Inr t \<and> fading nd k t"
proof (induction n arbitrary: k)
  case (Suc n)
  obtain t where t: "visits chs nd n s = Inr t" "fading nd (Suc k) t" using Suc.IH [of "Suc k"] Suc.prems(1) by auto
  then show ?case using dead_visit [OF t(2), of "chs n"] Suc.prems(2) by auto
qed simp

lemma fading_start:
  assumes "able s" and "nd < length (heap s)" and "status (node s nd) = StatusDead"
    and "nodeMap_contains (heap s) (knownNodes s) nd" and "\<not> has_key (deadNodeRetries s) (addr s nd)"
  shows "fading nd 2046 s"
proof -
  have "counter_of s nd = \<lparr>retry = 1, retryCountdown = 2\<rparr>" using assms(5) by (simp add: counter_of_def has_key_iff)
  then show ?thesis using assms by (simp add: fading_def waits_def counter_ok_def visits_left_def)
qed

text \<open>
  C16. A node that stays dead is pinged ever more rarely and forgotten in the end. On a host that can write all addresses, when a known node is
  dead and has no retry counter yet, every visit of the main loop to it returns, whatever the network does; as long as nothing but these visits concerns the
  node, it is still known before each of the first 2046 visits, of which exactly the visits 2, 6, 14, ..., 1022,
  the numbers $2^j - 2$ for \<open>j\<close> from 2 to 10, ping it, and after the visit 2046 it is neither known nor has a counter.
\<close>

theorem dead_node_forgotten:
  assumes "wf_state s" and "enc_ok s" and "thisHost s \<noteq> None" and "nd < length (heap s)" and "status (node s nd) = StatusDead"
    and "nodeMap_contains (heap s) (knownNodes s) nd" and "\<not> has_key (deadNodeRetries s) (addr s nd)"
  shows "(\<forall>n < 2046. \<exists>t pinged u. visits chs nd n s = Inr t \<and> nodeMap_contains (heap t) (knownNodes t) nd \<and>
      visit_node (chs n) nd t = Inr (pinged, u) \<and> (pinged \<longleftrightarrow> (\<exists>j \<in> {2..10}. n + 1 = 2 ^ j - 2))) \<and>
    (\<exists>t. visits chs nd 2046 s = Inr t \<and> forgotten nd t)"
proof -
  have "0 < nodeMap_length (knownNodes s)" using assms(6) by (auto simp: contains_iff getByAddress_def nodeMap_length_def)
  then have start: "fading nd 2046 s" using assms by (intro fading_start) (simp_all add: able_def)
  have "\<exists>t pinged u. visits chs nd n s = Inr t \<and> nodeMap_contains (heap t) (knownNodes t) nd \<and>
      visit_node (chs n) nd t = Inr (pinged, u) \<and> (pinged \<longleftrightarrow> (\<exists>j \<in> {2..10}. n + 1 = 2 ^ j - 2)) \<and> (n = 2045 \<longrightarrow> forgotten nd u)"
    if n: "n < 2046" for n
  proof -
    define k where "k = 2045 - n"
    have k: "2046 = n + Suc k" using n by (simp add: k_def)
    obtain t where t: "visits chs nd n s = Inr t" "fading nd (Suc k) t"
      using fading_visits [of nd n "Suc k" s chs] start [unfolded k] by auto
    have due: "(\<exists>j \<in> {2..10}. n + 1 = 2 ^ j - 2) \<longleftrightarrow> k \<noteq> 0 \<and> ping_due k"
    proof -
      have "n + 1 = 2 ^ j - 2 \<longleftrightarrow> k \<noteq> 0 \<and> k + 2 ^ j = 2048" if "j \<in> {2..10}" for j :: nat
      proof -
        have "(2 :: nat) ^ 2 \<le> 2 ^ j" "(2 :: nat) ^ j \<le> 2 ^ 10" using that by (intro power_increasing; simp)+
        then show ?thesis using n by (auto simp: k_def)
      qed
      then show ?thesis by (auto simp: ping_due_def)
    qed
    show ?thesis using dead_visit [OF t(2), of "chs n"] t unfolding due by (auto simp: k_def fading_def waits_def split: if_splits)
  qed
  note all = this
  obtain t u pinged where "visits chs nd 2045 s = Inr t" "visit_node (chs 2045) nd t = Inr (pinged, u)" "forgotten nd u"
    using all [of 2045] by auto
  then have "visits chs nd (Suc 2045) s = Inr u" by (simp only: visits_simps bindR_simps prod.case)
  then have "visits chs nd 2046 s = Inr u" by simp
  then show ?thesis using all \<open>forgotten nd u\<close> by blast
qed

text \<open>The second of the two hosts is dead; after 2046 visits the first one has forgotten it.\<close>

definition lost_peer :: smudge where
  "lost_peer = modify_node 1 (\<lambda>n. n\<lparr>status := StatusDead\<rparr>) two_hosts"

lemma lost_peer_simps [simp]:
  "heap lost_peer = [host_node 1, (host_node 2)\<lparr>status := StatusDead\<rparr>]" "knownNodes lost_peer = knownNodes two_hosts"
  "thisHost lost_peer = Some 0" "deadNodeRetries lost_peer = []" "broadcasts lost_peer = []" "ipLen lost_peer = IPv4len"
  by (simp_all add: lost_peer_def modify_node_def modify_def)

lemma lost_peer_ok: "wf_state lost_peer" "enc_ok lost_peer" "addr lost_peer 1 = ''10.0.0.2:9999''"
proof -
  show "wf_state lost_peer" unfolding lost_peer_def
    by (rule wf_state_modify_node) (simp_all add: same_id_def wf_node_def)
  show "enc_ok lost_peer" by (simp add: enc_ok_def member_ip_def ip_len_defs)
  have "addr lost_peer 1 = addr two_hosts 1"
    using addressOf_modify [of "\<lambda>n. n\<lparr>status := StatusDead\<rparr>" 1 "heap two_hosts" 1]
    by (simp add: lost_peer_def modify_node_def same_id_def)
  then show "addr lost_peer 1 = ''10.0.0.2:9999''" by simp
qed

theorem dead_node_forgotten_witness:
  "status (node lost_peer 1) = StatusDead \<and> (\<exists>t. visits (\<lambda>_. calm) 1 2046 lost_peer = Inr t \<and> forgotten 1 t)"
  using dead_node_forgotten [OF lost_peer_ok(1,2), of 1 "\<lambda>_. calm"] lost_peer_ok(3)
  by (simp add: contains_iff getByAddress_def has_key_iff)

end
