(* ===== verification/Delivery.thy ===== *)
theory Delivery
  imports Transmit
begin

text \<open>
  How often a broadcast is delivered to the listeners of a host over a sequence of receptions, transmissions and
  submissions of its own, the only operations that touch the map of broadcasts. The map is what keeps a host from delivering a broadcast twice; \<open>getBroadcastToEmit\<close>,
  which every transmission calls, removes from it what was emitted too often.
\<close>

section \<open>What a transmission does to the broadcasts\<close>

text \<open>Overly emitted broadcasts go, the counters of the others fall by at most one, and nothing is added.\<close>

definition aged :: "(string \<times> Broadcast) list \<Rightarrow> (string \<times> Broadcast) list \<Rightarrow> bool" where
  "aged m m' \<longleftrightarrow> (\<forall>l. case map_of m l of
     None \<Rightarrow> map_of m' l = None
   | Some b \<Rightarrow> if bcast_counter b \<le> - 100 then map_of m' l = None
       else \<exists>b'. map_of m' l = Some b' \<and> bcast_counter b - 1 \<le> bcast_counter b')"

lemma spent_counter: "- 100 < bcast_counter b \<Longrightarrow> bcast_counter (b\<lparr>b_emitCounter := b_emitCounter b - 1\<rparr>) = bcast_counter b - 1"
proof -
  assume "- 100 < bcast_counter b"
  moreover have "bcast_counter b < 128" using sint_lt [of "b_emitCounter b"] by (simp add: bcast_counter_def)
  ultimately have "signed_take_bit 7 (sint (b_emitCounter b) - 1) = sint (b_emitCounter b) - 1"
    by (intro signed_take_bit_int_eq_self) (simp_all add: bcast_counter_def)
  then show ?thesis by (simp add: bcast_counter_def sint_word_ariths)
qed

lemma attach_ages:
  assumes "wf_state s" and "attach_broadcast ord msg s = (msg', t)" shows "aged (broadcasts s) (broadcasts t)"
proof -
  obtain ob u where g: "getBroadcastToEmit ord s = (ob, u)" by fastforce
  note best = getBroadcastToEmit_ok [OF wf_stateD(6) [OF assms(1)] g]
  have u: "map_of (broadcasts u) l = (case map_of (broadcasts s) l of None \<Rightarrow> None | Some b \<Rightarrow> if bcast_counter b \<le> - 100 then None else Some b)" for l
  proof -
    have look: "map_of (broadcasts u) l = Some b \<longleftrightarrow> map_of (broadcasts s) l = Some b \<and> - 100 < bcast_counter b" for b
      using best by blast
    then have "map_of (broadcasts u) l = None" if "\<And>b. map_of (broadcasts s) l = Some b \<Longrightarrow> bcast_counter b \<le> - 100"
      using that by (metis not_le option.exhaust)
    then show ?thesis using look by (auto split: option.split)
  qed
  show ?thesis
  proof (cases ob)
    case None
    then have "t = u" using assms(2) g by (simp add: attach_broadcast_def)
    then show ?thesis by (auto simp: aged_def u split: option.splits)
  next
    case (Some b)
    then have t: "t = spend_broadcast b u" using assms(2) g by (auto simp: attach_broadcast_def Let_def)
    have b: "map_of (broadcasts s) (b_label b) = Some b" "- 100 < bcast_counter b" using best Some by auto
    have "map_of (broadcasts t) l = (if l = b_label b then Some (b\<lparr>b_emitCounter := b_emitCounter b - 1\<rparr>) else map_of (broadcasts u) l)" for l
      by (simp add: t spend_broadcast_def map_of_update)
    then show ?thesis using b spent_counter [OF b(2)] by (auto simp: aged_def u split: option.splits)
  qed
qed

lemma spend_broadcasts: "broadcasts (fold (\<lambda>m s. spend_node (mm_node m) s) ms u) = broadcasts u"
  by (induction ms arbitrary: u) (simp_all add: spend_node_def)

lemma finish_send_ages:
  assumes "wf_state s" and "length (members msg) \<le> 63" and "finish_send ch nd msg ns s = Inr (err, t)"
  shows "broadcasts t = broadcasts s \<and> err \<noteq> None \<or> aged (broadcasts s) (broadcasts t)"
proof -
  obtain e msg1 s1 where g: "add_gossip ns msg s = (e, msg1, s1)" by (cases "add_gossip ns msg s") auto
  then obtain k where k: "s1 = fold spend_node (take k ns) s" using add_gossip_eq [OF assms(2) refl, of ns s] by auto
  then have s1: "wf_state s1" "broadcasts s1 = broadcasts s" using spend_nodes [OF assms(1)] spend_nodes_same by auto
  obtain msg2 s2 where a: "attach_broadcast (ord_broadcasts ch) msg1 s1 = (msg2, s2)" by fastforce
  have "broadcasts t = broadcasts s \<and> err \<noteq> None \<or> broadcasts t = broadcasts s2"
    using assms(3) s1(2) by (auto simp: finish_send_def g a Let_def spend_broadcasts elim!: bindR_InrE split: option.splits if_splits)
  then show ?thesis using attach_ages [OF s1(1) a] s1(2) by auto
qed

lemma transmit_ages:
  assumes "wf_state s" and "transmitVerbGenericUDP ch nd fwd vb code s = Inr (err, t)"
  shows "broadcasts t = broadcasts s \<and> err \<noteq> None \<or> aged (broadcasts s) (broadcasts t)"
proof (cases "dial_ok ch \<and> thisHost s \<noteq> None")
  case False
  then show ?thesis using assms(2) by (auto simp: transmitVerbGenericUDP_def Let_def split: if_splits)
next
  case True
  then obtain this where dial: "dial_ok ch" "thisHost s = Some this" by blast
  obtain ns u where u: "getRandomUpdatedNodes (ord_updated ch) (ord_copy ch) (pingRequestCount s) [nd, this] s = Inr (ns, u)"
    and fin: "finish_send ch nd (start_message fwd vb code s) (gossip_choice ch ns [nd, this] u) u = Inr (err, t)"
    using assms(2) unfolding transmit_stages [OF dial] by (auto elim!: bindR_InrE)
  have "wf_state u" "broadcasts u = broadcasts s" using ensuresD [OF getRandomUpdatedNodes_ok [OF assms(1)] u] by auto
  moreover have "length (members (start_message fwd vb code s)) \<le> 63" using start_members(1) [of fwd vb code s] by linarith
  ultimately show ?thesis using finish_send_ages [OF _ _ fin] by simp
qed

section \<open>Sequences of receptions, transmissions and submissions\<close>

datatype bcast_event =
    Received Broadcast
  | Transmitted choices node_ref "node_ref option" messageVerb uint32
  | Submitted "byte list"

fun bcast_step :: "bcast_event \<Rightarrow> smudge \<Rightarrow> smudge outcome" where
  "bcast_step (Received b) s = receiveBroadcast (Some b) s"
| "bcast_step (Transmitted ch nd fwd vb code) s = bindR (transmitVerbGenericUDP ch nd fwd vb code s) (\<lambda>(err, s). Inr s)"
| "bcast_step (Submitted bs) s = bindR (BroadcastBytes bs s) (\<lambda>(err, s). Inr s)"

definition bcast_run :: "bcast_event list \<Rightarrow> smudge \<Rightarrow> smudge outcome" where
  "bcast_run evs s = foldR bcast_step evs s"

definition received :: "bcast_event list \<Rightarrow> Broadcast set" where
  "received evs = {b. Received b \<in> set evs}"

definition transmissions :: "bcast_event list \<Rightarrow> nat" where
  "transmissions evs = length (filter (\<lambda>e. \<exists>ch nd fwd vb code. e = Transmitted ch nd fwd vb code) evs)"

text \<open>Received broadcasts come from the decoder, and transmissions go to existing nodes.\<close>

fun event_ok :: "heap \<Rightarrow> bcast_event \<Rightarrow> bool" where
  "event_ok h (Received b) \<longleftrightarrow> fresh_broadcast h b"
| "event_ok h (Transmitted ch nd fwd vb code) \<longleftrightarrow> nd < length h"
| "event_ok h (Submitted bs) \<longleftrightarrow> True"

text \<open>What no event changes.\<close>

definition bcast_frame :: "smudge \<Rightarrow> smudge \<Rightarrow> bool" where
  "bcast_frame s t \<longleftrightarrow> counters_only (heap s) (heap t) \<and> thisHost t = thisHost s \<and> broadcastListeners t = broadcastListeners s"

lemma frame_labels:
  assumes "counters_only h h'" and "r < length h"
  shows "label_of h' r i = label_of h r i" "has_origin h' r = has_origin h r"
  using assms by (simp_all add: label_of_def has_origin_def counters_only_node)

lemma frame_event:
  assumes "bcast_frame s t" and "event_ok (heap s) e"
  shows "event_ok (heap t) e" and "\<And>b. e = Received b \<Longrightarrow> accepted (heap t) l b = accepted (heap s) l b"
  using assms counters_only_length [of "heap s" "heap t"] frame_labels [of "heap s" "heap t"]
  by (cases e; simp add: bcast_frame_def fresh_broadcast_def accepted_def)+

text \<open>One event: how often a label of another host is delivered, and how long it is then remembered.\<close>

definition remembers :: "nat \<Rightarrow> string \<Rightarrow> smudge \<Rightarrow> bool" where
  "remembers n l s \<longleftrightarrow> (\<forall>b. map_of (broadcasts s) l = Some b \<longrightarrow> int n < 100 + bcast_counter b)"

lemma transmit_remembers:
  assumes "wf_state s" and "transmitVerbGenericUDP ch nd fwd vb code s = Inr (err, t)" and "remembers (Suc n) l s"
  shows "(map_of (broadcasts t) l = None \<longleftrightarrow> map_of (broadcasts s) l = None) \<and> remembers n l t"
proof (cases "map_of (broadcasts s) l")
  case None
  then show ?thesis using transmit_ages [OF assms(1,2)] by (auto simp: aged_def remembers_def dest!: spec [of _ l])
next
  case (Some b)
  then have "int n + 1 < 100 + bcast_counter b" using assms(3) by (simp add: remembers_def)
  then show ?thesis using transmit_ages [OF assms(1,2)] Some by (auto simp: aged_def remembers_def dest!: spec [of _ l])
qed

lemma event_delivers:
  assumes "wf_state s" and "event_ok (heap s) e" and "bcast_step e s = Inr t" and "thisHost s = Some this"
    and "\<forall>i. l \<noteq> label_of (heap s) this i" and "remembers (transmissions (e # evs)) l s"
    and "\<forall>b \<in> received [e]. int (transmissions evs) < 100 + bcast_counter b"
  shows "wf_state t \<and> bcast_frame s t \<and> remembers (transmissions evs) l t \<and>
    (has_key (broadcasts t) l \<longleftrightarrow> has_key (broadcasts s) l \<or> (\<exists>b \<in> received [e]. accepted (heap s) l b)) \<and>
    deliveries k l (notified t) = deliveries k l (notified s) +
      (if \<not> has_key (broadcasts s) l \<and> (\<exists>b \<in> received [e]. accepted (heap s) l b) then count_list (broadcastListeners s) k else 0)"
proof (cases e)
  case (Received b)
  have b: "fresh_broadcast (heap s) b" "receiveBroadcast (Some b) s = Inr t" using assms(2,3) Received by simp_all
  have t: "wf_state t" "receive_frame s t"
    using receiveBroadcast_ok [OF assms(1), of "Some b"] b by (auto simp: yields_def)
  have "map_of (broadcasts t) l = map_of (broadcasts s) l \<or> map_of (broadcasts t) l = Some (b\<lparr>b_label := l\<rparr>)"
    using receiveBroadcast_cases [OF assms(1), of b] b by (auto simp: fresh_broadcast_def map_of_update split: if_splits)
  then have "remembers (transmissions evs) l t"
    using assms(6,7) by (auto simp: remembers_def received_def Received transmissions_def bcast_counter_def)
  then show ?thesis using t receiveBroadcast_delivers [OF assms(1) b]
    by (simp add: received_def Received bcast_frame_def receive_frame_def)
next
  case (Transmitted ch nd fwd vb code)
  obtain err where tr: "transmitVerbGenericUDP ch nd fwd vb code s = Inr (err, t)" and nd: "nd < length (heap s)"
    using assms(2,3) Transmitted by (auto elim!: bindR_InrE)
  have ok: "wf_state t" "tx_frame s t" using ensuresD [OF transmit_ok [OF assms(1) nd] tr] by auto
  then have "bcast_frame s t" "notified t = notified s"
    using tx_frame_same(2,6) [OF ok(2)] by (auto simp: bcast_frame_def tx_frame_def)
  moreover have "(map_of (broadcasts t) l = None \<longleftrightarrow> map_of (broadcasts s) l = None) \<and> remembers (transmissions evs) l t"
    using transmit_remembers [OF assms(1) tr] assms(6) by (simp add: transmissions_def Transmitted)
  ultimately show ?thesis using ok(1) by (simp add: received_def Transmitted has_key_iff)
next
  case (Submitted bs)
  then have "t = s \<or> (\<exists>b i. t = s\<lparr>broadcasts := AList.update (label_of (heap s) this i) b (broadcasts s), indexCounter := indexCounter s + 1\<rparr>)"
    using assms(3,4) by (auto simp: BroadcastBytes_def Broadcast_Label_new Let_def elim!: bindR_InrE split: if_splits)
  then have "bcast_frame s t" "notified t = notified s" "map_of (broadcasts t) l = map_of (broadcasts s) l"
    using assms(5) by (auto simp: bcast_frame_def map_of_update)
  moreover have "wf_state t" using assms(3) BroadcastBytes_ok [OF assms(1)] Submitted by (auto elim!: bindR_InrE dest: ensuresD)
  ultimately show ?thesis using assms(6) by (simp add: received_def Submitted has_key_iff remembers_def transmissions_def)
qed

lemma run_delivers:
  assumes "wf_state s" and "\<forall>e \<in> set evs. event_ok (heap s) e" and "bcast_run evs s = Inr t" and "thisHost s = Some this"
    and "\<forall>i. l \<noteq> label_of (heap s) this i" and "remembers (transmissions evs) l s"
    and "\<forall>b \<in> received evs. int (transmissions evs) < 100 + bcast_counter b"
  shows "deliveries k l (notified t) = deliveries k l (notified s) +
      (if \<not> has_key (broadcasts s) l \<and> (\<exists>b \<in> received evs. accepted (heap s) l b) then count_list (broadcastListeners s) k else 0)"
  using assms
proof (induction evs arbitrary: s)
  case Nil
  then show ?case by (simp add: bcast_run_def received_def)
next
  case (Cons e evs)
  have le: "transmissions evs \<le> transmissions (e # evs)" by (simp add: transmissions_def)
  have rec: "received (e # evs) = received [e] \<union> received evs" by (auto simp: received_def)
  obtain u where u: "bcast_step e s = Inr u" "bcast_run evs u = Inr t" using Cons.prems(3) by (auto simp: bcast_run_def elim!: bindR_InrE)
  have left: "int (transmissions evs) < 100 + bcast_counter b" if "b \<in> received (e # evs)" for b
    using bspec [OF Cons.prems(7) that] le by linarith
  then have "\<forall>b \<in> received [e]. int (transmissions evs) < 100 + bcast_counter b" by (simp add: rec)
  note one = event_delivers [OF Cons.prems(1) _ u(1) Cons.prems(4-6) this, of k]
  have fr: "wf_state u" "bcast_frame s u" "remembers (transmissions evs) l u" using one Cons.prems(2) by auto
  have acc: "accepted (heap u) l b = accepted (heap s) l b" if "b \<in> received evs" for b
    using frame_event(2) [OF fr(2), of "Received b" b l] Cons.prems(2) that by (auto simp: received_def)
  have "this < length (heap s)" using wf_stateD(7) [OF Cons.prems(1)] Cons.prems(4) by simp
  then have "\<forall>i. l \<noteq> label_of (heap u) this i" using fr(2) Cons.prems(5) frame_labels(1) [of "heap s" "heap u" this] by (simp add: bcast_frame_def)
  moreover have "\<forall>e \<in> set evs. event_ok (heap u) e" using Cons.prems(2) frame_event(1) [OF fr(2)] by simp
  moreover have "thisHost u = Some this" "broadcastListeners u = broadcastListeners s" using fr(2) Cons.prems(4) by (simp_all add: bcast_frame_def)
  moreover have "\<forall>b \<in> received evs. int (transmissions evs) < 100 + bcast_counter b" using left by (simp add: rec)
  ultimately have "deliveries k l (notified t) = deliveries k l (notified u) +
      (if \<not> has_key (broadcasts u) l \<and> (\<exists>b \<in> received evs. accepted (heap s) l b) then count_list (broadcastListeners s) k else 0)"
    using Cons.IH [OF fr(1) _ u(2) _ _ fr(3)] acc by simp
  then show ?case using one Cons.prems(2) unfolding rec by auto
qed

section \<open>Properties\<close>

text \<open>
  C15. A broadcast of another host is delivered at most once, as long as it is remembered: over any sequence of receptions, transmissions and submissions that
  returns, in which fewer transmissions are made than the counters of the received broadcasts, and of the one in the map, have left above the removal value -100,
  each listener is called for the label exactly as often as it is registered if the label was not in
  the map before and some received broadcast with a usable origin carries it, and not at all
  otherwise. Repetitions make no difference.
\<close>

theorem broadcast_delivered_once:
  assumes "wf_state s" and "\<forall>e \<in> set evs. event_ok (heap s) e" and "bcast_run evs s = Inr t"
    and "thisHost s = Some this" and "\<forall>i. l \<noteq> label_of (heap s) this i"
    and "\<forall>b. map_of (broadcasts s) l = Some b \<longrightarrow> int (transmissions evs) < 100 + sint (b_emitCounter b)"
    and "\<forall>b \<in> received evs. int (transmissions evs) < 100 + sint (b_emitCounter b)"
  shows "deliveries k l (notified t) = deliveries k l (notified s) +
      (if \<not> has_key (broadcasts s) l \<and>
          (\<exists>b \<in> received evs. has_origin (heap s) (b_origin b) \<and> label_of (heap s) (b_origin b) (b_index b) = l)
       then count_list (broadcastListeners s) k else 0)"
  using run_delivers [OF assms(1-5), of k] assms(6,7) by (simp add: remembers_def bcast_counter_def accepted_def)

text \<open>Two hosts of which the first holds a broadcast of the second.\<close>

definition sample_label :: string where
  "sample_label = label_of [host_node 1, host_node 2] 1 3"

definition holding :: "int8 \<Rightarrow> notification list \<Rightarrow> smudge" where
  "holding c es = two_hosts\<lparr>broadcasts := [(sample_label, (sample_broadcast [65])\<lparr>b_label := sample_label, b_emitCounter := c\<rparr>)], notified := es\<rparr>"

lemma sample_usable: "has_origin [host_node 1, host_node 2] 1" "sample_label \<noteq> []"
  by (simp_all add: has_origin_def norm_ip_def sample_label_def)

lemma holding_wf: "wf_state (holding c es)"
proof -
  have "broadcasts_ok (heap two_hosts) [(sample_label, (sample_broadcast [65])\<lparr>b_label := sample_label, b_emitCounter := c\<rparr>)]"
    using sample_usable(2) by (simp add: broadcasts_ok_def wf_map_def)
  then have "wf_state (two_hosts\<lparr>broadcasts := broadcasts (holding c es)\<rparr>)" by (intro wf_state_updates) (simp_all add: holding_def)
  then show ?thesis by (simp add: holding_def wf_state_def)
qed

lemma holding_pings: "\<exists>t. transmitVerbGenericUDP calm 1 None verbPing 7 (holding c es) = Inr (None, t)"
proof -
  have "enc_ok (holding c es)" by (simp add: holding_def enc_ok_def member_ip_def ip_len_defs fits_iff)
  moreover have "pingRequestCount (holding c es) \<le> 62" using two_hosts_count(1) by (simp add: holding_def pingRequestCount_def)
  moreover obtain err t where t: "transmitVerbGenericUDP calm 1 None verbPing 7 (holding c es) = Inr (err, t)"
    using transmit_total [OF holding_wf \<open>enc_ok (holding c es)\<close>, of 0 "''10.0.0.1:9999''" None calm 1 verbPing 7]
    by (auto simp: holding_def getByAddress_def elim!: yieldsE)
  ultimately show ?thesis using transmit_error [OF holding_wf _ _ _ t] by (simp add: calm_def)
qed

theorem broadcast_delivered_once_witness:
  "\<exists>t. bcast_run [Received (sample_broadcast [65]), Transmitted calm 1 None verbPing 7, Received (sample_broadcast [65])] two_hosts = Inr t \<and>
    deliveries 0 sample_label (notified t) = 1"
proof -
  let ?b = "sample_broadcast [65]"
  let ?e = "Received ?b" and ?tr = "Transmitted calm 1 None verbPing 7"
  have fresh: "fresh_broadcast (heap two_hosts) ?b" by (simp add: fresh_broadcast_def)
  have "receiveBroadcast (Some ?b) two_hosts = Inr (holding 2 [OnBroadcast 0 (?b\<lparr>b_label := sample_label\<rparr>)])"
    using receiveBroadcast_cases [OF wf_two_hosts, of ?b] sample_usable
    by (simp add: holding_def sample_label_def has_key_def sample_broadcast_def)
  moreover obtain u where u: "transmitVerbGenericUDP calm 1 None verbPing 7 (holding 2 [OnBroadcast 0 (?b\<lparr>b_label := sample_label\<rparr>)]) = Inr (None, u)"
    using holding_pings by blast
  moreover have "wf_state u" "fresh_broadcast (heap u) ?b"
    using ensuresD [OF transmit_ok [OF holding_wf] u] fresh by (auto simp: holding_def fresh_broadcast_def dest: tx_frame_same(11))
  then obtain t where "receiveBroadcast (Some ?b) u = Inr t" using receiveBroadcast_ok [of u "Some ?b"] by (auto elim!: yieldsE)
  ultimately have run: "bcast_run [?e, ?tr, ?e] two_hosts = Inr t" by (simp add: bcast_run_def)
  have "To16 (IPv4 10 0 0 2) \<noteq> To16 (IPv4 10 0 0 1)" by code_simp
  then have other: "\<forall>i. sample_label \<noteq> label_of (heap two_hosts) 0 i"
    unfolding sample_label_def using label_of_inj [of "[host_node 1, host_node 2]" 1 "heap two_hosts" 0 3] by auto
  define evs where "evs = [?e, ?tr, ?e]"
  have rec: "received evs = {?b}" "transmissions evs = 1" "\<forall>e \<in> set evs. event_ok (heap two_hosts) e"
    using fresh by (auto simp: received_def transmissions_def evs_def)
  have "sint (b_emitCounter ?b) = 2" by (simp add: sample_broadcast_def)
  then have "deliveries 0 sample_label (notified t) = 1"
    using broadcast_delivered_once [OF wf_two_hosts rec(3) run [folded evs_def] _ other, of 0, unfolded rec(1,2)] sample_usable(1)
    by (simp add: has_key_def deliveries_def sample_label_def)
  then show ?thesis using run by blast
qed

text \<open>
  Past that bound the promise fails: a transmission that finds a broadcast at the removal value forgets its label, and when the
  broadcast then arrives again it is delivered again to every listener.
\<close>

theorem spent_broadcast_redelivered:
  assumes "wf_state s" and "nd < length (heap s)" and "transmitVerbGenericUDP ch nd fwd vb code s = Inr (None, t)"
    and "fresh_broadcast (heap s) b" and "has_origin (heap s) (b_origin b)"
    and "map_of (broadcasts s) (label_of (heap s) (b_origin b) (b_index b)) = Some b0" and "sint (b_emitCounter b0) \<le> - 100"
  shows "\<exists>u. receiveBroadcast (Some b) t = Inr u \<and>
    deliveries k (label_of (heap s) (b_origin b) (b_index b)) (notified u) =
      deliveries k (label_of (heap s) (b_origin b) (b_index b)) (notified s) + count_list (broadcastListeners s) k"
proof -
  let ?l = "label_of (heap s) (b_origin b) (b_index b)"
  have t: "wf_state t" "tx_frame s t" using ensuresD [OF transmit_ok [OF assms(1,2)] assms(3)] by auto
  then have fr: "bcast_frame s t" "notified t = notified s"
    using tx_frame_same(2,6) [OF t(2)] by (auto simp: bcast_frame_def tx_frame_def)
  have b: "fresh_broadcast (heap t) b" "accepted (heap t) ?l b"
    using frame_event [OF fr(1), of "Received b"] assms(4,5) by (simp_all add: accepted_def)
  have "map_of (broadcasts t) ?l = None"
    using transmit_ages [OF assms(1,3)] assms(6,7) by (auto simp: aged_def bcast_counter_def dest!: spec [of _ ?l])
  moreover obtain u where u: "receiveBroadcast (Some b) t = Inr u"
    using receiveBroadcast_ok [OF t(1), of "Some b"] b(1) by (auto elim!: yieldsE)
  ultimately show ?thesis using receiveBroadcast_delivers(1) [OF t(1) b(1) u, of k ?l] b(2) fr
    by (simp add: bcast_frame_def has_key_iff)
qed

theorem spent_broadcast_redelivered_witness:
  "\<exists>t u. transmitVerbGenericUDP calm 1 None verbPing 7 (holding (- 100) []) = Inr (None, t) \<and>
     receiveBroadcast (Some (sample_broadcast [65])) t = Inr u \<and> deliveries 0 sample_label (notified u) = 1"
proof -
  obtain t where t: "transmitVerbGenericUDP calm 1 None verbPing 7 (holding (- 100) []) = Inr (None, t)" using holding_pings by blast
  then show ?thesis
    using spent_broadcast_redelivered [OF holding_wf _ t, of "sample_broadcast [65]" _ 0] sample_usable(1)
    by (auto simp: holding_def fresh_broadcast_def sample_label_def deliveries_def)
qed

end
