(* ===== verification/Orphans.thy ===== *)
theory Orphans
  imports Gossip
begin

text \<open>
  Why the refinement of \<open>Gossip\<close> asks for different addresses. The decoder looks up every address of a message
  in the registry, which it does not change: an unknown address that occurs twice becomes two node objects. Only the
  first that is added to the registry counts; what is learnt about the second is lost.
\<close>

section \<open>Objects that the decoder makes\<close>

text \<open>A decoded node is known, or newer than the state that decoding started in.\<close>

definition apart :: "smudge \<Rightarrow> node_ref \<Rightarrow> bool" where
  "apart s n \<longleftrightarrow> length (heap s) \<le> n \<or> (\<exists>k. getByAddress (knownNodes s) k = Some n)"

lemma resolve_apart: "resolve a p s = (r, t) \<Longrightarrow> apart s r"
  by (auto simp: resolve_def CreateNodeByIP_def apart_def getByIP_def Let_def split: option.splits)

lemma apart_grows: "grows s t \<Longrightarrow> apart t n \<Longrightarrow> apart s n"
  by (auto elim!: growsE simp: apart_def)

lemma decode_member_apart: "decode_member bytes p s = Inr (mm, q, t) \<Longrightarrow> apart s (mm_node mm)"
  unfolding decode_member_def Let_def
  by (auto elim!: bindR_InrE split: prod.splits) (erule resolve_apart)

lemma decode_members_apart:
  assumes "wf_state s" and "decode_members bytes p [] s = Inr (ms, t)" and "mm \<in> set ms"
  shows "apart s (mm_node mm)"
proof -
  have "ensures (decode_members bytes p [] s) (\<lambda>(ms', t). wf_state t \<and> grows s t \<and> (\<forall>mm \<in> set ms'. apart s (mm_node mm)))"
    using assms(1) nodes.grows_refl
    by (rule decode_members_each) (use decode_member_apart apart_grows in auto)
  from ensuresD [OF this assms(2)] show ?thesis using assms(3) by simp
qed

text \<open>A member of unknown address is never the object of the sender.\<close>

lemma decodeMessage_apart:
  assumes "wf_state s" and "valid_ip src" and "decodeMessage src bytes s = Inr (msg, err, u)" and "sender msg = Some r"
    and "mm \<in> set (members msg)" and "\<forall>k. getByAddress (knownNodes s) k \<noteq> Some (mm_node mm)"
  shows "mm_node mm \<noteq> r"
proof -
  have "\<exists>x t k mb ms v. resolve src x s = (r, t) \<and> decodeMembers k mb t = Inr (ms, v) \<and> mm \<in> set ms"
    using assms(3-5) unfolding decodeMessage_def Let_def
    by (auto elim!: bindR_InrE simp: newMessage_def split: prod.splits if_splits) blast+
  then obtain x t k mb ms v where r: "resolve src x s = (r, t)" and ms: "decode_members mb 0 [] t = Inr (ms, v)" "mm \<in> set ms"
    by (auto simp: decodeMembers_def)
  have t: "wf_state t" "grows s t" "r < length (heap t)" using resolve_ok [OF assms(1,2) r] by auto
  have "apart t (mm_node mm)" using decode_members_apart [OF t(1) ms] .
  then show ?thesis using assms(6) t by (auto simp: apart_def grows_same)
qed

section \<open>The sender that is also a member\<close>

lemma hear_orphan:
  assumes "wf_state s" and "r < length (heap s)" and "getByAddress (knownNodes s) (addr s r) = Some q" and "q \<noteq> r"
  shows "\<exists>t. AddNode r (hear_sender msg r s) = Inr (r, t) \<and> view t = view s"
proof -
  let ?t = "hear_sender msg r s"
  have known: "knownNodes ?t = knownNodes s" by (simp add: hear_sender_def)
  have "addr ?t r = addr s r" using keeps_addr [of s ?t r] hear_sender_ok [OF assms(1,2)] assms(2) by blast
  then have "AddNode r ?t = Inr (r, ?t)" using assms(3) known by (intro AddNode_known) (simp add: contains_iff)
  moreover have "view ?t = view s"
  proof
    fix a
    have "p \<noteq> r" if "getByAddress (knownNodes s) a = Some p" for p
      using that assms(3,4) map_ok_lookup [OF wf_stateD(2) [OF assms(1)] that] by auto
    then show "view ?t a = view s a"
      using updateNodeStatus_node [OF assms(2)]
      by (cases "getByAddress (knownNodes s) a") (auto simp: view_def known hear_sender_def)
  qed
  ultimately show ?thesis by blast
qed

lemma update_orphan:
  assumes "wf_state s" and "message_alloc (heap s) msg" and "thisHost s = Some this" and "sender msg = Some r" and "members msg = [m]"
    and "mm_status m \<noteq> StatusForwardTo" and "\<not> (mm_status m = StatusDead \<and> addr s r = addr s this)"
    and "canonical s (mm_node m)" and "mm_node m \<noteq> r" and "addr s (mm_node m) = addr s r" and "getByAddress (knownNodes s) (addr s r) = None"
  shows "\<exists>t. updateStatusesFromMessage msg s = Inr t \<and> view t = merge (addr s this) (news_of s m) (view s)"
proof -
  have alloc: "member_alloc (heap s) m" "r < length (heap s)" using assms(2,4,5) by (simp_all add: message_alloc_def)
  obtain u where u: "update_from_member m s = Inr u" "view u = merge (addr s this) (news_of s m) (view s)"
    and t: "u = s \<or> filed s (mm_node m) u"
    using update_from_member_view [OF assms(1) alloc(1) assms(3,8)] by blast
  have "merge (addr s this) (news_of s m) (view s) (addr s r) \<noteq> None" "view s (addr s r) = None"
    using assms(6,7,10,11) by (auto simp: news_of_def view_def current_def)
  then have f: "filed s (mm_node m) u" using t u(2) by auto
  then have "wf_state u" "keeps s u" "getByAddress (knownNodes u) (addr s r) = Some (mm_node m)"
    using assms(10) by (simp_all add: filed_def)
  moreover have "addr u r = addr s r" "r < length (heap u)"
    using keeps_addr [OF \<open>keeps s u\<close> alloc(2)] keeps_length [OF \<open>keeps s u\<close> alloc(2)] by simp_all
  ultimately obtain t where "AddNode r (hear_sender msg r u) = Inr (r, t)" "view t = view u"
    using hear_orphan [of u r "mm_node m" msg] assms(9) by auto
  then show ?thesis unfolding updateStatuses_stages [OF assms(4)] using u assms(5) by simp
qed

text \<open>
  C40. A host can take a node for dead that it has just heard. When a datagram from a sender that the host does not know
  brings one piece of news, about the address of the sender itself, then the host files the sender with the status and heartbeat of that news, dead for
  instance; that the sender was heard is recorded in an object that is thrown away.
\<close>

theorem sender_hearing_lost:
  assumes "wf_state s" and "valid_ip src" and "thisHost s = Some this"
    and "decodeMessage src b s = Inr (msg, None, u)" and "sender msg = Some r" and "port (node u r) \<noteq> 0" and "members msg = [m]"
    and "addr u (mm_node m) = addr u r" and "addr u r \<noteq> addr s this" and "getByAddress (knownNodes s) (addr u r) = None"
    and "mm_status m \<noteq> StatusForwardTo" and "mm_status m \<noteq> StatusUnknown" and "receiveMessageUDP ch src b s = Inr (err, t)"
  shows "view t = (view s)(addr u r \<mapsto> (mm_status m, mm_heartbeat m))"
proof -
  have u: "wf_state u" "grows s u" "message_alloc (heap u) msg"
    using ensuresD [OF decodeMessage_ok [OF assms(1,2)] assms(4)] by auto
  have alloc: "r < length (heap u)" "mm_node m < length (heap u)" using u(3) assms(5,7) by (simp_all add: message_alloc_def member_alloc_def)
  have known: "knownNodes u = knownNodes s" "thisHost u = Some this" using grows_same [OF u(2)] assms(3) by simp_all
  have self: "addr u this = addr s this"
    using extends_addressOf [OF grows_extends [OF u(2)]] wf_stateD(7) [OF assms(1)] assms(3) by simp
  have wf: "wf_node (node u r)" "wf_node (node u (mm_node m))" using alloc by (simp_all add: wf_heap_nth [OF wf_stateD(1) [OF u(1)]])
  have "port (node u (mm_node m)) = port (node u r)" using addressOf_eqD [OF wf(2,1) assms(8)] by simp
  then have can: "canonical u (mm_node m)"
    using ensuresD [OF decodeMessage_proper [OF assms(1,2)] assms(4)] assms(6,7) by (simp add: proper_def)
  have "\<forall>k. getByAddress (knownNodes s) k \<noteq> Some (mm_node m)"
    using map_ok_lookup [OF wf_stateD(2) [OF u(1)]] known(1) assms(8,10) by fastforce
  then have ne: "mm_node m \<noteq> r" using decodeMessage_apart [OF assms(1,2,4,5)] assms(7) by simp
  let ?u = "sync_heartbeat msg u"
  have s: "wf_state ?u" "message_alloc (heap ?u) msg" "thisHost ?u = Some this" "canonical ?u (mm_node m)" "heap ?u = heap u" "knownNodes ?u = knownNodes u"
    using u known(2) can by (simp_all add: sync_heartbeat_ok) (simp add: sync_heartbeat_def)
  obtain v where v: "updateStatusesFromMessage msg ?u = Inr v" "view v = merge (addr u this) (news_of u m) (view u)"
    using update_orphan [OF s(1-3) assms(5,7,11) _ s(4) ne] assms(8-10) self known(1) s(5,6) by auto
  obtain w where w: "absorb msg u = Inr w" "receive_verb ch msg w = Inr (err, t)"
    using assms(13) unfolding receiveMessage_stages assms(4) by (auto elim!: bindR_InrE)
  have "view t = view v" using view_after_updates [OF u(1,3) _ assms(5) v(1) w] known(2) by simp
  moreover have "view s (addr u r) = None" using assms(10) by (simp add: view_def)
  ultimately show ?thesis using v(2) decoded_view [OF assms(1,2,4)] assms(8,9,11,12) self by (simp add: news_of_def current_def)
qed

text \<open>The second host knows only itself and hears from the first one, which passes on the news that it is dead itself.\<close>

definition newcomer :: smudge where
  "newcomer = peer\<lparr>knownNodes := \<lparr>nodes = [(''10.0.0.2:9999'', 1)]\<rparr>\<rparr>"

definition own_death :: message where
  "own_death = (newMessage verbAck (Some 0) 9)\<lparr>members := [\<lparr>mm_source = None, mm_heartbeat = 7, mm_node = 0, mm_status = StatusDead\<rparr>]\<rparr>"

lemma newcomer_simps [simp]:
  "heap newcomer = [host_node 1, host_node 2]" "thisHost newcomer = Some 1" "ipLen newcomer = IPv4len"
  "knownNodes newcomer = \<lparr>nodes = [(''10.0.0.2:9999'', 1)]\<rparr>"
  by (simp_all add: newcomer_def peer_def)

lemma newcomer_wf: "wf_state newcomer"
proof -
  have "map_ok (heap peer) \<lparr>nodes = [(''10.0.0.2:9999'', 1)]\<rparr>"
    by (simp add: peer_def map_ok_def keys_ok_def wf_map_def)
  then show ?thesis using peer_wf by (simp add: newcomer_def wf_state_def)
qed

theorem sender_hearing_lost_witness:
  "\<exists>b t. receiveMessageUDP calm [10, 0, 0, 1] b newcomer = Inr (None, t) \<and> view t ''10.0.0.1:9999'' = Some (StatusDead, 7)"
proof -
  have src: "valid_ip [10, 0, 0, 1]" "nodeAddressString [10, 0, 0, 1] 9999 = ''10.0.0.1:9999''"
    by (simp_all add: nodeAddressString_def IP_String_def To4_def ip_len_defs decimal.simps digit_char_def char_of_def bit_0 valid_ip_def)
  have "sendable [host_node 1, host_node 2] IPv4len 0" by (simp add: sendable_def member_ip_def ip_len_defs)
  then obtain bs m' u q where dec: "decodeMessage [10, 0, 0, 1] \<lparr>live = bs, spare = []\<rparr> newcomer = Inr (m', None, u)" "wf_state u"
    and m': "verb m' = verbAck" "sender m' = Some q" "addr u q = ''10.0.0.1:9999''"
    and same: "list_all2 (\<lambda>mm mm'. same_member [host_node 1, host_node 2] mm (heap u) mm') (members own_death) (members m')"
    using message_sent [OF newcomer_wf src(1), of own_death 0 "[host_node 1, host_node 2]" "[]"] src(2)
    by (auto simp: own_death_def newMessage_def member_sendable_def)
  obtain m where m: "members m' = [m]" "mm_status m = StatusDead" "mm_heartbeat m = 7" "addr u (mm_node m) = ''10.0.0.1:9999''"
    using same by (auto simp: own_death_def newMessage_def list_all2_Cons1 same_member_def)
  obtain t where t: "receiveMessageUDP calm [10, 0, 0, 1] \<lparr>live = bs, spare = []\<rparr> newcomer = Inr (None, t)"
    using ack_handled [OF newcomer_wf src(1) _ dec(1) m'(1)] by auto
  have "q < length (heap u)" using ensuresD [OF decodeMessage_ok [OF newcomer_wf src(1)] dec(1)] m'(2) by (simp add: message_alloc_def)
  then have "wf_node (node u q)" by (rule wf_heap_nth [OF wf_stateD(1) [OF dec(2)]])
  then have "port (node u q) = 9999" using named_id [of "heap u" q "[10, 0, 0, 1]" 9999] src m'(3) by simp
  then have "view t = (view newcomer)(''10.0.0.1:9999'' \<mapsto> (StatusDead, 7))"
    using sender_hearing_lost [OF newcomer_wf src(1) _ dec(1) m'(2) _ m(1) _ _ _ _ _ t] m m'(3) by (simp add: getByAddress_def)
  then show ?thesis using t by (intro exI [of _ "\<lparr>live = bs, spare = []\<rparr>"] exI [of _ t]) simp
qed

end
