(* ===== verification/Log.thy ===== *)
theory Log
  imports Prelude
begin

text \<open>
  \<open>src/log.go\<close>: levels, the threshold and the loggers. The handlers of the other
  theories leave their log calls out, since nothing in the program depends on them. An operand of a message
  is the text that \<open>fmt\<close> makes of it; \<open>fmt.Sprintf\<close> and the time stamp are arguments, and writing to the standard
  error stream succeeds. A logger that the user plugs in is known by a number: the model records which of its two
  methods is called with what, and takes what it returns. A nil logger panics when it is called.
\<close>

section \<open>Levels\<close>

type_synonym LogLevel = byte

definition LogAll :: LogLevel where "LogAll = 0"
definition LogTrace :: LogLevel where "LogTrace = 1"
definition LogDebug :: LogLevel where "LogDebug = 2"
definition LogInfo :: LogLevel where "LogInfo = 3"
definition LogWarn :: LogLevel where "LogWarn = 4"
definition LogError :: LogLevel where "LogError = 5"
definition LogFatal :: LogLevel where "LogFatal = 6"
definition LogOff :: LogLevel where "LogOff = 7"

lemmas level_defs = LogAll_def LogTrace_def LogDebug_def LogInfo_def LogWarn_def LogError_def LogFatal_def LogOff_def

definition LogLevel_String :: "LogLevel \<Rightarrow> string" where
  "LogLevel_String s =
     (if s = LogAll then ''All''
      else if s = LogTrace then ''Trace''
      else if s = LogDebug then ''Debug''
      else if s = LogInfo then ''Info''
      else if s = LogWarn then ''Warn''
      else if s = LogError then ''Error''
      else if s = LogFatal then ''Fatal''
      else if s = LogOff then ''Off''
      else ''Unknown'')"

section \<open>Loggers\<close>

datatype Logger = NilLogger | DefaultLogger | PluggedLogger nat

datatype logger_call =
    Log nat LogLevel "string list"
  | Logf nat LogLevel string "string list"

record log_state =
  logThreshhold :: LogLevel
  logger :: Logger
  stderr :: string
  plugged :: "logger_call list"

type_synonym log_result = "nat \<times> string option"

definition SetLogThreshold :: "LogLevel \<Rightarrow> log_state \<Rightarrow> log_state" where
  "SetLogThreshold level st = st\<lparr>logThreshhold := level\<rparr>"

definition SetLogger :: "Logger \<Rightarrow> log_state \<Rightarrow> log_state" where
  "SetLogger l st = st\<lparr>logger := l\<rparr>"

definition pad5 :: "string \<Rightarrow> string" where
  "pad5 t = replicate (5 - length t) (CHR '' '') @ t"

definition log_prefix :: "string \<Rightarrow> LogLevel \<Rightarrow> string" where
  "log_prefix f level = pad5 (LogLevel_String level) @ '' '' @ f @ '' -''"

definition fprint :: "string \<Rightarrow> log_state \<Rightarrow> log_result \<times> log_state" where
  "fprint t st = ((length t, None), st\<lparr>stderr := stderr st @ t\<rparr>)"

text \<open>\<open>fmt.Sprintln\<close>: the operands separated by single spaces, and a newline.\<close>

fun sprintln :: "string list \<Rightarrow> string" where
  "sprintln [] = [CHR 0x0A]"
| "sprintln [a] = a @ [CHR 0x0A]"
| "sprintln (a # b # as) = a @ '' '' @ sprintln (b # as)"

definition DefaultLogger_Log :: "string \<Rightarrow> LogLevel \<Rightarrow> string list \<Rightarrow> log_state \<Rightarrow> log_result \<times> log_state" where
  "DefaultLogger_Log f level a st =
     (if level \<ge> logThreshhold st then
        let (r, st) = fprint (log_prefix f level @ '' '') st
        in fprint (sprintln a) st
      else ((0, None), st))"

definition DefaultLogger_Logf ::
  "(string \<Rightarrow> string list \<Rightarrow> string) \<Rightarrow> string \<Rightarrow> LogLevel \<Rightarrow> string \<Rightarrow> string list \<Rightarrow> log_state \<Rightarrow> log_result \<times> log_state" where
  "DefaultLogger_Logf sprintf f level format a st =
     (if level \<ge> logThreshhold st
      then fprint (sprintf (log_prefix f level @ '' '' @ format @ [CHR 0x0A]) a) st
      else ((0, None), st))"

definition init_log :: log_state where
  "init_log = SetLogThreshold LogInfo (SetLogger DefaultLogger
     \<lparr>logThreshhold = 0, logger = NilLogger, stderr = [], plugged = []\<rparr>)"

text \<open>A plugged-in logger returns \<open>ret\<close>.\<close>

definition go_log :: "log_result \<Rightarrow> string \<Rightarrow> LogLevel \<Rightarrow> string list \<Rightarrow> log_state \<Rightarrow> (log_result \<times> log_state) outcome" where
  "go_log ret f level a st =
     (if level \<ge> logThreshhold st then
        (case logger st of
           NilLogger \<Rightarrow> Inl NilDereference
         | DefaultLogger \<Rightarrow> Inr (DefaultLogger_Log f level a st)
         | PluggedLogger i \<Rightarrow> Inr (ret, st\<lparr>plugged := plugged st @ [Log i level a]\<rparr>))
      else Inr ((0, None), st))"

definition go_logf ::
  "log_result \<Rightarrow> (string \<Rightarrow> string list \<Rightarrow> string) \<Rightarrow> string \<Rightarrow> LogLevel \<Rightarrow> string \<Rightarrow> string list \<Rightarrow> log_state \<Rightarrow> (log_result \<times> log_state) outcome" where
  "go_logf ret sprintf f level format a st =
     (if level \<ge> logThreshhold st then
        (case logger st of
           NilLogger \<Rightarrow> Inl NilDereference
         | DefaultLogger \<Rightarrow> Inr (DefaultLogger_Logf sprintf f level format a st)
         | PluggedLogger i \<Rightarrow> Inr (ret, st\<lparr>plugged := plugged st @ [Logf i level format a]\<rparr>))
      else Inr ((0, None), st))"

definition logTrace :: "log_result \<Rightarrow> string \<Rightarrow> string list \<Rightarrow> log_state \<Rightarrow> (log_result \<times> log_state) outcome" where
  "logTrace ret f a st = go_log ret f LogTrace a st"
definition logDebug :: "log_result \<Rightarrow> string \<Rightarrow> string list \<Rightarrow> log_state \<Rightarrow> (log_result \<times> log_state) outcome" where
  "logDebug ret f a st = go_log ret f LogDebug a st"
definition logInfo :: "log_result \<Rightarrow> string \<Rightarrow> string list \<Rightarrow> log_state \<Rightarrow> (log_result \<times> log_state) outcome" where
  "logInfo ret f a st = go_log ret f LogInfo a st"
definition logWarn :: "log_result \<Rightarrow> string \<Rightarrow> string list \<Rightarrow> log_state \<Rightarrow> (log_result \<times> log_state) outcome" where
  "logWarn ret f a st = go_log ret f LogWarn a st"
definition logError :: "log_result \<Rightarrow> string \<Rightarrow> string list \<Rightarrow> log_state \<Rightarrow> (log_result \<times> log_state) outcome" where
  "logError ret f a st = go_log ret f LogError a st"
definition logFatal :: "log_result \<Rightarrow> string \<Rightarrow> string list \<Rightarrow> log_state \<Rightarrow> (log_result \<times> log_state) outcome" where
  "logFatal ret f a st = go_log ret f LogFatal a st"
definition logfTrace ::
  "log_result \<Rightarrow> (string \<Rightarrow> string list \<Rightarrow> string) \<Rightarrow> string \<Rightarrow> string \<Rightarrow> string list \<Rightarrow> log_state \<Rightarrow> (log_result \<times> log_state) outcome" where
  "logfTrace ret sprintf f format a st = go_logf ret sprintf f LogTrace format a st"
definition logfDebug ::
  "log_result \<Rightarrow> (string \<Rightarrow> string list \<Rightarrow> string) \<Rightarrow> string \<Rightarrow> string \<Rightarrow> string list \<Rightarrow> log_state \<Rightarrow> (log_result \<times> log_state) outcome" where
  "logfDebug ret sprintf f format a st = go_logf ret sprintf f LogDebug format a st"
definition logfInfo ::
  "log_result \<Rightarrow> (string \<Rightarrow> string list \<Rightarrow> string) \<Rightarrow> string \<Rightarrow> string \<Rightarrow> string list \<Rightarrow> log_state \<Rightarrow> (log_result \<times> log_state) outcome" where
  "logfInfo ret sprintf f format a st = go_logf ret sprintf f LogInfo format a st"
definition logfWarn ::
  "log_result \<Rightarrow> (string \<Rightarrow> string list \<Rightarrow> string) \<Rightarrow> string \<Rightarrow> string \<Rightarrow> string list \<Rightarrow> log_state \<Rightarrow> (log_result \<times> log_state) outcome" where
  "logfWarn ret sprintf f format a st = go_logf ret sprintf f LogWarn format a st"
definition logfError ::
  "log_result \<Rightarrow> (string \<Rightarrow> string list \<Rightarrow> string) \<Rightarrow> string \<Rightarrow> string \<Rightarrow> string list \<Rightarrow> log_state \<Rightarrow> (log_result \<times> log_state) outcome" where
  "logfError ret sprintf f format a st = go_logf ret sprintf f LogError format a st"
definition logfFatal ::
  "log_result \<Rightarrow> (string \<Rightarrow> string list \<Rightarrow> string) \<Rightarrow> string \<Rightarrow> string \<Rightarrow> string list \<Rightarrow> log_state \<Rightarrow> (log_result \<times> log_state) outcome" where
  "logfFatal ret sprintf f format a st = go_logf ret sprintf f LogFatal format a st"

section \<open>Sequences of log calls\<close>

text \<open>What the program and its user do to the log, and the run of such a sequence.\<close>

datatype log_event =
    Threshold LogLevel
  | Plug Logger
  | Print LogLevel "string list"
  | Format LogLevel string "string list"

fun log_step :: "log_result \<Rightarrow> (string \<Rightarrow> string list \<Rightarrow> string) \<Rightarrow> string \<Rightarrow> log_event \<Rightarrow> log_state \<Rightarrow> log_state outcome" where
  "log_step ret sprintf f (Threshold level) st = Inr (SetLogThreshold level st)"
| "log_step ret sprintf f (Plug l) st = Inr (SetLogger l st)"
| "log_step ret sprintf f (Print level a) st = bindR (go_log ret f level a st) (\<lambda>(r, st). Inr st)"
| "log_step ret sprintf f (Format level format a) st = bindR (go_logf ret sprintf f level format a st) (\<lambda>(r, st). Inr st)"

text \<open>
  The specification: the lines of the default logger and the calls of the plugged-in ones, from a
  threshold and a logger on; a message is dropped when its level is below the threshold in force when it is made.
\<close>

fun log_lines :: "(string \<Rightarrow> string list \<Rightarrow> string) \<Rightarrow> string \<Rightarrow> LogLevel \<Rightarrow> Logger \<Rightarrow> log_event list \<Rightarrow> string" where
  "log_lines sprintf f th l [] = []"
| "log_lines sprintf f th l (Threshold level # es) = log_lines sprintf f level l es"
| "log_lines sprintf f th l (Plug l' # es) = log_lines sprintf f th l' es"
| "log_lines sprintf f th l (Print level a # es) =
     (if th \<le> level \<and> l = DefaultLogger then log_prefix f level @ '' '' @ sprintln a else []) @ log_lines sprintf f th l es"
| "log_lines sprintf f th l (Format level format a # es) =
     (if th \<le> level \<and> l = DefaultLogger then sprintf (log_prefix f level @ '' '' @ format @ [CHR 0x0A]) a else []) @ log_lines sprintf f th l es"

fun log_calls :: "LogLevel \<Rightarrow> Logger \<Rightarrow> log_event list \<Rightarrow> logger_call list" where
  "log_calls th l [] = []"
| "log_calls th l (Threshold level # es) = log_calls level l es"
| "log_calls th l (Plug l' # es) = log_calls th l' es"
| "log_calls th l (Print level a # es) =
     (case l of PluggedLogger i \<Rightarrow> if th \<le> level then [Log i level a] else [] | _ \<Rightarrow> []) @ log_calls th l es"
| "log_calls th l (Format level format a # es) =
     (case l of PluggedLogger i \<Rightarrow> if th \<le> level then [Logf i level format a] else [] | _ \<Rightarrow> []) @ log_calls th l es"

section \<open>Properties\<close>

lemma log_total:
  assumes "logger st \<noteq> NilLogger"
  shows "\<exists>r st'. go_log ret f level a st = Inr (r, st')" and "\<exists>r st'. go_logf ret sprintf f level format a st = Inr (r, st')"
proof -
  have "\<exists>x. go_log ret f level a st = Inr x" using assms by (cases "logger st") (simp_all add: go_log_def del: split_paired_Ex)
  moreover have "\<exists>x. go_logf ret sprintf f level format a st = Inr x" using assms by (cases "logger st") (simp_all add: go_logf_def del: split_paired_Ex)
  ultimately show "\<exists>r st'. go_log ret f level a st = Inr (r, st')" "\<exists>r st'. go_logf ret sprintf f level format a st = Inr (r, st')"
    by (metis surj_pair)+
qed

text \<open>
  The log over any sequence of messages and changes of threshold and logger that never sets a nil logger: the standard
  error stream grows by exactly the lines of the messages at or above the threshold in force that the default logger was
  to take, in order, and the plugged-in loggers are called for exactly the others of these, each by the method of its kind.
\<close>

theorem log_trace:
  assumes "logger st \<noteq> NilLogger" and "Plug NilLogger \<notin> set es"
  shows "\<exists>st'. foldR (log_step ret sprintf f) es st = Inr st' \<and>
    stderr st' = stderr st @ log_lines sprintf f (logThreshhold st) (logger st) es \<and>
    plugged st' = plugged st @ log_calls (logThreshhold st) (logger st) es"
  using assms
proof (induction es arbitrary: st)
  case (Cons e es)
  show ?case
  proof (cases e)
    case (Threshold level)
    then show ?thesis using Cons.IH [of "SetLogThreshold level st"] Cons.prems by (simp add: SetLogThreshold_def)
  next
    case (Plug l)
    then show ?thesis using Cons.IH [of "SetLogger l st"] Cons.prems by (auto simp: SetLogger_def)
  next
    case (Print level a)
    obtain r st1 where g: "go_log ret f level a st = Inr (r, st1)" using log_total Cons.prems(1) by blast
    then have "logger st1 = logger st" "logThreshhold st1 = logThreshhold st"
      by (auto simp: go_log_def DefaultLogger_Log_def fprint_def split: Logger.splits if_splits)
    then show ?thesis using Cons.IH [of st1] Cons.prems g Print
      by (auto simp: go_log_def DefaultLogger_Log_def fprint_def split: Logger.splits if_splits)
  next
    case (Format level format a)
    obtain r st1 where g: "go_logf ret sprintf f level format a st = Inr (r, st1)" using log_total Cons.prems(1) by blast
    then have "logger st1 = logger st" "logThreshhold st1 = logThreshhold st"
      by (auto simp: go_logf_def DefaultLogger_Logf_def fprint_def split: Logger.splits if_splits)
    then show ?thesis using Cons.IH [of st1] Cons.prems g Format
      by (auto simp: go_logf_def DefaultLogger_Logf_def fprint_def split: Logger.splits if_splits)
  qed
qed simp

theorem log_trace_witness:
  "\<exists>st'. foldR (log_step (0, None) (\<lambda>t a. t) ''now'') [Print LogDebug [''a''], Threshold LogDebug, Plug (PluggedLogger 3), Format LogDebug ''b'' []] init_log = Inr st' \<and>
     stderr st' = [] \<and> plugged st' = [Logf 3 LogDebug ''b'' []]"
  using log_trace [of init_log "[Print LogDebug [''a''], Threshold LogDebug, Plug (PluggedLogger 3), Format LogDebug ''b'' []]" "(0, None)" "\<lambda>t a. t" "''now''"]
  by (simp add: init_log_def SetLogThreshold_def SetLogger_def level_defs del: foldR.simps)

text \<open>
  With the threshold \<open>LogOff\<close> none of the twelve log functions of the program
  does anything, whatever the logger, and without a logger every message at or above the threshold panics.
\<close>

theorem log_off:
  assumes "logThreshhold st = LogOff"
  shows "logTrace n f a st = Inr ((0, None), st) \<and> logDebug n f a st = Inr ((0, None), st) \<and> logInfo n f a st = Inr ((0, None), st) \<and>
    logWarn n f a st = Inr ((0, None), st) \<and> logError n f a st = Inr ((0, None), st) \<and> logFatal n f a st = Inr ((0, None), st) \<and>
    logfTrace n p f t a st = Inr ((0, None), st) \<and> logfDebug n p f t a st = Inr ((0, None), st) \<and> logfInfo n p f t a st = Inr ((0, None), st) \<and>
    logfWarn n p f t a st = Inr ((0, None), st) \<and> logfError n p f t a st = Inr ((0, None), st) \<and> logfFatal n p f t a st = Inr ((0, None), st) \<and>
    logFatal n f a (SetLogger NilLogger (SetLogThreshold LogInfo st)) = Inl NilDereference"
proof -
  have "\<not> (7 :: byte) \<le> 1" by (simp add: not_le word_less_nat_alt)
  then show ?thesis using assms
    by (simp add: logTrace_def logDebug_def logInfo_def logWarn_def logError_def logFatal_def logfTrace_def logfDebug_def logfInfo_def
        logfWarn_def logfError_def logfFatal_def go_log_def go_logf_def SetLogger_def SetLogThreshold_def level_defs)
qed

theorem log_off_witness:
  "logFatal (0, None) ''now'' [''bye''] (SetLogThreshold LogOff init_log) = Inr ((0, None), SetLogThreshold LogOff init_log)"
  using log_off [of "SetLogThreshold LogOff init_log" "(0, None)" "''now''" "[''bye'']"] by (simp add: SetLogThreshold_def)

end
