(* ===== verification/Spec2Isabelle.thy ===== *)
theory Spec2Isabelle
  imports Rounds Delivery Orphans Log
begin

text \<open>
  A verification of smudge, a Go library for cluster membership by gossip (SWIM): every host
  keeps a registry of nodes with a status, pings them in random rounds, asks others to ping a node that does not answer,
  suspects it, declares it dead, and piggybacks status news and user broadcasts on the datagrams it sends.

  \<^bold>\<open>Parts of the program and their theories.\<close>

  \<^item> \<open>Prelude\<close>: outcomes of operations (a panic or a value), Go slices with a capacity, Go maps as
  association lists with an explicit traversal order, decimal text, and the rules \<open>ensures\<close> (partial)
  and \<open>yields\<close> (total) by which operations are specified.
  \<^item> \<open>Bytes\<close>: \<open>src/bytes.go\<close>, the little-endian codecs; locale \<open>codec\<close>.
  \<^item> \<open>NetIP\<close>, \<open>NetParse\<close>: what the program uses of package \<open>net\<close>, \<open>strconv\<close> and
  \<open>hash/adler32\<close>, and \<open>nodeAddressString\<close>.
  \<^item> \<open>Node\<close>: \<open>src/node.go\<close>, \<open>src/nodeStatus.go\<close>, \<open>src/messageVerb.go\<close>.
  \<^item> \<open>NodeMap\<close>: \<open>src/nodeMap.go\<close>; locale \<open>node_registry\<close>.
  \<^item> \<open>PingData\<close>: \<open>src/pingData.go\<close>.
  \<^item> \<open>Properties\<close>: \<open>src/properties.go\<close>; locale \<open>lazy_property\<close>, interpreted for eight settings.
  \<^item> \<open>State\<close>, \<open>Invariant\<close>: the package variables of \<open>membership.go\<close>, \<open>registry.go\<close>,
  \<open>broadcast.go\<close> and \<open>events.go\<close> as the record \<open>smudge\<close>, the limits \<open>emitCount\<close> and
  \<open>pingRequestCount\<close>, and the invariant \<open>wf_state\<close>.
  \<^item> \<open>Events\<close>, \<open>Registry\<close>: \<open>src/events.go\<close>, \<open>src/registry.go\<close>; locale \<open>emit_pool\<close>.
  \<^item> \<open>Wire\<close>, \<open>Broadcasts\<close>: \<open>src/broadcast.go\<close>; locale \<open>node_resolver\<close>, the contract between
  the decoders and the registry.
  \<^item> \<open>Message\<close>: \<open>src/message.go\<close>.
  \<^item> \<open>Transmit\<close>, \<open>Receive\<close>, \<open>Timeouts\<close>, \<open>Membership\<close>, \<open>Multicast\<close>: \<open>src/membership.go\<close>, in this
  order sending, handling of datagrams, the timeout loop, \<open>Begin\<close> with its ping rounds, and the
  listeners and announcements; locale \<open>message_effect\<close>, what handling a datagram may do to nodes.
  \<^item> \<open>Command\<close>: \<open>src/smudge/smudge.go\<close>.
  \<^item> \<open>Log\<close>: \<open>src/log.go\<close>.
  \<^item> \<open>Delivery\<close>: sequences of receptions, transmissions and submissions of broadcasts, and how often the listeners are called.
  \<^item> \<open>System\<close>: the whole program as a step relation, one step per goroutine turn and per call of an exported
  function that changes the state; the goroutines of \<open>Begin\<close> are tasks that open, run and end; locale \<open>transition_system\<close>, interpreted for
  well-formedness and for programs without multicast.
  \<^item> \<open>Protocol\<close>: two hosts, pings and acknowledgements, and the datagrams that can stop a host.
  \<^item> \<open>Gossip\<close>: the specification of the membership protocol on tables of statuses and heartbeats by
  address, and the proof that the handlers refine it.
  \<^item> \<open>Indirect\<close>: three hosts, the ping that one asks another to make and the acknowledgement on its way back.
  \<^item> \<open>Orphans\<close>: a sender that is also a member of its message, the case that the refinement of \<open>Gossip\<close> leaves out, and what goes wrong there.
  \<^item> \<open>Progress\<close>: every turn of a goroutine returns, whatever the network does.
  \<^item> \<open>Rounds\<close>: whole rounds of the main loop, and the fate of a node that stays dead.

  \<^bold>\<open>How the model corresponds to the code.\<close>

  Definitions carry the names of the Go functions; a name that clashes gets its receiver as a prefix
  (\<open>nodeMap_add\<close>, \<open>message_encode\<close>, \<open>pingData_add\<close>). A loop body or a block of a long function is a definition
  of its own (\<open>encode_member\<close>, \<open>update_from_member\<close>, \<open>check_pack\<close>, \<open>visit_node\<close>, \<open>dead_backoff\<close>).

  \<^item> Nodes are shared through pointers, so they live in a heap (a list of records) and a pointer
  is an index. Nodes are never freed; the heap only grows (\<open>extends\<close>). \<open>Address()\<close> stores the printed address in the node;
  \<open>Address_memo\<close> shows that storing it changes no later result, and the stored copy is not threaded.
  \<^item> Integers have their width: \<open>uint32\<close> heartbeats and clocks wrap, \<open>int8\<close> counters are read
  with \<open>sint\<close>, Go's \<open>int\<close> is \<open>int\<close>. Floats are exact reals; the conversion of minus infinity is the least 64-bit integer.
  \<^item> Errors are values of \<open>go_error\<close>, panics are \<open>Inl\<close>. Every index, slice bound and nil
  dereference of the source is a branch.
  \<^item> The order of \<open>range\<close> over a map, the results of \<open>rand.Intn\<close>, of the network, the resolver, the
  interfaces and the clock are arguments; the theorems hold for all of them.
  \<^item> A handler is one atomic step. A goroutine started inside a handler is recorded in \<open>spawned\<close> and
  runs as a step of its own. Calls of listeners are recorded in \<open>notified\<close>, written datagrams in \<open>sent\<close>.
  \<^item> Getters of the configuration are read by value inside the handlers; that they also store
  the value is modelled in \<open>Properties\<close>, where \<open>get_same_value\<close> shows that reading again gives the same.
  \<^item> In the step relation of \<open>System\<close> a listener takes datagrams only after it has opened its socket, multicast is used only if
  \<open>Begin\<close> found it enabled, and an announcer that fails or has no interval ends. \<open>Begin\<close> up to its loop is one step. The relation
  is indexed by the inputs it admits. \<open>Any\<close> admits all: \<open>CreateNodeByIP\<close> and \<open>CreateNodeByAddress\<close> with any address, \<open>UpdateNodeStatus\<close> with
  any status, \<open>Begin\<close> with any configuration. \<open>Sound\<close> restricts these four: a valid IP address, a name that
  is refused or resolves to one (\<open>usable\<close>), no forwarding pseudo status, and for \<open>Begin\<close> a valid listen address and initial hosts that are
  usable. The invariants are proved for \<open>Sound\<close>; \<open>unsound_input_spoils_state\<close> shows that they fail for \<open>Any\<close>. Datagrams are arbitrary
  in both. The setters are one rule that gives the configuration any value, which is more than the program does. \<open>BroadcastString\<close> is
  \<open>BroadcastBytes\<close>. Not in the relation: functions that only read (\<open>AllNodes\<close>, \<open>HealthyNodes\<close>, the getters and accessors), those of the
  log, and a second concurrent call of \<open>Begin\<close>, which never returns.
  \<^item> A nil address and an empty one are both the empty list; \<open>SetListenIP\<close> takes an empty slice that is not nil for nil.

  \<^bold>\<open>What is shown.\<close>

  Refinement: handling a datagram is a merge of its news into the table of the host, and what one host sends is
  what another merges (\<open>Gossip\<close>), as long as the sender and the subjects of the news have different addresses; the node map is a finite map, the ring buffer a sliding window, the message
  encoder a reference layout. Invariants: \<open>wf_state\<close> along every run with sound inputs, permanent identities, heartbeats that never fall, a host that never
  believes its own death. Round trips of messages, broadcasts and announcements, and the detection of every single changed byte. Behaviour of
  each operation on all branches: pings and acknowledgements, timeouts and the status of every node after a pass, indirect pings from the first
  request to the relayed answer, gossip and broadcast selection,
  start-up, ping rounds that reach every node and end, backoff of dead nodes up to their removal, broadcasts that are delivered once
  as long as they are remembered. All decoders terminate (as total functions). Error behaviour: the inputs that stop the process are characterised exactly where the code has no guard, and
  \<open>host_handles_datagrams\<close> shows that for a host that can write the addresses it knows too short datagrams, empty ping requests, foreign
  sources and unwritable broadcast origins are the only ones, \<open>ipv4_host_handles_datagrams\<close> that among IPv4 nodes only the first two remain.

  \<^bold>\<open>Bounds.\<close> No fuel is used: loops are structural, or functions with a measure (\<open>decode_members\<close>, \<open>split_list\<close>), and the two
  endless loops are steps. A dead node is visited 2046 times before it is forgotten, the sum of the powers of two up to the tenth.
  A message holds at most 63 members, the six bits of the verb byte; \<open>log_count_upper\<close> shows that the emission limit of
  any map of fewer than $2^{63}$ nodes fits the \<open>int8\<close> counters.

  \<^bold>\<open>Not modelled.\<close> Sockets, interfaces, the resolver and the clock, beyond their results; the scheduling of goroutines inside
  a handler, hence data races and the locks that prevent them; rounding of floats; \<open>fmt.Sprintf\<close> and the log calls of the handlers;
  text beyond ASCII in the splitting of host lists; the tests and build files.
\<close>

end
